(* ===== verification/Dup_Prelude.thy ===== *)
theory Dup_Prelude
  imports Main "HOL-Library.Multiset" "HOL-Library.Word"
begin

text \<open>
  The prelude: the collections of rewrite rules the component theories extend, the machine
  integer abbreviations, and the facts about lists that several components share.
  A segment is the slice of an array that a group of entries occupies, a span is the pair of
  its start and length, and a run is a maximal block of neighbours that compare equal to
  its first element.
\<close>

named_theorems pool_simps \<open>how the bookkeeping of pool blocks changes\<close>
named_theorems run_simps \<open>what the cursor loops over runs compute\<close>

type_synonym u8 = "8 word"
type_synonym u64 = "64 word"

lemma distinct_map_sorted_wrt: "distinct (map f xs) \<longleftrightarrow> sorted_wrt (\<lambda>x y. f x \<noteq> f y) xs"
  by (induction xs) auto

section \<open>Segments of an array\<close>

definition segment :: "'a list \<Rightarrow> nat \<Rightarrow> nat \<Rightarrow> 'a list" where
  "segment xs start n = take n (drop start xs)"

lemma length_segment [simp]: "start + n \<le> length xs \<Longrightarrow> length (segment xs start n) = n"
  by (simp add: segment_def)

lemma segment_whole [simp]: "segment xs 0 (length xs) = xs"
  by (simp add: segment_def)

lemma segment_0_len [simp]: "segment xs start 0 = []"
  by (simp add: segment_def)

lemma nth_segment: "i < n \<Longrightarrow> start + n \<le> length xs \<Longrightarrow> segment xs start n ! i = xs ! (start + i)"
  by (simp add: segment_def)

lemma segment_append: "segment (ps @ ys @ qs) (length ps) (length ys) = ys"
  by (simp add: segment_def)

lemma split_segment:
  "start + n \<le> length xs \<Longrightarrow> xs = take start xs @ segment xs start n @ drop (start + n) xs"
  unfolding segment_def by (metis add.commute append_take_drop_id drop_drop)

lemma set_segment: "set (segment xs start n) \<subseteq> set xs"
  by (auto simp: segment_def dest: in_set_takeD in_set_dropD)

lemma segment_add: "segment xs start (n + k) = segment xs start n @ segment xs (start + n) k"
  by (simp add: segment_def take_add add.commute [of start n])

lemma segment_Suc: "start < length xs \<Longrightarrow> segment xs start (Suc n) = xs ! start # segment xs (Suc start) n"
  by (simp add: segment_def Cons_nth_drop_Suc [symmetric])

lemma segment_cong:
  assumes "\<And>i. i < n \<Longrightarrow> xs ! (start + i) = ys ! (start + i)"
    and "start + n \<le> length xs" and "start + n \<le> length ys"
  shows "segment xs start n = segment ys start n"
  using assms by (intro nth_equalityI) (auto simp: nth_segment)

lemma segment_of_segment: "i + k \<le> n \<Longrightarrow> segment (segment xs start n) i k = segment xs (start + i) k"
  by (simp add: segment_def drop_take min_absorb1 add.commute [of i start])

text \<open>Overwriting a segment, as an in-place sort of a sub-array does.\<close>

definition put_segment :: "'a list \<Rightarrow> nat \<Rightarrow> 'a list \<Rightarrow> 'a list" where
  "put_segment xs start ys = take start xs @ ys @ drop (start + length ys) xs"

lemma length_put_segment [simp]:
  "start + length ys \<le> length xs \<Longrightarrow> length (put_segment xs start ys) = length xs"
  by (simp add: put_segment_def)

lemma segment_put_same:
  "start + length ys \<le> length xs \<Longrightarrow> segment (put_segment xs start ys) start (length ys) = ys"
  by (simp add: put_segment_def segment_def)

lemma segment_put_before:
  "i + k \<le> start \<Longrightarrow> start + length ys \<le> length xs \<Longrightarrow> segment (put_segment xs start ys) i k = segment xs i k"
  by (intro segment_cong) (auto simp: put_segment_def nth_append)

lemma segment_put_after:
  "start + length ys \<le> i \<Longrightarrow> i + k \<le> length xs \<Longrightarrow> segment (put_segment xs start ys) i k = segment xs i k"
  by (intro segment_cong) (auto simp: put_segment_def nth_append)

lemma mset_put_segment:
  "mset ys = mset (segment xs start (length ys)) \<Longrightarrow> start + length ys \<le> length xs
    \<Longrightarrow> mset (put_segment xs start ys) = mset xs"
  using split_segment [of start "length ys" xs] unfolding put_segment_def
  by (metis mset_append)

section \<open>Runs\<close>

lemma length_dropWhile_less_Suc [termination_simp]: "length (dropWhile P xs) < Suc (length xs)"
  using length_dropWhile_le [of P xs] by simp

fun runs :: "('a \<Rightarrow> 'a \<Rightarrow> bool) \<Rightarrow> 'a list \<Rightarrow> 'a list list" where
  "runs same [] = []"
| "runs same (x # xs) = (x # takeWhile (same x) xs) # runs same (dropWhile (same x) xs)"

lemma concat_runs [simp]: "concat (runs same xs) = xs"
  by (induction same xs rule: runs.induct) simp_all

lemma runs_nonempty: "r \<in> set (runs same xs) \<Longrightarrow> r \<noteq> []"
  by (induction same xs rule: runs.induct) auto

lemma runs_same_head: "r \<in> set (runs same xs) \<Longrightarrow> y \<in> set (tl r) \<Longrightarrow> same (hd r) y"
  by (induction same xs rule: runs.induct) (auto dest: set_takeWhileD)

lemma runs_cong:
  assumes "\<And>x y. x \<in> set xs \<Longrightarrow> y \<in> set xs \<Longrightarrow> same x y = same' x y"
  shows "runs same xs = runs same' xs"
  using assms
proof (induction same xs rule: runs.induct)
  case (2 same x xs)
  have eq: "takeWhile (same x) xs = takeWhile (same' x) xs" "dropWhile (same x) xs = dropWhile (same' x) xs"
    using "2.prems" by (auto intro!: takeWhile_cong dropWhile_cong)
  have "runs same (dropWhile (same x) xs) = runs same' (dropWhile (same x) xs)"
    by (rule "2.IH") (auto intro!: "2.prems" dest: set_dropWhileD)
  with eq show ?case by simp
qed simp

text \<open>Spans: where the pieces of a concatenation lie, counted from an offset.\<close>

fun spans_of :: "nat \<Rightarrow> 'a list list \<Rightarrow> (nat \<times> nat) list" where
  "spans_of off [] = []"
| "spans_of off (r # rs) = (off, length r) # spans_of (off + length r) rs"

lemma spans_of_segments:
  "length ps = off \<Longrightarrow> map (\<lambda>(i, n). segment (ps @ concat rs @ qs) i n) (spans_of off rs) = rs"
proof (induction off rs arbitrary: ps rule: spans_of.induct)
  case (2 off r rs)
  have "map (\<lambda>(i, n). segment ((ps @ r) @ concat rs @ qs) i n) (spans_of (off + length r) rs) = rs"
    using "2.prems" by (intro "2.IH") simp
  then show ?case
    using "2.prems" segment_append [of ps r "concat rs @ qs"] by simp
qed simp

lemma map_snd_spans_of: "map snd (spans_of off rs) = map length rs"
  by (induction off rs rule: spans_of.induct) simp_all

lemma spans_of_zip: "spans_of off rs = zip (map fst (spans_of off rs)) (map length rs)"
  by (induction off rs rule: spans_of.induct) simp_all

lemma filter_spans_segments:
  assumes "length ps = off"
  shows "map (\<lambda>(i, n). segment (ps @ concat rs @ qs) i n) (filter (\<lambda>(i, n). P n) (spans_of off rs))
    = filter (\<lambda>r. P (length r)) rs"
  using assms
proof (induction off rs arbitrary: ps rule: spans_of.induct)
  case (2 off r rs)
  have "map (\<lambda>(i, n). segment ((ps @ r) @ concat rs @ qs) i n)
      (filter (\<lambda>(i, n). P n) (spans_of (off + length r) rs)) = filter (\<lambda>r. P (length r)) rs"
    using "2.prems" by (intro "2.IH") simp
  then show ?case
    using "2.prems" segment_append [of ps r "concat rs @ qs"] by simp
qed simp

section \<open>Ordered spans\<close>

text \<open>
  A list of spans is laid out between two bounds when the spans are in bounds and follow
  one another without overlap.
\<close>

fun laid_out :: "nat \<Rightarrow> nat \<Rightarrow> (nat \<times> nat) list \<Rightarrow> bool" where
  "laid_out lo hi [] = (lo \<le> hi)"
| "laid_out lo hi ((i, n) # ss) = (lo \<le> i \<and> laid_out (i + n) hi ss)"

lemma laid_out_le: "laid_out lo hi ss \<Longrightarrow> lo \<le> hi"
  by (induction lo hi ss rule: laid_out.induct) auto

lemma laid_out_weaken: "laid_out lo hi ss \<Longrightarrow> lo' \<le> lo \<Longrightarrow> hi \<le> hi' \<Longrightarrow> laid_out lo' hi' ss"
  by (induction lo hi ss arbitrary: lo' rule: laid_out.induct) auto

lemma laid_out_append: "laid_out lo mid ss \<Longrightarrow> laid_out mid hi ts \<Longrightarrow> laid_out lo hi (ss @ ts)"
proof (induction lo mid ss rule: laid_out.induct)
  case (1 lo mid)
  then show ?case using laid_out_weaken [of mid hi ts lo hi] by simp
qed simp

lemma laid_out_in: "laid_out lo hi ss \<Longrightarrow> (i, n) \<in> set ss \<Longrightarrow> lo \<le> i \<and> i + n \<le> hi"
proof (induction lo hi ss rule: laid_out.induct)
  case (2 lo hi j k ss)
  from "2.prems" have rest: "laid_out (j + k) hi ss" and lo: "lo \<le> j" by auto
  show ?case
  proof (cases "(i, n) = (j, k)")
    case True
    then show ?thesis using lo laid_out_le [OF rest] by simp
  next
    case False
    then have "(i, n) \<in> set ss" using "2.prems"(2) by auto
    then show ?thesis using "2.IH" rest lo by auto
  qed
qed simp

lemma laid_out_spans_of: "laid_out off (off + length (concat rs)) (spans_of off rs)"
  by (induction off rs rule: spans_of.induct) (auto simp: add.assoc [symmetric])

lemma laid_out_filter: "laid_out lo hi ss \<Longrightarrow> laid_out lo hi (filter P ss)"
proof (induction lo hi ss rule: laid_out.induct)
  case (2 lo hi i n ss)
  then have "laid_out (i + n) hi (filter P ss)" and "lo \<le> i" by simp_all
  then show ?case using laid_out_weaken [of "i + n" hi "filter P ss" lo hi] by simp
qed simp

text \<open>The indices a laid out list of spans covers are distinct.\<close>

definition span_indices :: "nat \<times> nat \<Rightarrow> nat list" where
  "span_indices s = [fst s ..< fst s + snd s]"

lemma span_indices_Pair [simp]: "span_indices (i, n) = [i ..< i + n]"
  by (simp add: span_indices_def)

lemma laid_out_indices:
  "laid_out lo hi ss \<Longrightarrow> distinct (concat (map span_indices ss)) \<and> set (concat (map span_indices ss)) \<subseteq> {lo ..< hi}"
proof (induction lo hi ss rule: laid_out.induct)
  case (2 lo hi i n ss)
  then have rest: "laid_out (i + n) hi ss" and lo: "lo \<le> i" by auto
  from rest have le: "i + n \<le> hi" by (rule laid_out_le)
  from "2.IH" rest have IH: "distinct (concat (map span_indices ss))"
    "set (concat (map span_indices ss)) \<subseteq> {i + n ..< hi}" by auto
  define C where "C = concat (map span_indices ss)"
  have eq: "concat (map span_indices ((i, n) # ss)) = [i ..< i + n] @ C"
    by (simp add: C_def)
  from IH have C: "distinct C" "set C \<subseteq> {i + n ..< hi}" by (simp_all only: C_def)
  have "{i ..< i + n} \<inter> set C = {}" using C(2) by auto
  moreover have "{i ..< i + n} \<union> set C \<subseteq> {lo ..< hi}" using C(2) lo le by auto
  ultimately show ?case unfolding eq using C(1) by simp
qed simp

lemma nth_map_upt_segment: "start + n \<le> length xs \<Longrightarrow> map ((!) xs) [start ..< start + n] = segment xs start n"
  by (intro nth_equalityI) (auto simp: nth_segment)

section \<open>Lines of a text\<close>

definition NEWLINE :: char where "NEWLINE = CHR 0x0A"

fun text_lines :: "string \<Rightarrow> string list" where
  "text_lines [] = [[]]"
| "text_lines (c # cs) =
    (if c = NEWLINE then [] # text_lines cs
     else (case text_lines cs of l # ls \<Rightarrow> (c # l) # ls | [] \<Rightarrow> [[c]]))"

lemma text_lines_line: "NEWLINE \<notin> set l \<Longrightarrow> text_lines (l @ NEWLINE # rest) = l # text_lines rest"
  by (induction l) auto

end
