(* ===== verification/Dup_Types.thy ===== *)
theory Dup_Types
  imports Dup_Prelude
begin

text \<open>
  The data of \<^verbatim>\<open>include/internal/bc_duplicate_types_internal.h\<close>. Structs are records, enums are
  datatypes. Sizes of files, device and inode numbers and hashes are 64-bit words, digest
  bytes are 8-bit words; array indices and counts of array elements are natural numbers,
  since an array of entries never reaches \<open>2 ^ 64\<close> elements. The source's prefix
  \<^verbatim>\<open>bc_duplicate_\<close> is dropped from names throughout the development.
\<close>

section \<open>Constants\<close>

definition FAST_HASH_BLOCK_SIZE :: nat where "FAST_HASH_BLOCK_SIZE = 4096"
definition XXH3_DIGEST_SIZE :: nat where "XXH3_DIGEST_SIZE = 8"
definition XXH128_DIGEST_SIZE :: nat where "XXH128_DIGEST_SIZE = 16"
definition SHA256_DIGEST_SIZE :: nat where "SHA256_DIGEST_SIZE = 32"
definition MAX_DIGEST_SIZE :: nat where "MAX_DIGEST_SIZE = SHA256_DIGEST_SIZE"

lemmas digest_size_defs = XXH3_DIGEST_SIZE_def XXH128_DIGEST_SIZE_def SHA256_DIGEST_SIZE_def
  MAX_DIGEST_SIZE_def

section \<open>Enums\<close>

datatype algorithm = ALGORITHM_XXH3 | ALGORITHM_XXH128 | ALGORITHM_SHA256

datatype output_format = OUTPUT_FORMAT_SIMPLE | OUTPUT_FORMAT_JSON

datatype threads_mode =
    THREADS_MODE_AUTO
  | THREADS_MODE_MONO
  | THREADS_MODE_EXPLICIT
  | THREADS_MODE_IO

datatype output_destination_mode =
    OUTPUT_DESTINATION_AUTO
  | OUTPUT_DESTINATION_STDOUT
  | OUTPUT_DESTINATION_FILE

datatype command = COMMAND_SCAN | COMMAND_SUMMARY

text \<open>The algorithms as a finite enumeration, so that a statement about all of them computes.\<close>

instantiation algorithm :: enum
begin

definition enum_algorithm :: "algorithm list" where
  "enum_algorithm = [ALGORITHM_XXH3, ALGORITHM_XXH128, ALGORITHM_SHA256]"

definition enum_all_algorithm :: "(algorithm \<Rightarrow> bool) \<Rightarrow> bool" where
  "enum_all_algorithm P \<longleftrightarrow> P ALGORITHM_XXH3 \<and> P ALGORITHM_XXH128 \<and> P ALGORITHM_SHA256"

definition enum_ex_algorithm :: "(algorithm \<Rightarrow> bool) \<Rightarrow> bool" where
  "enum_ex_algorithm P \<longleftrightarrow> P ALGORITHM_XXH3 \<or> P ALGORITHM_XXH128 \<or> P ALGORITHM_SHA256"

lemma UNIV_algorithm: "UNIV = {ALGORITHM_XXH3, ALGORITHM_XXH128, ALGORITHM_SHA256}"
  using algorithm.exhaust by blast

instance
  by standard
    (auto simp: enum_algorithm_def enum_all_algorithm_def enum_ex_algorithm_def UNIV_algorithm
      intro: algorithm.exhaust)

end

section \<open>Structs\<close>

record cli_options =
  opt_command :: command
  opt_algorithm :: algorithm
  opt_threads_mode :: threads_mode
  explicit_worker_count :: u64
  minimum_file_size :: u64
  opt_output_destination_mode :: output_destination_mode
  output_destination_path :: "string option"
  include_list :: "string option"
  exclude_list :: "string option"
  include_hidden :: bool
  follow_symlinks :: bool
  match_hardlinks :: bool
  one_file_system :: bool
  positional_argument_values :: "string list"

record file_entry =
  absolute_path :: string
  file_size :: u64
  device_id :: u64
  inode_number :: u64
  fast_hash :: u64
  full_hash :: "u8 list"
  fast_hash_computed :: bool
  full_hash_computed :: bool
  fast_hash_errno :: int
  full_hash_errno :: int

text \<open>
  An entry as discovery creates it: the designated initialiser sets the path and the
  identity, every other member is zero. The length of the path is the length of the string.
\<close>

definition new_entry :: "string \<Rightarrow> u64 \<Rightarrow> u64 \<Rightarrow> u64 \<Rightarrow> file_entry" where
  "new_entry path sz dev ino =
    \<lparr>absolute_path = path, file_size = sz, device_id = dev, inode_number = ino,
     fast_hash = 0, full_hash = replicate MAX_DIGEST_SIZE 0,
     fast_hash_computed = False, full_hash_computed = False,
     fast_hash_errno = 0, full_hash_errno = 0\<rparr>"

text \<open>An entry as discovery leaves it: nothing computed yet, hash and digest zero.\<close>

definition fresh_entry :: "file_entry \<Rightarrow> bool" where
  "fresh_entry e \<longleftrightarrow> e = new_entry (absolute_path e) (file_size e) (device_id e) (inode_number e)"

lemma fresh_new_entry [simp]: "fresh_entry (new_entry path sz dev ino)"
  by (simp add: fresh_entry_def new_entry_def)

lemma fresh_entry_hashes:
  assumes "fresh_entry e"
  shows "fast_hash e = 0" and "full_hash e = replicate MAX_DIGEST_SIZE 0"
  using assms by (metis fresh_entry_def new_entry_def file_entry.select_convs(5), metis fresh_entry_def new_entry_def file_entry.select_convs(6))

record group =
  start_index :: nat
  entry_count :: nat
  group_file_size :: u64

record statistics =
  files_scanned :: u64
  directories_scanned :: u64
  files_skipped :: u64
  hardlinks_collapsed :: u64
  size_candidate_count :: u64
  files_hashed_fast :: u64
  files_hashed_full :: u64
  duplicate_group_count :: u64
  duplicate_file_count :: u64
  wasted_bytes :: u64
  wall_ms :: u64

text \<open>
  The inode a file entry names, and the span and the members of a group in an array of
  entries.
\<close>

definition inode_of :: "file_entry \<Rightarrow> u64 \<times> u64" where
  "inode_of e = (device_id e, inode_number e)"

definition span :: "group \<Rightarrow> nat \<times> nat" where
  "span g = (start_index g, entry_count g)"

definition members :: "'e list \<Rightarrow> group \<Rightarrow> 'e list" where
  "members es g = segment es (start_index g) (entry_count g)"

text \<open>The groups a pass is given are laid out in the array of entries.\<close>

definition groups_laid_out :: "nat \<Rightarrow> group list \<Rightarrow> bool" where
  "groups_laid_out n gs = laid_out 0 n (map span gs)"

lemma members_eq: "members es g = (case span g of (i, n) \<Rightarrow> segment es i n)"
  by (simp add: members_def span_def)

lemma groups_laid_out_in:
  "groups_laid_out n gs \<Longrightarrow> g \<in> set gs \<Longrightarrow> start_index g + entry_count g \<le> n"
  unfolding groups_laid_out_def span_def
  by (drule laid_out_in [where i = "start_index g" and n = "entry_count g"]) auto

lemma length_members:
  "groups_laid_out (length es) gs \<Longrightarrow> g \<in> set gs \<Longrightarrow> length (members es g) = entry_count g"
  unfolding members_def by (rule length_segment) (rule groups_laid_out_in)

end
