(* ===== verification/Dup_Order.thy ===== *)
theory Dup_Order
  imports Dup_Types
begin

text \<open>
  What the sort of \<^verbatim>\<open>bc_core_sort.h\<close> needs of a comparator and promises in return, and what a
  linear scan of a sorted array relies on. The sort itself is not part of the repository: it is
  a parameter of the passes that use it, with \<open>sort_contract\<close> as the named hypothesis.
\<close>

section \<open>Comparators\<close>

locale comparator =
  fixes lt :: "'a \<Rightarrow> 'a \<Rightarrow> bool"
  assumes asymmetric: "lt x y \<Longrightarrow> \<not> lt y x"
    and negatively_transitive: "\<not> lt x y \<Longrightarrow> \<not> lt y z \<Longrightarrow> \<not> lt x z"
begin

lemma irreflexive: "\<not> lt x x"
  using asymmetric by blast

lemma transitive: "lt x y \<Longrightarrow> lt y z \<Longrightarrow> lt x z"
  using asymmetric negatively_transitive by blast

end

text \<open>A comparator that reads a key of a linear order, and the reversal of one.\<close>

lemma comparator_key: "comparator (\<lambda>x y. (f x :: 'k::linorder) < f y)"
  by unfold_locales auto

lemma comparator_key_desc: "comparator (\<lambda>x y. (f x :: 'k::linorder) > f y)"
  by unfold_locales auto

type_synonym 'a sorter = "('a \<Rightarrow> 'a \<Rightarrow> bool) \<Rightarrow> 'a list \<Rightarrow> 'a list"

text \<open>
  \<^verbatim>\<open>bc_core_sort_with_compare\<close> on a strict weak order permutes the array so that no later
  element is less than an earlier one. Nothing is assumed about stability.
\<close>

definition ordered_by :: "('a \<Rightarrow> 'a \<Rightarrow> bool) \<Rightarrow> 'a list \<Rightarrow> bool" where
  "ordered_by lt xs \<longleftrightarrow> sorted_wrt (\<lambda>x y. \<not> lt y x) xs"

definition sort_contract :: "'a sorter \<Rightarrow> bool" where
  "sort_contract srt \<longleftrightarrow>
    (\<forall>lt xs. comparator lt \<longrightarrow> mset (srt lt xs) = mset xs \<and> ordered_by lt (srt lt xs))"

lemma sort_contract_mset: "sort_contract srt \<Longrightarrow> comparator lt \<Longrightarrow> mset (srt lt xs) = mset xs"
  by (simp add: sort_contract_def)

lemma sort_contract_ordered: "sort_contract srt \<Longrightarrow> comparator lt \<Longrightarrow> ordered_by lt (srt lt xs)"
  by (simp add: sort_contract_def)

lemma sort_contract_length: "sort_contract srt \<Longrightarrow> comparator lt \<Longrightarrow> length (srt lt xs) = length xs"
  by (metis sort_contract_mset size_mset)

text \<open>A sort that meets the contract, for concrete runs of the model.\<close>

fun insert_by :: "('a \<Rightarrow> 'a \<Rightarrow> bool) \<Rightarrow> 'a \<Rightarrow> 'a list \<Rightarrow> 'a list" where
  "insert_by lt x [] = [x]"
| "insert_by lt x (y # ys) = (if lt y x then y # insert_by lt x ys else x # y # ys)"

fun insertion_sort :: "'a sorter" where
  "insertion_sort lt [] = []"
| "insertion_sort lt (x # xs) = insert_by lt x (insertion_sort lt xs)"

lemma mset_insert_by [simp]: "mset (insert_by lt x xs) = add_mset x (mset xs)"
  by (induction xs) auto

lemma set_insert_by [simp]: "set (insert_by lt x xs) = insert x (set xs)"
  by (induction xs) auto

context comparator
begin

lemma ordered_insert_by: "ordered_by lt xs \<Longrightarrow> ordered_by lt (insert_by lt x xs)"
  unfolding ordered_by_def
  by (induction xs) (auto dest: asymmetric negatively_transitive)

end

lemma sort_contract_insertion_sort: "sort_contract insertion_sort"
proof -
  have "mset (insertion_sort lt xs) = mset xs" for lt :: "'a \<Rightarrow> 'a \<Rightarrow> bool" and xs
    by (induction xs) simp_all
  moreover have "ordered_by lt (insertion_sort lt xs)" if "comparator lt"
    for lt :: "'a \<Rightarrow> 'a \<Rightarrow> bool" and xs
    by (induction xs) (simp_all add: comparator.ordered_insert_by [OF that], simp add: ordered_by_def)
  ultimately show ?thesis by (simp add: sort_contract_def)
qed

section \<open>Equivalence classes with at least two members\<close>

text \<open>
  The abstract specification of a grouping pass: of a multiset of entries, the classes of an
  equivalence that have two members or more.
\<close>

definition dup_classes :: "('a \<Rightarrow> 'a \<Rightarrow> bool) \<Rightarrow> 'a multiset \<Rightarrow> 'a multiset set" where
  "dup_classes same M = {filter_mset (same x) M | x. x \<in># M \<and> 2 \<le> size (filter_mset (same x) M)}"

definition dup_runs :: "('a \<Rightarrow> 'a \<Rightarrow> bool) \<Rightarrow> 'a list \<Rightarrow> 'a list list" where
  "dup_runs same xs = filter (\<lambda>r. 2 \<le> length r) (runs same xs)"

lemma equivp_key: "equivp (\<lambda>x y. f x = f y)"
  by (rule equivpI) (auto intro: reflpI sympI transpI)

text \<open>Refining the classes of one equivalence by another gives the classes of both.\<close>

lemma dup_classes_refine:
  assumes "equivp s" and "equivp t"
  shows "(\<Union>C \<in> dup_classes s M. dup_classes t C) = dup_classes (\<lambda>x y. s x y \<and> t x y) M"
proof (intro equalityI subsetI)
  fix D assume "D \<in> (\<Union>C \<in> dup_classes s M. dup_classes t C)"
  then obtain x y where x: "x \<in># M" and y: "y \<in># filter_mset (s x) M"
    and D: "D = filter_mset (t y) (filter_mset (s x) M)" and two: "2 \<le> size D"
    by (auto simp: dup_classes_def)
  have "s x z \<longleftrightarrow> s y z" for z
    using y assms(1) by (auto dest: equivp_symp equivp_transp)
  then have "D = filter_mset (\<lambda>z. s y z \<and> t y z) M"
    by (auto simp: D filter_filter_mset conj_commute)
  with two y show "D \<in> dup_classes (\<lambda>x y. s x y \<and> t x y) M"
    by (auto simp: dup_classes_def)
next
  fix D assume "D \<in> dup_classes (\<lambda>x y. s x y \<and> t x y) M"
  then obtain x where x: "x \<in># M" and D: "D = filter_mset (\<lambda>z. s x z \<and> t x z) M" and two: "2 \<le> size D"
    by (auto simp: dup_classes_def)
  let ?C = "filter_mset (s x) M"
  have D': "D = filter_mset (t x) ?C"
    by (auto simp: D filter_filter_mset conj_commute)
  have "size D \<le> size ?C" unfolding D' by (rule size_filter_mset_lesseq)
  with two x have "?C \<in> dup_classes s M" by (auto simp: dup_classes_def)
  moreover have "x \<in># ?C" using x equivp_reflp [OF assms(1)] by simp
  then have "D \<in> dup_classes t ?C"
    unfolding dup_classes_def using D' two by blast
  ultimately show "D \<in> (\<Union>C \<in> dup_classes s M. dup_classes t C)" by blast
qed

lemma dup_classes_image:
  "dup_classes same (image_mset f M) = image_mset f ` dup_classes (\<lambda>x y. same (f x) (f y)) M"
  by (auto simp: dup_classes_def filter_mset_image_mset image_iff)

text \<open>Lists no members of which, in different lists, are equal: none of them occurs twice.\<close>

definition apart :: "('a \<Rightarrow> 'a \<Rightarrow> bool) \<Rightarrow> 'a list list \<Rightarrow> bool" where
  "apart same ms \<longleftrightarrow> sorted_wrt (\<lambda>r s. \<forall>x \<in> set r. \<forall>y \<in> set s. \<not> same x y) ms"

lemma apart_map:
  assumes "apart s ms" and "\<And>x y. t (f x) (f y) \<Longrightarrow> s x y"
  shows "apart t (map (map f) ms)"
  unfolding apart_def sorted_wrt_map
proof (rule sorted_wrt_mono_rel [OF _ assms(1) [unfolded apart_def]])
  fix r q assume "\<forall>x \<in> set r. \<forall>y \<in> set q. \<not> s x y"
  then show "\<forall>x \<in> set (map f r). \<forall>y \<in> set (map f q). \<not> t x y" using assms(2) by (simp, blast)
qed

lemma apart_distinct:
  assumes "apart same ms" and "\<forall>r \<in> set ms. r \<noteq> []" and "\<And>x. same x x"
  shows "distinct (map mset ms)"
  using assms(1,2)
proof (induction ms)
  case (Cons r ms)
  have "mset s \<noteq> mset r" if "s \<in> set ms" for s
  proof
    assume "mset s = mset r"
    then have "set s = set r" by (rule mset_eq_setD)
    moreover have "hd r \<in> set r" using Cons.prems(2) by simp
    ultimately show False using Cons.prems(1) assms(3) [of "hd r"] that unfolding apart_def sorted_wrt.simps by blast
  qed
  then have "mset r \<notin> mset ` set ms" by (metis imageE)
  moreover have "distinct (map mset ms)" using Cons by (simp add: apart_def)
  ultimately show ?case by simp
qed simp

section \<open>Runs of a finer equality\<close>

lemma runs_append:
  assumes "ys = [] \<or> (\<forall>x \<in> set xs. \<not> same x (hd ys))"
  shows "runs same (xs @ ys) = runs same xs @ runs same ys"
  using assms
proof (induction same xs rule: runs.induct)
  case (2 same x xs)
  have tw: "takeWhile (same x) (xs @ ys) = takeWhile (same x) xs"
  proof (cases "\<forall>z \<in> set xs. same x z")
    case True
    then show ?thesis
      using "2.prems" by (cases ys) (auto intro: takeWhile_eq_all_conv [THEN iffD2, symmetric])
  next
    case False
    then show ?thesis by (auto simp: takeWhile_append1)
  qed
  have dw: "dropWhile (same x) (xs @ ys) = dropWhile (same x) xs @ ys"
  proof (cases "\<forall>z \<in> set xs. same x z")
    case True
    then show ?thesis using "2.prems" by (cases ys) (auto simp: dropWhile_append2)
  next
    case False
    then show ?thesis by (auto simp: dropWhile_append1)
  qed
  have "runs same (dropWhile (same x) xs @ ys) = runs same (dropWhile (same x) xs) @ runs same ys"
    using "2.prems" by (intro "2.IH") (auto dest: set_dropWhileD)
  then show ?case by (simp add: tw dw)
qed simp

lemma runs_refine:
  assumes "equivp s" and "\<And>x y. t x y \<Longrightarrow> s x y"
  shows "runs t xs = concat (map (runs t) (runs s xs))"
  using assms
proof (induction s xs rule: runs.induct)
  case (2 s x xs)
  let ?t = "takeWhile (s x) xs" and ?d = "dropWhile (s x) xs"
  have "\<not> t z (hd ?d)" if d: "?d \<noteq> []" and z: "z \<in> set (x # ?t)" for z
  proof
    assume "t z (hd ?d)"
    then have "s z (hd ?d)" using "2.prems"(2) by blast
    moreover have "s x z" using z equivp_reflp [OF "2.prems"(1)] by (auto dest: set_takeWhileD)
    ultimately have "s x (hd ?d)" using equivp_transp [OF "2.prems"(1)] by blast
    with hd_dropWhile [OF d] show False ..
  qed
  then have "?d = [] \<or> (\<forall>z \<in> set (x # ?t). \<not> t z (hd ?d))" by blast
  then have "runs t ((x # ?t) @ ?d) = runs t (x # ?t) @ runs t ?d" by (rule runs_append)
  then show ?case using "2.IH" "2.prems" by simp
qed simp

section \<open>Scanning a sorted array\<close>

text \<open>
  What a linear scan for equal neighbours relies on: the scan's equality is an equivalence
  whose classes are convex in the order of the sort, so that sorting makes every class
  contiguous. The order may be finer than the equality.
\<close>

locale grouping_order = comparator lt
  for lt :: "'a \<Rightarrow> 'a \<Rightarrow> bool" +
  fixes same :: "'a \<Rightarrow> 'a \<Rightarrow> bool"
  assumes same_equivp: "equivp same"
    and convex: "\<not> lt y x \<Longrightarrow> \<not> lt z y \<Longrightarrow> same x z \<Longrightarrow> same x y"
begin

lemma same_refl [simp, intro]: "same x x"
  using same_equivp by (rule equivp_reflp)

lemma same_sym: "same x y \<Longrightarrow> same y x"
  using same_equivp by (rule equivp_symp)

lemma same_trans: "same x y \<Longrightarrow> same y z \<Longrightarrow> same x z"
  using same_equivp by (rule equivp_transp)

lemma rest_not_same:
  assumes "ordered_by lt (x # xs)" and "y \<in> set (dropWhile (same x) xs)"
  shows "\<not> same x y"
proof
  assume xy: "same x y"
  obtain d ds where d: "dropWhile (same x) xs = d # ds"
    using assms(2) by (cases "dropWhile (same x) xs") auto
  then have nd: "\<not> same x d"
    using hd_dropWhile [of "same x" xs] by simp
  have "ordered_by lt (d # ds)"
    using assms(1) sorted_wrt_dropWhile [of _ xs "same x"] by (simp add: ordered_by_def flip: d)
  moreover have "d \<in> set xs" using d set_dropWhileD [of d "same x" xs] by simp
  ultimately have "\<not> lt d x" and "\<not> lt y d"
    using assms d irreflexive by (auto simp: ordered_by_def)
  with xy have "same x d" using convex by blast
  with nd show False ..
qed

lemma ordered_dropWhile: "ordered_by lt (x # xs) \<Longrightarrow> ordered_by lt (dropWhile P xs)"
  by (simp add: ordered_by_def sorted_wrt_dropWhile)

text \<open>Every run of a sorted array is the whole class of each of its members.\<close>

lemma run_is_class:
  "ordered_by lt xs \<Longrightarrow> r \<in> set (runs same xs) \<Longrightarrow> x \<in> set r \<Longrightarrow> r = filter (same x) xs"
proof (induction xs rule: length_induct)
  case (1 xs)
  show ?case
  proof (cases xs)
    case Nil
    with "1.prems" show ?thesis by simp
  next
    case (Cons a ys)
    let ?t = "takeWhile (same a) ys" and ?d = "dropWhile (same a) ys"
    have ord: "ordered_by lt (a # ys)" using "1.prems"(1) Cons by simp
    have ys: "ys = ?t @ ?d" by simp
    have a_t: "\<And>y. y \<in> set ?t \<Longrightarrow> same a y" by (auto dest: set_takeWhileD)
    have a_d: "\<And>y. y \<in> set ?d \<Longrightarrow> \<not> same a y" using rest_not_same [OF ord] by blast
    consider (first) "r = a # ?t" | (later) "r \<in> set (runs same ?d)"
      using "1.prems"(2) Cons by auto
    then show ?thesis
    proof cases
      case first
      then have ax: "same a x" using "1.prems"(3) a_t by auto
      have "same x = same a" using ax same_sym same_trans by blast
      then have "filter (same x) xs = filter (same a) (a # ys)" using Cons by simp
      also have "\<dots> = a # filter (same a) (?t @ ?d)" by simp
      also have "\<dots> = a # ?t"
        unfolding filter_append using a_t a_d by (simp add: filter_id_conv filter_empty_conv)
      finally show ?thesis using first by simp
    next
      case later
      have "length ?d < length xs" using Cons length_dropWhile_le [of "same a" ys] by simp
      then have IH: "r = filter (same x) ?d"
        using "1.IH" ordered_dropWhile [OF ord] later "1.prems"(3) by blast
      have "x \<in> set ?d" using later "1.prems"(3) concat_runs [of same ?d] by (metis UnI1 UN_I set_concat)
      then have nx: "\<not> same x y" if "same a y" for y
        using a_d same_sym same_trans that by blast
      have "filter (same x) xs = filter (same x) (a # ?t @ ?d)" using Cons by simp
      also have "\<dots> = filter (same x) (a # ?t) @ filter (same x) ?d"
        by (simp only: filter_append append_Cons [symmetric])
      also have "filter (same x) (a # ?t) = []"
        using nx a_t by (simp add: filter_empty_conv)
      finally show ?thesis using IH by simp
    qed
  qed
qed

lemma run_of_member:
  "ordered_by lt xs \<Longrightarrow> x \<in> set xs \<Longrightarrow> filter (same x) xs \<in> set (runs same xs)"
  using run_is_class [of xs _ x] concat_runs [of same xs]
  by (metis UN_E set_concat)

text \<open>Members of different runs are not equal.\<close>

lemma runs_separated:
  "ordered_by lt xs \<Longrightarrow> sorted_wrt (\<lambda>r s. \<forall>x \<in> set r. \<forall>y \<in> set s. \<not> same x y) (runs same xs)"
proof (induction xs rule: length_induct)
  case (1 xs)
  show ?case
  proof (cases xs)
    case (Cons a ys)
    let ?t = "takeWhile (same a) ys" and ?d = "dropWhile (same a) ys"
    have ord: "ordered_by lt (a # ys)" using "1.prems" Cons by simp
    have apart: "\<not> same x y" if "x \<in> set (a # ?t)" and "y \<in> set ?d" for x y
    proof
      assume "same x y"
      moreover have "same a x" using that(1) by (auto dest: set_takeWhileD)
      ultimately have "same a y" by (rule same_trans [rotated])
      with rest_not_same [OF ord that(2)] show False ..
    qed
    have sub: "set s \<subseteq> set ?d" if "s \<in> set (runs same ?d)" for s
      using that by (metis UN_upper concat_runs set_concat)
    have "\<forall>s \<in> set (runs same ?d). \<forall>x \<in> set (a # ?t). \<forall>y \<in> set s. \<not> same x y"
      using apart sub by blast
    moreover have "length ?d < length xs" using Cons length_dropWhile_le [of "same a" ys] by simp
    then have "sorted_wrt (\<lambda>r s. \<forall>x \<in> set r. \<forall>y \<in> set s. \<not> same x y) (runs same ?d)"
      using "1.IH" ordered_dropWhile [OF ord] by blast
    ultimately show ?thesis unfolding Cons runs.simps sorted_wrt.simps by (rule conjI)
  qed simp
qed

lemma dup_runs_apart: "ordered_by lt xs \<Longrightarrow> apart same (dup_runs same xs)"
  unfolding apart_def dup_runs_def by (rule sorted_wrt_filter) (rule runs_separated)

text \<open>The members of the runs of length two and more, counted in the multiset.\<close>

lemma length_dup_runs:
  assumes "ordered_by lt xs"
  shows "sum_list (map length (dup_runs same xs)) = size (filter_mset (\<lambda>x. 2 \<le> size (filter_mset (same x) (mset xs))) (mset xs))"
proof -
  let ?two = "\<lambda>x. 2 \<le> length (filter (same x) xs)"
  have "filter ?two r = (if 2 \<le> length r then r else [])" if "r \<in> set (runs same xs)" for r
    using run_is_class [OF assms that] by (auto simp: filter_id_conv filter_empty_conv)
  moreover have "sum_list (map length (map (filter ?two) rs)) = sum_list (map length (filter (\<lambda>r. 2 \<le> length r) rs))"
    if "\<And>r. r \<in> set rs \<Longrightarrow> filter ?two r = (if 2 \<le> length r then r else [])" for rs
    using that by (induction rs) auto
  ultimately have "sum_list (map length (map (filter ?two) (runs same xs))) = sum_list (map length (dup_runs same xs))"
    unfolding dup_runs_def by blast
  then have "sum_list (map length (dup_runs same xs)) = length (concat (map (filter ?two) (runs same xs)))"
    by (simp only: length_concat)
  also have "\<dots> = length (filter ?two xs)" by (simp only: filter_concat [symmetric] concat_runs)
  finally show ?thesis by (simp only: mset_filter [symmetric] size_mset)
qed

text \<open>So the runs of length two and more of a sorted array are the classes of its multiset.\<close>

lemma dup_runs_classes:
  assumes "ordered_by lt xs"
  shows "mset ` set (dup_runs same xs) = dup_classes same (mset xs)"
proof (intro equalityI subsetI)
  fix C assume "C \<in> mset ` set (dup_runs same xs)"
  then obtain r where r: "r \<in> set (runs same xs)" "2 \<le> length r" and C: "C = mset r"
    by (auto simp: dup_runs_def)
  then have "hd r \<in> set r" by (auto simp: runs_nonempty)
  then have eq: "r = filter (same (hd r)) xs" using run_is_class assms r by blast
  have mem: "hd r \<in> set xs" using r \<open>hd r \<in> set r\<close> concat_runs [of same xs] by (metis UN_I set_concat)
  have "C = filter_mset (same (hd r)) (mset xs)" using C eq by (metis mset_filter)
  then show "C \<in> dup_classes same (mset xs)"
    using r(2) C mem unfolding dup_classes_def
    by (intro CollectI exI [of _ "hd r"]) (metis set_mset_mset size_mset)
next
  fix C assume "C \<in> dup_classes same (mset xs)"
  then obtain x where x: "x \<in> set xs" and C: "C = mset (filter (same x) xs)" and two: "2 \<le> size C"
    by (auto simp: dup_classes_def)
  from two have "2 \<le> length (filter (same x) xs)" by (simp only: C size_mset)
  then have "filter (same x) xs \<in> set (dup_runs same xs)"
    using run_of_member [OF assms x] by (simp add: dup_runs_def)
  then show "C \<in> mset ` set (dup_runs same xs)" unfolding C by (rule imageI)
qed

lemma sorted_dup_runs_classes:
  "sort_contract srt \<Longrightarrow> mset ` set (dup_runs same (srt lt xs)) = dup_classes same (mset xs)"
  using dup_runs_classes [of "srt lt xs"] sort_contract_ordered sort_contract_mset comparator_axioms
  by metis

end

end
