(* ===== verification/Dup_Pool.thy ===== *)
theory Dup_Pool
  imports Dup_Types
begin

text \<open>
  The program's use of the pool allocator. Whether a request succeeds is up to the
  environment: \<open>grants k\<close> answers the \<open>k\<close>-th request. The rest of the record is
  bookkeeping of the calls the program makes: how many requests it has made, which blocks it
  holds (a block is named by the number of the request that was granted), and whether it has
  freed a block it does not hold or written past the capacity of a buffer.
\<close>

record pool =
  grants :: "nat \<Rightarrow> bool"
  requests :: nat
  live :: "nat multiset"
  fault :: bool

definition fresh_pool :: "(nat \<Rightarrow> bool) \<Rightarrow> pool" where
  "fresh_pool answers = \<lparr>grants = answers, requests = 0, live = {#}, fault = False\<rparr>"

definition granting_pool :: pool where
  "granting_pool = fresh_pool (\<lambda>_. True)"

lemma granting_pool_grants: "grants granting_pool = (\<lambda>_. True)"
  by (simp add: granting_pool_def fresh_pool_def)

definition pool_allocate :: "pool \<Rightarrow> nat option \<times> pool" where
  "pool_allocate m =
    (let k = requests m; m' = m\<lparr>requests := Suc k\<rparr> in
     if grants m k then (Some k, m'\<lparr>live := add_mset k (live m)\<rparr>) else (None, m'))"

definition pool_free :: "nat \<Rightarrow> pool \<Rightarrow> pool" where
  "pool_free b m =
    (if b \<in># live m then m\<lparr>live := live m - {#b#}\<rparr> else m\<lparr>fault := True\<rparr>)"

text \<open>A refused reallocation leaves the old block in place, as \<^verbatim>\<open>realloc\<close> does.\<close>

definition pool_reallocate :: "nat \<Rightarrow> pool \<Rightarrow> nat option \<times> pool" where
  "pool_reallocate b m =
    (case pool_allocate m of
       (None, m') \<Rightarrow> (None, m')
     | (Some b', m') \<Rightarrow> (Some b', pool_free b m'))"

definition free_if_set :: "nat option \<Rightarrow> pool \<Rightarrow> pool" where
  "free_if_set b m = (case b of None \<Rightarrow> m | Some b' \<Rightarrow> pool_free b' m)"

section \<open>Balance\<close>

text \<open>
  \<open>holds m bs m'\<close>: going from \<open>m\<close> to \<open>m'\<close> the program has made no invalid access and holds
  exactly the blocks \<open>bs\<close> beyond those it held before.
\<close>

definition holds :: "pool \<Rightarrow> nat multiset \<Rightarrow> pool \<Rightarrow> bool" where
  "holds m bs m' \<longleftrightarrow> grants m' = grants m \<and> (fault m' \<longrightarrow> fault m) \<and> live m' = live m + bs"

lemma holds_refl [intro, simp]: "holds m {#} m"
  by (simp add: holds_def)

lemma holds_trans: "holds m bs m' \<Longrightarrow> holds m' cs m'' \<Longrightarrow> holds m (bs + cs) m''"
  by (auto simp: holds_def ac_simps)

lemma pool_allocate_holds:
  "pool_allocate m = (Some b, m') \<Longrightarrow> holds m {#b#} m'"
  "pool_allocate m = (None, m') \<Longrightarrow> holds m {#} m'"
  by (auto simp: pool_allocate_def holds_def Let_def split: if_splits)

lemma pool_free_holds: "holds m (add_mset b bs) m' \<Longrightarrow> holds m bs (pool_free b m')"
  by (auto simp: pool_free_def holds_def)

lemma free_if_set_holds:
  "holds m (bs + (case b of None \<Rightarrow> {#} | Some b' \<Rightarrow> {#b'#})) m' \<Longrightarrow> holds m bs (free_if_set b m')"
  by (auto simp: free_if_set_def split: option.splits intro: pool_free_holds)

lemma holds_allocate:
  "holds m bs m' \<Longrightarrow> pool_allocate m' = (Some b, m'') \<Longrightarrow> holds m (add_mset b bs) m''"
  "holds m bs m' \<Longrightarrow> pool_allocate m' = (None, m'') \<Longrightarrow> holds m bs m''"
  by (auto simp: pool_allocate_def holds_def Let_def split: if_splits)

lemma holds_reallocate:
  "holds m (add_mset b bs) m' \<Longrightarrow> pool_reallocate b m' = (Some b', m'') \<Longrightarrow> holds m (add_mset b' bs) m''"
  "holds m (add_mset b bs) m' \<Longrightarrow> pool_reallocate b m' = (None, m'') \<Longrightarrow> holds m (add_mset b bs) m''"
  by (auto simp: pool_reallocate_def pool_allocate_def pool_free_def holds_def Let_def
      split: if_splits option.splits)

lemma pool_allocate_granted [pool_simps]:
  "grants m = (\<lambda>_. True) \<Longrightarrow> \<exists>b m'. pool_allocate m = (Some b, m') \<and> grants m' = grants m"
  by (simp add: pool_allocate_def Let_def)

lemma grants_pool_free [simp]: "grants (pool_free b m) = grants m"
  by (simp add: pool_free_def)

lemma pool_reallocate_granted [pool_simps]:
  "grants m = (\<lambda>_. True) \<Longrightarrow> \<exists>b' m'. pool_reallocate b m = (Some b', m') \<and> grants m' = grants m"
  by (simp add: pool_reallocate_def pool_allocate_def Let_def)

section \<open>The growing buffer of groups\<close>

text \<open>
  All three grouping passes collect their groups in a pool block that doubles when it is
  full. A store at an index at or past the capacity is a fault.
\<close>

record group_buffer =
  buffer_block :: nat
  buffer_capacity :: nat
  buffer_groups :: "group list"

definition store_group :: "group_buffer \<Rightarrow> group \<Rightarrow> pool \<Rightarrow> group_buffer \<times> pool" where
  "store_group buf g m =
    (buf\<lparr>buffer_groups := buffer_groups buf @ [g]\<rparr>,
     if length (buffer_groups buf) < buffer_capacity buf then m else m\<lparr>fault := True\<rparr>)"

definition push_group :: "group_buffer \<Rightarrow> group \<Rightarrow> pool \<Rightarrow> group_buffer option \<times> pool" where
  "push_group buf g m =
    (if length (buffer_groups buf) = buffer_capacity buf then
       (let new_capacity = buffer_capacity buf * 2 in
        case pool_reallocate (buffer_block buf) m of
          (None, m') \<Rightarrow> (None, pool_free (buffer_block buf) m')
        | (Some new_buffer, m') \<Rightarrow>
            map_prod Some id (store_group (buf\<lparr>buffer_block := new_buffer, buffer_capacity := new_capacity\<rparr>) g m'))
     else map_prod Some id (store_group buf g m))"

text \<open>A buffer is sound when its contents fit and it can grow.\<close>

definition buffer_ok :: "group_buffer \<Rightarrow> bool" where
  "buffer_ok buf \<longleftrightarrow> 0 < buffer_capacity buf \<and> length (buffer_groups buf) \<le> buffer_capacity buf"

lemma push_group_Some:
  assumes "push_group buf g m' = (Some buf', m'')" and "buffer_ok buf" and "holds m (add_mset (buffer_block buf) bs) m'"
  shows "buffer_groups buf' = buffer_groups buf @ [g]" and "buffer_ok buf'" and "holds m (add_mset (buffer_block buf') bs) m''"
  using assms
  by (auto simp: push_group_def store_group_def buffer_ok_def Let_def
      split: if_splits prod.splits option.splits dest: holds_reallocate)

lemma push_group_None:
  assumes "push_group buf g m' = (None, m'')" and "holds m (add_mset (buffer_block buf) bs) m'"
  shows "holds m bs m''"
  using assms
  by (auto simp: push_group_def store_group_def Let_def split: if_splits prod.splits option.splits
      dest: holds_reallocate intro: pool_free_holds)

lemma push_group_granted:
  assumes "grants m = (\<lambda>_. True)"
  shows "\<exists>buf' m'. push_group buf g m = (Some buf', m') \<and> grants m' = grants m"
  using pool_reallocate_granted [OF assms, of "buffer_block buf"]
  by (auto simp: push_group_def store_group_def Let_def)

lemma push_group_groups: "push_group buf g m = (Some buf', m') \<Longrightarrow> buffer_groups buf' = buffer_groups buf @ [g]"
  by (auto simp: push_group_def store_group_def Let_def split: if_splits prod.splits option.splits)

end
