(* ===== verification/Run_Scan.thy ===== *)
theory Run_Scan
  imports Dup_Order Dup_Pool
begin

text \<open>
  The linear scan the three grouping passes of \<^verbatim>\<open>src/grouping/\<close> share: from each cursor the
  inner loop advances over the entries equal to the one at the start of the run, runs of
  one entry are skipped, longer ones are appended to the growing buffer of groups. The
  passes differ in the equality they test, the sub-array they scan and where the size of the
  group comes from, which are the arguments here.
\<close>

section \<open>The inner loop\<close>

function advance_run :: "('e \<Rightarrow> 'e \<Rightarrow> bool) \<Rightarrow> 'e list \<Rightarrow> nat \<Rightarrow> nat \<Rightarrow> nat \<Rightarrow> nat \<Rightarrow> nat" where
  "advance_run same es base limit start cursor =
    (if cursor < limit \<and> same (es ! (base + start)) (es ! (base + cursor))
     then advance_run same es base limit start (Suc cursor)
     else cursor)"
  by pat_completeness auto
termination
  by (relation "measure (\<lambda>(same, es, base, limit, start, cursor). limit - cursor)") auto

declare advance_run.simps [simp del]

lemma advance_run_eq [run_simps]:
  assumes "base + limit \<le> length es" and "cursor \<le> limit"
  shows "advance_run same es base limit start cursor =
    cursor + length (takeWhile (same (es ! (base + start))) (segment es (base + cursor) (limit - cursor)))"
  using assms
proof (induction same es base limit start cursor rule: advance_run.induct)
  case (1 same es base limit start cursor)
  show ?case
  proof (cases "cursor < limit")
    case True
    then obtain k where k: "limit - cursor = Suc k" by (cases "limit - cursor") auto
    then have "segment es (base + cursor) (limit - cursor) = es ! (base + cursor) # segment es (base + Suc cursor) k"
      using segment_Suc [of "base + cursor" es k] "1.prems" True by simp
    moreover have "k = limit - Suc cursor" using k by simp
    ultimately show ?thesis
      using True "1.IH" "1.prems" by (subst advance_run.simps) auto
  next
    case False
    then show ?thesis using "1.prems" by (subst advance_run.simps) simp
  qed
qed

lemma advance_run_bounds:
  "cursor \<le> limit \<Longrightarrow> cursor \<le> advance_run same es base limit start cursor
    \<and> advance_run same es base limit start cursor \<le> limit"
proof (induction same es base limit start cursor rule: advance_run.induct)
  case (1 same es base limit start cursor)
  show ?case
  proof (cases "cursor < limit \<and> same (es ! (base + start)) (es ! (base + cursor))")
    case True
    with "1.IH" show ?thesis
      by (auto simp: advance_run.simps [of same es base limit start cursor])
  next
    case False
    then show ?thesis using "1.prems" by (auto simp: advance_run.simps [of same es base limit start cursor])
  qed
qed

section \<open>The outer loop\<close>

function scan_runs ::
  "('e \<Rightarrow> 'e \<Rightarrow> bool) \<Rightarrow> 'e list \<Rightarrow> nat \<Rightarrow> nat \<Rightarrow> (nat \<Rightarrow> u64) \<Rightarrow> nat \<Rightarrow> group_buffer \<Rightarrow> nat \<Rightarrow> pool
    \<Rightarrow> group_buffer option \<times> nat \<times> pool" where
  "scan_runs same es base limit size_at cursor buf candidates m =
    (if cursor < limit then
       (let sub_start = cursor;
            cursor' = advance_run same es base limit sub_start (Suc cursor);
            sub_length = cursor' - sub_start in
        if sub_length < 2 then scan_runs same es base limit size_at cursor' buf candidates m
        else
          (case push_group buf \<lparr>start_index = base + sub_start, entry_count = sub_length,
                                group_file_size = size_at (base + sub_start)\<rparr> m of
             (None, m') \<Rightarrow> (None, candidates, m')
           | (Some buf', m') \<Rightarrow>
               scan_runs same es base limit size_at cursor' buf' (candidates + sub_length) m'))
     else (Some buf, candidates, m))"
  by pat_completeness auto
termination
proof (relation "measure (\<lambda>(same, es, base, limit, size_at, cursor, buf, candidates, m). limit - cursor)", goal_cases)
  case (2 same es base limit size_at cursor buf candidates m x xa xb)
  then have "Suc cursor \<le> xa" by (metis Suc_leI advance_run_bounds)
  then show ?case using 2(1) by simp
next
  case (3 same es base limit size_at cursor buf candidates m x xa xb)
  then have "Suc cursor \<le> xa" by (metis Suc_leI advance_run_bounds)
  then show ?case using 3(1) by simp
qed simp

declare scan_runs.simps [simp del]

text \<open>The groups the scan appends, from the spans of the runs.\<close>

definition span_group :: "(nat \<Rightarrow> u64) \<Rightarrow> nat \<times> nat \<Rightarrow> group" where
  "span_group size_at s = \<lparr>start_index = fst s, entry_count = snd s, group_file_size = size_at (fst s)\<rparr>"

lemma span_span_group [simp]: "span (span_group size_at s) = s"
  by (simp add: span_def span_group_def)

definition dup_spans :: "('e \<Rightarrow> 'e \<Rightarrow> bool) \<Rightarrow> nat \<Rightarrow> 'e list \<Rightarrow> (nat \<times> nat) list" where
  "dup_spans same off xs = filter (\<lambda>(i, n). 2 \<le> n) (spans_of off (runs same xs))"

lemma dup_spans_Nil [simp]: "dup_spans same off [] = []"
  by (simp add: dup_spans_def)

lemma dup_spans_Cons:
  "dup_spans same off (x # xs) =
    (let n = Suc (length (takeWhile (same x) xs)) in
     (if n < 2 then [] else [(off, n)]) @ dup_spans same (off + n) (dropWhile (same x) xs))"
  by (simp add: dup_spans_def Let_def Suc_le_eq)

lemma laid_out_dup_spans: "laid_out off (off + length xs) (dup_spans same off xs)"
  unfolding dup_spans_def
  by (rule laid_out_filter) (metis concat_runs laid_out_spans_of)

lemma dup_spans_segments:
  assumes "start + n \<le> length es"
  shows "map (\<lambda>(i, k). segment es i k) (dup_spans same start (segment es start n)) = dup_runs same (segment es start n)"
proof -
  have "es = take start es @ concat (runs same (segment es start n)) @ drop (start + n) es"
    using split_segment [OF assms] by simp
  moreover have "length (take start es) = start" using assms by simp
  ultimately show ?thesis
    unfolding dup_spans_def dup_runs_def by (metis filter_spans_segments)
qed

text \<open>One turn of the outer loop, over the slice that is still to be scanned.\<close>

lemma scan_turn:
  fixes same :: "'e \<Rightarrow> 'e \<Rightarrow> bool" and es :: "'e list" and base limit cursor :: nat
  assumes "base + limit \<le> length es" and "cursor < limit"
  defines "nxt \<equiv> advance_run same es base limit cursor (Suc cursor)"
    and "x \<equiv> es ! (base + cursor)" and "xs \<equiv> segment es (base + Suc cursor) (limit - Suc cursor)"
  shows "segment es (base + cursor) (limit - cursor) = x # xs"
    and "nxt - cursor = Suc (length (takeWhile (same x) xs))"
    and "segment es (base + nxt) (limit - nxt) = dropWhile (same x) xs"
    and "cursor < nxt" and "nxt \<le> limit"
proof -
  let ?t = "takeWhile (same x) xs"
  show seg: "segment es (base + cursor) (limit - cursor) = x # xs"
    using assms segment_Suc [of "base + cursor" es "limit - Suc cursor"] by (simp add: Suc_diff_Suc)
  have nxt_eq: "nxt = Suc cursor + length ?t"
    unfolding nxt_def xs_def x_def using assms(1,2) by (simp add: advance_run_eq)
  then show "nxt - cursor = Suc (length ?t)" and "cursor < nxt" by simp_all
  show le: "nxt \<le> limit" unfolding nxt_def using advance_run_bounds assms(2) by (metis Suc_leI)
  define k where "k = length ?t"
  have nxt_k: "nxt = Suc cursor + k" unfolding k_def by (rule nxt_eq)
  have "dropWhile (same x) xs = drop k xs" unfolding k_def by (rule dropWhile_eq_drop)
  also have "\<dots> = segment es (base + nxt) (limit - nxt)"
    unfolding nxt_k xs_def segment_def by (simp add: drop_take add_ac)
  finally show "segment es (base + nxt) (limit - nxt) = dropWhile (same x) xs" by simp
qed

text \<open>A scan that returns has appended exactly the spans of the runs of two and more.\<close>

lemma scan_runs_Some:
  assumes "scan_runs same es base limit size_at cursor buf cand m = (Some buf', cand', m')"
    and "base + limit \<le> length es" and "cursor \<le> limit"
  defines "ss \<equiv> dup_spans same (base + cursor) (segment es (base + cursor) (limit - cursor))"
  shows "buffer_groups buf' = buffer_groups buf @ map (span_group size_at) ss"
    and "cand' = cand + sum_list (map snd ss)"
proof -
  have "buffer_groups buf' = buffer_groups buf @ map (span_group size_at) ss \<and> cand' = cand + sum_list (map snd ss)"
    using assms(1-3) unfolding ss_def
  proof (induction same es base limit size_at cursor buf cand m rule: scan_runs.induct)
    case (1 same es base limit size_at cursor buf cand m)
    show ?case
    proof (cases "cursor < limit")
      case False
      then show ?thesis using "1.prems" by (simp add: scan_runs.simps)
    next
      case True
      note slice = scan_turn(1) [OF "1.prems"(2) True]
      note turn = scan_turn(2-5) [OF "1.prems"(2) True, of same]
      let ?next = "advance_run same es base limit cursor (Suc cursor)"
      have eq: "dup_spans same (base + cursor) (segment es (base + cursor) (limit - cursor)) =
          (if ?next - cursor < 2 then [] else [(base + cursor, ?next - cursor)]) @
          dup_spans same (base + ?next) (segment es (base + ?next) (limit - ?next))"
        using turn(3) unfolding slice turn(2) dup_spans_Cons Let_def turn(1) [symmetric] by simp
      show ?thesis
      proof (cases "?next - cursor < 2")
        case short: True
        then have "scan_runs same es base limit size_at ?next buf cand m = (Some buf', cand', m')"
          using "1.prems"(1) True by (simp add: scan_runs.simps [of _ _ _ _ _ cursor] Let_def)
        from "1.IH"(1) [OF True refl refl refl short this "1.prems"(2) turn(4)]
        show ?thesis using eq short by simp
      next
        case long: False
        let ?g = "span_group size_at (base + cursor, ?next - cursor)"
        obtain buf1 m1 where push: "push_group buf ?g m = (Some buf1, m1)"
          and rec: "scan_runs same es base limit size_at ?next buf1 (cand + (?next - cursor)) m1 = (Some buf', cand', m')"
          using "1.prems"(1) True long
          by (auto simp: scan_runs.simps [of _ _ _ _ _ cursor] Let_def span_group_def split: prod.splits option.splits)
        from "1.IH"(2) [OF True refl refl refl long _ refl rec "1.prems"(2) turn(4)] push
        show ?thesis using eq long push_group_groups [OF push] by (simp add: span_group_def)
      qed
    qed
  qed
  then show "buffer_groups buf' = buffer_groups buf @ map (span_group size_at) ss"
    and "cand' = cand + sum_list (map snd ss)" by simp_all
qed

text \<open>Whether or not it returns, the scan neither leaks nor overruns its buffer.\<close>

lemma scan_runs_holds:
  assumes "scan_runs same es base limit size_at cursor buf cand m' = (res, cand', m'')"
    and "buffer_ok buf" and "holds m (add_mset (buffer_block buf) bs) m'"
  shows "case res of None \<Rightarrow> holds m bs m''
    | Some buf' \<Rightarrow> buffer_ok buf' \<and> holds m (add_mset (buffer_block buf') bs) m''"
  using assms
proof (induction same es base limit size_at cursor buf cand m' rule: scan_runs.induct)
  case (1 same es base limit size_at cursor buf cand m')
  let ?next = "advance_run same es base limit cursor (Suc cursor)"
  let ?g = "\<lparr>start_index = base + cursor, entry_count = ?next - cursor, group_file_size = size_at (base + cursor)\<rparr>"
  consider (stop) "\<not> cursor < limit" | (short) "cursor < limit" "?next - cursor < 2"
    | (long) "cursor < limit" "\<not> ?next - cursor < 2" by blast
  then show ?case
  proof cases
    case stop
    then show ?thesis using "1.prems" by (auto simp: scan_runs.simps)
  next
    case short
    then have "scan_runs same es base limit size_at ?next buf cand m' = (res, cand', m'')"
      using "1.prems"(1) by (simp add: scan_runs.simps [of _ _ _ _ _ cursor] Let_def)
    then show ?thesis using "1.IH"(1) [OF short(1) refl refl refl short(2)] "1.prems"(2,3) by blast
  next
    case long
    obtain r m1 where push: "push_group buf ?g m' = (r, m1)" by (cases "push_group buf ?g m'")
    show ?thesis
    proof (cases r)
      case None
      then have "res = None" and "m'' = m1"
        using "1.prems"(1) long push by (auto simp: scan_runs.simps [of _ _ _ _ _ cursor] Let_def)
      then show ?thesis using push_group_None [OF push [unfolded None] "1.prems"(3)] by simp
    next
      case (Some buf1)
      then have rec: "scan_runs same es base limit size_at ?next buf1 (cand + (?next - cursor)) m1 = (res, cand', m'')"
        using "1.prems"(1) long push by (simp add: scan_runs.simps [of _ _ _ _ _ cursor] Let_def)
      note keep = push_group_Some [OF push [unfolded Some] "1.prems"(2,3)]
      show ?thesis
        using "1.IH"(2) [OF long(1) refl refl refl long(2) _ refl rec keep(2,3)] push Some by simp
    qed
  qed
qed

text \<open>With a pool that grants every request the scan returns.\<close>

lemma scan_runs_granted:
  "grants m = (\<lambda>_. True) \<Longrightarrow>
    \<exists>buf' cand' m'. scan_runs same es base limit size_at cursor buf cand m = (Some buf', cand', m') \<and> grants m' = grants m"
proof (induction same es base limit size_at cursor buf cand m rule: scan_runs.induct)
  case (1 same es base limit size_at cursor buf cand m)
  let ?next = "advance_run same es base limit cursor (Suc cursor)"
  let ?g = "\<lparr>start_index = base + cursor, entry_count = ?next - cursor, group_file_size = size_at (base + cursor)\<rparr>"
  obtain buf1 m1 where push: "push_group buf ?g m = (Some buf1, m1)" and g: "grants m1 = grants m"
    using push_group_granted [OF "1.prems"] by blast
  show ?case
    using "1.IH"(1) [OF _ refl refl refl] "1.IH"(2) [OF _ refl refl refl _ push [symmetric] refl] "1.prems" g push
    by (subst (1) scan_runs.simps) (auto simp: Let_def)
qed

end
