(* ===== verification/Grouping_Size.thy ===== *)
theory Grouping_Size
  imports Run_Scan
begin

text \<open>
  \<^verbatim>\<open>src/grouping/bc_duplicate_grouping_by_size.c\<close>: the array of entries is sorted by size
  (largest first), device and inode, hardlinks are collapsed in place unless they are to be
  reported, and the runs of equal size with two entries or more become groups.
\<close>

section \<open>Definitions\<close>

definition size_dev_ino_less_than :: "file_entry \<Rightarrow> file_entry \<Rightarrow> bool" where
  "size_dev_ino_less_than left right =
    (if file_size left \<noteq> file_size right then file_size left > file_size right
     else if device_id left \<noteq> device_id right then device_id left < device_id right
     else inode_number left < inode_number right)"

definition same_size :: "file_entry \<Rightarrow> file_entry \<Rightarrow> bool" where
  "same_size x y \<longleftrightarrow> file_size x = file_size y"

definition same_inode :: "file_entry \<Rightarrow> file_entry \<Rightarrow> bool" where
  "same_inode x y \<longleftrightarrow> device_id x = device_id y \<and> inode_number x = inode_number y"

function collapse_loop :: "file_entry list \<Rightarrow> nat \<Rightarrow> nat \<Rightarrow> nat \<Rightarrow> nat \<Rightarrow> file_entry list \<times> nat" where
  "collapse_loop entries write_index read_index stop collapsed =
    (if read_index < stop then
       if same_inode (entries ! (write_index - 1)) (entries ! read_index) then
         collapse_loop entries write_index (Suc read_index) stop (Suc collapsed)
       else
         (let entries' = (if write_index \<noteq> read_index then entries[write_index := entries ! read_index] else entries) in
          collapse_loop entries' (Suc write_index) (Suc read_index) stop collapsed)
     else (entries, collapsed))"
  by pat_completeness auto
termination
  by (relation "measure (\<lambda>(entries, w, r, stop, collapsed). stop - r)") auto

definition collapse_hardlinks_in_run :: "file_entry list \<Rightarrow> nat \<Rightarrow> nat \<Rightarrow> file_entry list \<times> nat" where
  "collapse_hardlinks_in_run entries run_start_index run_length =
    (if run_length \<le> 1 then (entries, 0)
     else collapse_loop entries (run_start_index + 1) (run_start_index + 1) (run_start_index + run_length) 0)"

text \<open>
  The compaction loop: each run of equal size is moved down over the gap that earlier
  collapses left, and collapsed there. The move reads the whole run before it writes, since
  its two ranges may overlap.
\<close>

definition run_length_at :: "file_entry list \<Rightarrow> nat \<Rightarrow> nat \<Rightarrow> nat" where
  "run_length_at entries run_start_index entry_count' =
    advance_run same_size entries run_start_index (entry_count' - run_start_index) 0 1"

function compact_loop ::
  "file_entry list \<Rightarrow> nat \<Rightarrow> nat \<Rightarrow> nat \<Rightarrow> nat \<Rightarrow> file_entry list \<times> nat \<times> nat" where
  "compact_loop entries write_index run_start_index entry_count' hardlinks =
    (if run_start_index < entry_count' then
       (let run_length = run_length_at entries run_start_index entry_count';
            moved = (if write_index \<noteq> run_start_index
                     then put_segment entries write_index (segment entries run_start_index run_length)
                     else entries);
            (entries', collapsed) = collapse_hardlinks_in_run moved write_index run_length in
        compact_loop entries' (write_index + (run_length - collapsed)) (run_start_index + run_length)
          entry_count' (hardlinks + collapsed))
     else (entries, write_index, hardlinks))"
  by pat_completeness auto
termination
proof (relation "measure (\<lambda>(entries, w, s, n, h). n - s)", goal_cases)
  case (2 entries w s n h)
  then have "1 \<le> run_length_at entries s n"
    using advance_run_bounds [of 1 "n - s" same_size entries s 0] by (simp add: run_length_at_def)
  with 2 show ?case by simp
qed simp

declare collapse_loop.simps [simp del] compact_loop.simps [simp del]

record grouping_out =
  out_entries :: "file_entry list"
  out_groups :: "group list"
  out_block :: "nat option"

record counted_out = grouping_out +
  out_candidate_count :: nat

record size_out = counted_out +
  out_hardlinks_collapsed :: nat

definition grouping_by_size ::
  "file_entry sorter \<Rightarrow> pool \<Rightarrow> file_entry list \<Rightarrow> bool \<Rightarrow> size_out option \<times> pool" where
  "grouping_by_size srt m entries match_links =
    (if entries = [] then
       (Some \<lparr>out_entries = [], out_groups = [], out_block = None, out_candidate_count = 0,
              out_hardlinks_collapsed = 0\<rparr>, m)
     else
       (let ordered = srt size_dev_ino_less_than entries;
            (entries', entry_count', hardlinks) =
              (if \<not> match_links then compact_loop ordered 0 0 (length entries) 0
               else (ordered, length entries, 0)) in
        case pool_allocate m of
          (None, m1) \<Rightarrow> (None, m1)
        | (Some b, m1) \<Rightarrow>
            (case scan_runs same_size entries' 0 entry_count' (\<lambda>i. file_size (entries' ! i)) 0
                    \<lparr>buffer_block = b, buffer_capacity = 16, buffer_groups = []\<rparr> 0 m1 of
               (None, _, m2) \<Rightarrow> (None, m2)
             | (Some buf, candidates, m2) \<Rightarrow>
                 (Some \<lparr>out_entries = entries', out_groups = buffer_groups buf,
                        out_block = Some (buffer_block buf), out_candidate_count = candidates,
                        out_hardlinks_collapsed = hardlinks\<rparr>, m2))))"

section \<open>The order and the equalities of the pass\<close>

interpretation size_order: comparator size_dev_ino_less_than
  by unfold_locales (auto simp: size_dev_ino_less_than_def split: if_splits)

definition same_identity :: "file_entry \<Rightarrow> file_entry \<Rightarrow> bool" where
  "same_identity x y \<longleftrightarrow> same_size x y \<and> same_inode x y"

interpretation size_runs: grouping_order size_dev_ino_less_than same_size
  by unfold_locales
    (auto simp: size_dev_ino_less_than_def same_size_def intro!: equivpI reflpI sympI transpI split: if_splits)

interpretation identity_runs: grouping_order size_dev_ino_less_than same_identity
  by unfold_locales
    (auto simp: size_dev_ino_less_than_def same_size_def same_inode_def same_identity_def
      intro!: equivpI reflpI sympI transpI split: if_splits)

section \<open>Collapsing hardlinks\<close>

text \<open>The first entry of every run of one inode is kept.\<close>

definition squeeze :: "('a \<Rightarrow> 'a \<Rightarrow> bool) \<Rightarrow> 'a list \<Rightarrow> 'a list" where
  "squeeze same xs = map hd (runs same xs)"

lemma squeeze_simps [simp]:
  "squeeze same [] = []"
  "squeeze same (x # xs) = x # squeeze same (dropWhile (same x) xs)"
  by (simp_all add: squeeze_def)

lemma length_squeeze: "length (squeeze same xs) \<le> length xs"
proof (induction same xs rule: runs.induct)
  case (2 same x xs)
  then show ?case using length_dropWhile_le [of "same x" xs] by simp
qed simp

lemma squeeze_subset: "mset (squeeze same xs) \<subseteq># mset xs"
proof (induction same xs rule: runs.induct)
  case (2 same x xs)
  have "mset (dropWhile (same x) xs) \<subseteq># mset xs"
    by (metis takeWhile_dropWhile_id mset_append mset_subset_eq_add_right)
  with 2 show ?case by (auto intro: subset_mset.order_trans)
qed simp

lemma collapse_loop_spec:
  assumes "collapse_loop es w r stop c = (es', c')" and "0 < w" and "w \<le> r" and "r \<le> stop" and "stop \<le> length es"
  defines "kept \<equiv> squeeze same_inode (dropWhile (same_inode (es ! (w - 1))) (segment es r (stop - r)))"
  shows "length es' = length es \<and> take (w + length kept) es' = take w es @ kept \<and>
    drop stop es' = drop stop es \<and> c' + length kept = c + (stop - r)"
  using assms(1-5) unfolding kept_def
proof (induction es w r stop c rule: collapse_loop.induct)
  case (1 es w r stop c)
  show ?case
  proof (cases "r < stop")
    case False
    then have "es' = es" and "c' = c"
      using "1.prems"(1) by (simp_all add: collapse_loop.simps [of es w r])
    then show ?thesis using False "1.prems" by simp
  next
    case True
    let ?last = "es ! (w - 1)" and ?x = "es ! r"
    have seg: "segment es r (stop - r) = ?x # segment es (Suc r) (stop - Suc r)"
      using segment_Suc [of r es "stop - Suc r"] True "1.prems"(5) by (simp add: Suc_diff_Suc)
    show ?thesis
    proof (cases "same_inode ?last ?x")
      case same: True
      have "collapse_loop es w (Suc r) stop (Suc c) = (es', c')"
        using "1.prems"(1) True same by (simp add: collapse_loop.simps [of es w r])
      from "1.IH"(1) [OF True same this] "1.prems" True same seg show ?thesis by simp
    next
      case new: False
      let ?es = "if w \<noteq> r then es[w := ?x] else es"
      have rec: "collapse_loop ?es (Suc w) (Suc r) stop c = (es', c')"
        using "1.prems"(1) True new by (simp add: collapse_loop.simps [of es w r] Let_def)
      have len: "length ?es = length es" by simp
      have rest: "segment ?es (Suc r) (stop - Suc r) = segment es (Suc r) (stop - Suc r)"
        using "1.prems"(3,4,5) True by (intro segment_cong) auto
      have at: "?es ! w = ?x" using "1.prems"(3,5) True by simp
      have pre: "take (Suc w) ?es = take w es @ [?x]"
        using "1.prems"(3,5) True by (auto simp: take_Suc_conv_app_nth)
      have post: "drop stop ?es = drop stop es" using "1.prems"(3) True by simp
      from "1.IH"(2) [OF True new refl rec] "1.prems" True new
      show ?thesis by (simp add: rest at pre post len seg Suc_diff_Suc)
    qed
  qed
qed

lemma collapse_hardlinks_in_run_spec:
  assumes "collapse_hardlinks_in_run es s n = (es', c)" and "s + n \<le> length es"
  defines "kept \<equiv> squeeze same_inode (segment es s n)"
  shows "length es' = length es" and "take (s + length kept) es' = take s es @ kept"
    and "drop (s + n) es' = drop (s + n) es" and "n - c = length kept" and "c + length kept = n"
proof -
  have "length es' = length es \<and> take (s + length kept) es' = take s es @ kept \<and>
    drop (s + n) es' = drop (s + n) es \<and> c + length kept = n"
  proof (cases "n \<le> 1")
    case True
    then have eq: "es' = es" "c = 0" using assms(1) by (auto simp: collapse_hardlinks_in_run_def)
    show ?thesis
    proof (cases n)
      case 0
      then show ?thesis using eq assms(2) by (simp add: kept_def)
    next
      case (Suc k)
      then have "n = 1" using True by simp
      then show ?thesis
        using eq assms(2) segment_Suc [of s es 0] by (simp add: kept_def take_Suc_conv_app_nth)
    qed
  next
    case False
    then have run: "collapse_loop es (s + 1) (s + 1) (s + n) 0 = (es', c)"
      using assms(1) by (simp add: collapse_hardlinks_in_run_def)
    have seg: "segment es s n = es ! s # segment es (Suc s) (n - 1)"
      using segment_Suc [of s es "n - 1"] False assms(2) by simp
    from collapse_loop_spec [OF run] False assms(2) show ?thesis
      by (simp add: kept_def seg take_Suc_conv_app_nth)
  qed
  then show "length es' = length es" and "take (s + length kept) es' = take s es @ kept"
    and "drop (s + n) es' = drop (s + n) es" and "n - c = length kept" and "c + length kept = n"
    by auto
qed


section \<open>Compacting the array\<close>

definition squeeze_runs :: "file_entry list \<Rightarrow> file_entry list" where
  "squeeze_runs xs = concat (map (squeeze same_inode) (runs same_size xs))"

lemma squeeze_runs_Nil [simp]: "squeeze_runs [] = []"
  by (simp add: squeeze_runs_def)

lemma squeeze_runs_Cons:
  "squeeze_runs (x # xs) = squeeze same_inode (x # takeWhile (same_size x) xs) @ squeeze_runs (dropWhile (same_size x) xs)"
  by (simp add: squeeze_runs_def)

lemma run_length_at_spec:
  assumes "s < length es"
  shows "segment es s (run_length_at es s (length es)) = es ! s # takeWhile (same_size (es ! s)) (drop (Suc s) es)"
    and "drop (s + run_length_at es s (length es)) es = dropWhile (same_size (es ! s)) (drop (Suc s) es)"
    and "0 < run_length_at es s (length es)" and "s + run_length_at es s (length es) \<le> length es"
proof -
  let ?n = "length es - s" and ?r = "run_length_at es s (length es)"
  have b: "s + ?n \<le> length es" and c: "0 < ?n" using assms by simp_all
  note turn = scan_turn(2-5) [OF b c, of same_size]
  have eq: "?r = advance_run same_size es s ?n 0 (Suc 0)" by (simp add: run_length_at_def)
  have xs: "segment es (Suc s) (length es - Suc s) = drop (Suc s) es" using assms by (simp add: segment_def)
  from turn(1,3) show pos: "0 < ?r" unfolding eq by simp
  from turn(4) assms show le: "s + ?r \<le> length es" unfolding eq by simp
  have len: "?r = Suc (length (takeWhile (same_size (es ! s)) (drop (Suc s) es)))"
    using turn(1) unfolding eq by (simp add: xs)
  show "drop (s + ?r) es = dropWhile (same_size (es ! s)) (drop (Suc s) es)"
    unfolding dropWhile_eq_drop len by (simp add: add.commute)
  have "segment es s ?r = es ! s # take (length (takeWhile (same_size (es ! s)) (drop (Suc s) es))) (drop (Suc s) es)"
    unfolding len using segment_Suc [OF assms] by (simp add: segment_def)
  then show "segment es s ?r = es ! s # takeWhile (same_size (es ! s)) (drop (Suc s) es)"
    by (simp add: takeWhile_eq_take [symmetric])
qed

lemma take_segment_eq: "i \<le> length xs \<Longrightarrow> take (i + n) xs = take i xs @ segment xs i n"
  by (simp add: segment_def take_add)

lemma compact_loop_spec:
  assumes "compact_loop es w s (length es) h = (es', w', h')" and "w \<le> s" and "s \<le> length es"
  defines "kept \<equiv> squeeze_runs (drop s es)"
  shows "length es' = length es \<and> w' = w + length kept \<and> take w' es' = take w es @ kept
    \<and> h' + length kept = h + (length es - s)"
proof -
  have "n = length es \<Longrightarrow> ?thesis" if "compact_loop es w s n h = (es', w', h')" for n
    using that assms(2,3) unfolding kept_def
  proof (induction es w s n h rule: compact_loop.induct)
    case (1 es w s n h)
    show ?case
    proof (cases "s < n")
      case False
      then have "es' = es \<and> w' = w \<and> h' = h"
        using "1.prems"(2) by (simp add: compact_loop.simps [of es w s])
      moreover have "s = length es" using False "1.prems"(1,4) by simp
      ultimately show ?thesis by simp
    next
      case True
      let ?r = "run_length_at es s n"
      let ?m = "if w \<noteq> s then put_segment es w (segment es s ?r) else es"
      obtain es1 c where col: "collapse_hardlinks_in_run ?m w ?r = (es1, c)"
        by (cases "collapse_hardlinks_in_run ?m w ?r")
      have rec: "compact_loop es1 (w + (?r - c)) (s + ?r) n (h + c) = (es', w', h')"
        using "1.prems"(2) True col by (simp add: compact_loop.simps [of es w s] Let_def)
      note run = run_length_at_spec [OF True [unfolded "1.prems"(1)], folded "1.prems"(1)]
      have len_seg: "length (segment es s ?r) = ?r" using run(4) "1.prems"(1) by simp
      have len: "length ?m = length es" using run(4) len_seg "1.prems"(1,3) by simp
      have seg: "segment ?m w ?r = segment es s ?r"
        using segment_put_same [of w "segment es s ?r" es] len_seg run(4) "1.prems"(1,3) by simp
      have pre: "take w ?m = take w es"
        using "1.prems"(3,4) by (simp add: put_segment_def)
      have post: "drop (w + ?r) ?m = drop (w + ?r) es"
        using len_seg by (simp add: put_segment_def min_def)
      have fits: "w + ?r \<le> length ?m" using len run(4) "1.prems"(1,3) by simp
      note kept = collapse_hardlinks_in_run_spec [OF col fits]
      let ?k = "squeeze same_inode (segment es s ?r)"
      have rest: "drop (s + ?r) es1 = drop (s + ?r) es"
      proof -
        have "drop (s + ?r) es1 = drop (s - w) (drop (w + ?r) es1)" using "1.prems"(3) by simp
        also have "\<dots> = drop (s + ?r) es" using kept(3) post "1.prems"(3) by simp
        finally show ?thesis .
      qed
      have le: "w + (?r - c) \<le> s + ?r" using "1.prems"(3) by simp
      have len1: "length es1 = length es" using kept(1) len by simp
      have "length es' = length es1 \<and> w' = w + (?r - c) + length (squeeze_runs (drop (s + ?r) es1))
          \<and> take w' es' = take (w + (?r - c)) es1 @ squeeze_runs (drop (s + ?r) es1)
          \<and> h' + length (squeeze_runs (drop (s + ?r) es1)) = h + c + (length es1 - (s + ?r))"
        using "1.IH" [OF True refl refl col [symmetric] refl _ rec le] len1 run(4) "1.prems"(1) by auto
      moreover have "squeeze_runs (drop s es) = ?k @ squeeze_runs (drop (s + ?r) es)"
        using True "1.prems"(1) run(1,2) squeeze_runs_Cons [of "es ! s" "drop (Suc s) es"]
        by (simp add: Cons_nth_drop_Suc)
      moreover have "take (w + (?r - c)) es1 = take w es @ ?k"
        using kept(2,4) seg pre by simp
      ultimately show ?thesis
        using kept(4,5) seg rest len1 run(4) "1.prems"(1) by auto
    qed
  qed
  with assms(1) show ?thesis by blast
qed


text \<open>
  Collapsing inode runs inside size runs keeps the first entry of every run of equal size,
  device and inode.
\<close>

lemma squeeze_runs_eq: "squeeze_runs xs = squeeze same_identity xs"
proof -
  have eq: "runs same_inode r = runs same_identity r" if "r \<in> set (runs same_size xs)" for r
  proof (rule runs_cong)
    fix x y assume "x \<in> set r" and "y \<in> set r"
    then have "same_size (hd r) x" and "same_size (hd r) y"
      using runs_same_head [OF that] by (cases r; auto simp: same_size_def)+
    then show "same_inode x y = same_identity x y" by (simp add: same_identity_def same_size_def)
  qed
  have "runs same_identity xs = concat (map (runs same_identity) (runs same_size xs))"
    by (rule runs_refine) (simp_all add: size_runs.same_equivp same_identity_def)
  also have "\<dots> = concat (map (runs same_inode) (runs same_size xs))"
    using eq by (metis (no_types, lifting) map_eq_conv)
  finally show ?thesis by (simp add: squeeze_runs_def squeeze_def [abs_def] map_concat comp_def)
qed

lemma set_squeeze: "set (squeeze same xs) \<subseteq> set xs"
  using squeeze_subset by (metis set_mset_mono set_mset_mset)

lemma sorted_wrt_squeeze: "sorted_wrt P xs \<Longrightarrow> sorted_wrt P (squeeze same xs)"
proof (induction same xs rule: runs.induct)
  case (2 same x xs)
  have "set (squeeze same (dropWhile (same x) xs)) \<subseteq> set xs"
    using set_squeeze [of same "dropWhile (same x) xs"] by (auto dest: set_dropWhileD)
  then show ?case using 2 by auto
qed simp

context grouping_order
begin

lemma squeeze_separated: "ordered_by lt xs \<Longrightarrow> sorted_wrt (\<lambda>x y. \<not> same x y) (squeeze same xs)"
  unfolding squeeze_def sorted_wrt_map
  by (rule sorted_wrt_mono_rel [OF _ runs_separated]) (blast dest: runs_nonempty intro: hd_in_set)+

lemma squeeze_covers:
  assumes "x \<in> set xs"
  shows "\<exists>y \<in> set (squeeze same xs). same y x"
proof -
  obtain r where r: "r \<in> set (runs same xs)" and x: "x \<in> set r"
    using assms concat_runs [of same xs] by (metis UN_E set_concat)
  then have "same (hd r) x" using runs_same_head [OF r, of x] by (metis list.exhaust_sel list.sel(1) runs_nonempty set_ConsD same_refl)
  then show ?thesis using r by (auto simp: squeeze_def)
qed

end

section \<open>What the pass computes\<close>

definition kept_entries :: "file_entry sorter \<Rightarrow> file_entry list \<Rightarrow> bool \<Rightarrow> file_entry list" where
  "kept_entries srt entries match_links =
    (let ordered = srt size_dev_ino_less_than entries in
     if match_links then ordered else squeeze same_identity ordered)"

lemma kept_entries_ordered:
  "sort_contract srt \<Longrightarrow> ordered_by size_dev_ino_less_than (kept_entries srt es mh)"
  using sort_contract_ordered [OF _ size_order.comparator_axioms, of srt es]
  by (simp add: kept_entries_def Let_def ordered_by_def sorted_wrt_squeeze)

text \<open>The array after the first half of the pass: its first entries are those kept.\<close>

lemma compacted:
  assumes "sort_contract srt"
    and "(if \<not> mh then compact_loop (srt size_dev_ino_less_than es) 0 0 (length es) 0
          else (srt size_dev_ino_less_than es, length es, 0)) = (es', n, h)"
  shows "segment es' 0 n = kept_entries srt es mh" and "n = length (kept_entries srt es mh)"
    and "n \<le> length es'" and "length es' = length es" and "h = length es - n" and "n \<le> length es"
proof -
  let ?s = "srt size_dev_ino_less_than es" and ?k = "kept_entries srt es mh"
  have len: "length ?s = length es"
    using sort_contract_length [OF assms(1) size_order.comparator_axioms] .
  have "segment es' 0 n = ?k \<and> n = length ?k \<and> length es' = length es \<and> h + n = length es"
  proof (cases mh)
    case True
    then show ?thesis using assms(2) len by (auto simp: kept_entries_def segment_def)
  next
    case False
    then have run: "compact_loop ?s 0 0 (length ?s) 0 = (es', n, h)" using assms(2) len by simp
    from compact_loop_spec [OF run] show ?thesis
      using False len by (auto simp: kept_entries_def Let_def squeeze_runs_eq segment_def)
  qed
  then show "segment es' 0 n = ?k" and "n = length ?k" and "n \<le> length es'" and "length es' = length es"
    and "h = length es - n" and "n \<le> length es" by auto
qed

lemma grouping_by_size_spec:
  assumes "sort_contract srt" and "grouping_by_size srt m es mh = (Some r, m')"
  defines "kept \<equiv> kept_entries srt es mh"
  shows "segment (out_entries r) 0 (length kept) = kept"
    and "length (out_entries r) = length es"
    and "out_groups r = map (span_group (\<lambda>i. file_size (out_entries r ! i))) (dup_spans same_size 0 kept)"
    and "out_candidate_count r = sum_list (map entry_count (out_groups r))"
    and "out_hardlinks_collapsed r = length es - length kept" and "length kept \<le> length es"
proof -
  have "segment (out_entries r) 0 (length kept) = kept \<and> length (out_entries r) = length es
    \<and> out_groups r = map (span_group (\<lambda>i. file_size (out_entries r ! i))) (dup_spans same_size 0 kept)
    \<and> out_candidate_count r = sum_list (map entry_count (out_groups r))
    \<and> out_hardlinks_collapsed r = length es - length kept \<and> length kept \<le> length es"
  proof (cases "es = []")
    case True
    then have "kept = []"
      using sort_contract_length [OF assms(1) size_order.comparator_axioms, of es]
      by (auto simp: kept_def kept_entries_def Let_def)
    then show ?thesis using True assms(2) by (auto simp: grouping_by_size_def)
  next
    case False
    obtain es' n h where com: "(if \<not> mh then compact_loop (srt size_dev_ino_less_than es) 0 0 (length es) 0
        else (srt size_dev_ino_less_than es, length es, 0)) = (es', n, h)" by (metis prod_cases3)
    obtain b m1 buf where scan: "scan_runs same_size es' 0 n (\<lambda>i. file_size (es' ! i)) 0
          \<lparr>buffer_block = b, buffer_capacity = 16, buffer_groups = []\<rparr> 0 m1 = (Some buf, out_candidate_count r, m')"
      and r: "out_entries r = es'" "out_groups r = buffer_groups buf" "out_hardlinks_collapsed r = h"
      using assms(2) False com
      by (auto simp: grouping_by_size_def Let_def split: option.splits prod.splits)
    note k = compacted [OF assms(1) com, folded kept_def]
    show ?thesis
      using scan_runs_Some [OF scan] k r by (auto simp: span_group_def comp_def)
  qed
  then show "segment (out_entries r) 0 (length kept) = kept"
    and "length (out_entries r) = length es"
    and "out_groups r = map (span_group (\<lambda>i. file_size (out_entries r ! i))) (dup_spans same_size 0 kept)"
    and "out_candidate_count r = sum_list (map entry_count (out_groups r))"
    and "out_hardlinks_collapsed r = length es - length kept" and "length kept \<le> length es" by auto
qed


lemma members_span_group: "members es (span_group f s) = (case s of (i, n) \<Rightarrow> segment es i n)"
  by (simp add: members_def span_group_def split: prod.splits)

lemma grouping_by_size_members:
  assumes "sort_contract srt" and "grouping_by_size srt m es mh = (Some r, m')"
  shows "map (members (out_entries r)) (out_groups r) = dup_runs same_size (kept_entries srt es mh)"
proof -
  let ?k = "kept_entries srt es mh"
  note spec = grouping_by_size_spec [OF assms]
  have "0 + length ?k \<le> length (out_entries r)" using spec(2,6) by simp
  from dup_spans_segments [OF this, of same_size] show ?thesis
    unfolding spec(1) spec(3) by (simp add: comp_def members_span_group [abs_def])
qed

lemma grouping_by_size_laid_out:
  assumes "sort_contract srt" and "grouping_by_size srt m es mh = (Some r, m')"
  shows "groups_laid_out (length (out_entries r)) (out_groups r)"
proof -
  note spec = grouping_by_size_spec [OF assms]
  show ?thesis
    unfolding groups_laid_out_def spec(2) spec(3) map_map comp_def span_span_group list.map_ident
    by (rule laid_out_weaken [OF laid_out_dup_spans]) (use spec(6) in simp_all)
qed

lemma dup_runs_same_head:
  assumes "r \<in> set (dup_runs same xs)" and "x \<in> set r" and "same (hd r) (hd r)"
  shows "same (hd r) x"
proof -
  have "r \<in> set (runs same xs)" using assms(1) by (simp add: dup_runs_def)
  with assms(2,3) show ?thesis using runs_same_head [of r same xs x] by (cases r) auto
qed

lemma grouping_by_size_group:
  assumes "sort_contract srt" and "grouping_by_size srt m es mh = (Some r, m')" and "g \<in> set (out_groups r)"
  shows "2 \<le> entry_count g" and "e \<in> set (members (out_entries r) g) \<Longrightarrow> file_size e = group_file_size g"
proof -
  let ?es = "out_entries r"
  note spec = grouping_by_size_spec [OF assms(1,2)]
  have run: "members ?es g \<in> set (dup_runs same_size (kept_entries srt es mh))"
    using grouping_by_size_members [OF assms(1,2)] assms(3) by (metis image_eqI list.set_map)
  have len: "length (members ?es g) = entry_count g"
    using length_members grouping_by_size_laid_out [OF assms(1,2)] assms(3) by blast
  show two: "2 \<le> entry_count g" using run len by (auto simp: dup_runs_def)
  have "group_file_size g = file_size (?es ! start_index g)"
    using assms(3) unfolding spec(3) by (auto simp: span_group_def)
  also have "?es ! start_index g = hd (members ?es g)"
    using two len by (simp add: members_def segment_def hd_conv_nth)
  finally show "file_size e = group_file_size g" if "e \<in> set (members ?es g)"
    using dup_runs_same_head [OF run that size_runs.same_refl] by (simp add: same_size_def)
qed

lemma grouping_by_size_holds:
  assumes "grouping_by_size srt m es mh = (res, m')"
  shows "case res of None \<Rightarrow> holds m {#} m'
    | Some r \<Rightarrow> holds m (case out_block r of None \<Rightarrow> {#} | Some b \<Rightarrow> {#b#}) m'"
proof (cases "es = []")
  case True
  then show ?thesis using assms by (auto simp: grouping_by_size_def)
next
  case False
  obtain es' n h where com: "(if \<not> mh then compact_loop (srt size_dev_ino_less_than es) 0 0 (length es) 0
      else (srt size_dev_ino_less_than es, length es, 0)) = (es', n, h)" by (metis prod_cases3)
  obtain b m1 where alloc: "pool_allocate m = (b, m1)" by (cases "pool_allocate m")
  show ?thesis
  proof (cases b)
    case None
    then show ?thesis
      using assms False com alloc pool_allocate_holds(2) by (auto simp: grouping_by_size_def Let_def)
  next
    case (Some k)
    let ?buf = "\<lparr>buffer_block = k, buffer_capacity = 16, buffer_groups = []\<rparr>"
    obtain rb cand m2 where scan:
      "scan_runs same_size es' 0 n (\<lambda>i. file_size (es' ! i)) 0 ?buf 0 m1 = (rb, cand, m2)"
      by (metis prod_cases3)
    have "holds m (add_mset (buffer_block ?buf) {#}) m1"
      using alloc Some pool_allocate_holds(1) by simp
    from scan_runs_holds [OF scan _ this]
    show ?thesis
      using assms False com alloc Some scan
      by (auto simp: grouping_by_size_def Let_def buffer_ok_def split: option.splits)
  qed
qed

lemma grouping_by_size_granted:
  assumes "grants m = (\<lambda>_. True)"
  shows "\<exists>r m'. grouping_by_size srt m es mh = (Some r, m') \<and> grants m' = grants m"
proof (cases "es = []")
  case True
  then show ?thesis by (simp add: grouping_by_size_def)
next
  case False
  obtain es' n h where com: "(if \<not> mh then compact_loop (srt size_dev_ino_less_than es) 0 0 (length es) 0
      else (srt size_dev_ino_less_than es, length es, 0)) = (es', n, h)" by (metis prod_cases3)
  obtain b m1 where alloc: "pool_allocate m = (Some b, m1)" "grants m1 = grants m"
    using pool_allocate_granted [OF assms] by blast
  obtain buf cand m2 where "scan_runs same_size es' 0 n (\<lambda>i. file_size (es' ! i)) 0
      \<lparr>buffer_block = b, buffer_capacity = 16, buffer_groups = []\<rparr> 0 m1 = (Some buf, cand, m2)" "grants m2 = grants m1"
    using scan_runs_granted [of m1] alloc(2) assms by metis
  then show ?thesis using False com alloc by (simp add: grouping_by_size_def Let_def)
qed

text \<open>The blocks a pass hands to its caller: none when it fails or has nothing to do.\<close>

definition block_of :: "('a grouping_out_scheme) option \<Rightarrow> nat multiset" where
  "block_of res = (case res of None \<Rightarrow> {#} | Some r \<Rightarrow> (case out_block r of None \<Rightarrow> {#} | Some b \<Rightarrow> {#b#}))"

section \<open>Properties\<close>

text \<open>C7
  The groups of the size pass are exactly the classes of equal size, two entries or more, of
  the entries that are kept; each group carries the size of its members.
\<close>

theorem by_size_groups_are_size_classes:
  assumes "sort_contract srt" and "grouping_by_size srt m es match_links = (Some r, m')"
  shows "mset ` set (map (members (out_entries r)) (out_groups r)) =
      dup_classes same_size (mset (kept_entries srt es match_links)) \<and>
    (\<forall>g \<in> set (out_groups r). 2 \<le> entry_count g \<and>
      (\<forall>e \<in> set (members (out_entries r) g). file_size e = group_file_size g)) \<and>
    out_candidate_count r = sum_list (map (\<lambda>g. length (members (out_entries r) g)) (out_groups r))"
proof (intro conjI ballI)
  have ord: "ordered_by size_dev_ino_less_than (kept_entries srt es match_links)"
    by (rule kept_entries_ordered) (rule assms)
  show "mset ` set (map (members (out_entries r)) (out_groups r)) =
      dup_classes same_size (mset (kept_entries srt es match_links))"
    unfolding grouping_by_size_members [OF assms] by (rule size_runs.dup_runs_classes) (rule ord)
  show "out_candidate_count r = sum_list (map (\<lambda>g. length (members (out_entries r) g)) (out_groups r))"
    using grouping_by_size_spec(4) [OF assms] length_members [OF grouping_by_size_laid_out [OF assms]]
    by (metis (no_types, lifting) map_eq_conv)
qed (simp_all add: grouping_by_size_group [OF assms])

text \<open>C2
  Without \<^verbatim>\<open>--match-hardlinks\<close> the size pass keeps exactly one entry of every size, device and
  inode: what it keeps comes from its input, every input entry has a kept one with the same
  identity, no two kept entries share an identity, and the number it reports as collapsed is
  the number of entries dropped.
\<close>

theorem by_size_collapses_hardlinks:
  assumes "sort_contract srt" and "grouping_by_size srt m es False = (Some r, m')"
  shows "segment (out_entries r) 0 (length es - out_hardlinks_collapsed r) = kept_entries srt es False \<and>
    mset (kept_entries srt es False) \<subseteq># mset es \<and>
    (\<forall>e \<in> set es. \<exists>k \<in> set (kept_entries srt es False). same_identity k e) \<and>
    distinct (map (\<lambda>e. (file_size e, inode_of e)) (kept_entries srt es False))"
proof -
  let ?s = "srt size_dev_ino_less_than es"
  have kept: "kept_entries srt es False = squeeze same_identity ?s" by (simp add: kept_entries_def)
  have perm: "mset ?s = mset es" and ord: "ordered_by size_dev_ino_less_than ?s"
    using sort_contract_mset sort_contract_ordered assms(1) size_order.comparator_axioms by blast+
  note spec = grouping_by_size_spec [OF assms]
  have "length es - out_hardlinks_collapsed r = length (kept_entries srt es False)"
    using spec(5,6) by simp
  then have "segment (out_entries r) 0 (length es - out_hardlinks_collapsed r) = kept_entries srt es False"
    using spec(1) by simp
  moreover have "mset (kept_entries srt es False) \<subseteq># mset es"
    unfolding kept using squeeze_subset perm by metis
  moreover have "\<exists>k \<in> set (kept_entries srt es False). same_identity k e" if "e \<in> set es" for e
    unfolding kept using identity_runs.squeeze_covers that perm by (metis set_mset_mset)
  moreover have "distinct (map (\<lambda>e. (file_size e, inode_of e)) (kept_entries srt es False))"
    using identity_runs.squeeze_separated [OF ord] unfolding kept distinct_map_sorted_wrt
    by (rule sorted_wrt_mono_rel [rotated]) (auto simp: same_identity_def same_size_def same_inode_def inode_of_def)
  ultimately show ?thesis by blast
qed


text \<open>A small tree of files: two pairs of equal size, one of them two names of one inode.\<close>

definition sample_entries :: "file_entry list" where
  "sample_entries = [new_entry ''/a'' 10 1 100, new_entry ''/b'' 20 1 200, new_entry ''/c'' 10 1 101,
     new_entry ''/d'' 20 1 200, new_entry ''/e'' 30 1 300]"

theorem by_size_groups_are_size_classes_witness:
  "\<exists>r m'. grouping_by_size insertion_sort granting_pool sample_entries False = (Some r, m') \<and>
    mset ` set (map (members (out_entries r)) (out_groups r)) =
      dup_classes same_size (mset (kept_entries insertion_sort sample_entries False))"
proof -
  obtain r m' where run: "grouping_by_size insertion_sort granting_pool sample_entries False = (Some r, m')"
    using grouping_by_size_granted [OF granting_pool_grants] by blast
  with by_size_groups_are_size_classes [OF sort_contract_insertion_sort run] show ?thesis by blast
qed

theorem by_size_collapses_hardlinks_witness:
  "\<exists>r m'. grouping_by_size insertion_sort granting_pool sample_entries False = (Some r, m') \<and>
    length (kept_entries insertion_sort sample_entries False) = 4 \<and>
    distinct (map (\<lambda>e. (file_size e, inode_of e)) (kept_entries insertion_sort sample_entries False))"
proof -
  obtain r m' where run: "grouping_by_size insertion_sort granting_pool sample_entries False = (Some r, m')"
    using grouping_by_size_granted [OF granting_pool_grants] by blast
  have "length (kept_entries insertion_sort sample_entries False) = 4"
    by (simp add: kept_entries_def sample_entries_def new_entry_def size_dev_ino_less_than_def
        same_identity_def same_size_def same_inode_def)
  with by_size_collapses_hardlinks [OF sort_contract_insertion_sort run] run show ?thesis by blast
qed

end
