(* ===== verification/Grouping_Hash.thy ===== *)
theory Grouping_Hash
  imports Grouping_Size
begin

text \<open>
  \<^verbatim>\<open>src/grouping/bc_duplicate_grouping_by_fast_hash.c\<close> and
  \<^verbatim>\<open>src/grouping/bc_duplicate_grouping_by_full_hash.c\<close>: each group of the pass before is sorted
  in place by the hash and cut into the runs of equal hash with two entries or more. The loop
  over the groups is the same in both; they differ in the comparator, the equality and in
  whether candidates are counted.
\<close>

section \<open>The loop over the groups\<close>

fun regroup ::
  "file_entry sorter \<Rightarrow> (file_entry \<Rightarrow> file_entry \<Rightarrow> bool) \<Rightarrow> (file_entry \<Rightarrow> file_entry \<Rightarrow> bool)
    \<Rightarrow> file_entry list \<Rightarrow> group list \<Rightarrow> group_buffer \<Rightarrow> nat \<Rightarrow> pool
    \<Rightarrow> file_entry list \<times> group_buffer option \<times> nat \<times> pool" where
  "regroup srt lt same entries [] buf candidates m = (entries, Some buf, candidates, m)"
| "regroup srt lt same entries (g # gs) buf candidates m =
    (let entries' = put_segment entries (start_index g)
                      (srt lt (segment entries (start_index g) (entry_count g))) in
     case scan_runs same entries' (start_index g) (entry_count g) (\<lambda>_. group_file_size g) 0 buf candidates m of
       (None, candidates', m') \<Rightarrow> (entries', None, candidates', m')
     | (Some buf', candidates', m') \<Rightarrow> regroup srt lt same entries' gs buf' candidates' m')"

definition fast_hash_less_than :: "file_entry \<Rightarrow> file_entry \<Rightarrow> bool" where
  "fast_hash_less_than left right \<longleftrightarrow> fast_hash left < fast_hash right"

definition same_fast_hash :: "file_entry \<Rightarrow> file_entry \<Rightarrow> bool" where
  "same_fast_hash x y \<longleftrightarrow> fast_hash x = fast_hash y"

definition grouping_by_fast_hash ::
  "file_entry sorter \<Rightarrow> pool \<Rightarrow> file_entry list \<Rightarrow> group list \<Rightarrow> counted_out option \<times> pool" where
  "grouping_by_fast_hash srt m entries size_groups =
    (if size_groups = [] then
       (Some \<lparr>out_entries = entries, out_groups = [], out_block = None, out_candidate_count = 0\<rparr>, m)
     else
       (case pool_allocate m of
          (None, m1) \<Rightarrow> (None, m1)
        | (Some b, m1) \<Rightarrow>
            (case regroup srt fast_hash_less_than same_fast_hash entries size_groups
                    \<lparr>buffer_block = b, buffer_capacity = length size_groups, buffer_groups = []\<rparr> 0 m1 of
               (_, None, _, m2) \<Rightarrow> (None, m2)
             | (entries', Some buf, candidates, m2) \<Rightarrow>
                 (Some \<lparr>out_entries = entries', out_groups = buffer_groups buf,
                        out_block = Some (buffer_block buf), out_candidate_count = candidates\<rparr>, m2))))"

text \<open>
  \<^verbatim>\<open>bc_core_compare\<close> compares two byte strings; the code only asks whether the result is
  negative. It is a parameter, and what the code relies on is that its sign is that of a
  total order in which 0 means equal.
\<close>

type_synonym byte_compare = "u8 list \<Rightarrow> u8 list \<Rightarrow> int"

definition compare_contract :: "byte_compare \<Rightarrow> bool" where
  "compare_contract cmp \<longleftrightarrow>
    (\<forall>a b. (cmp a b = 0 \<longleftrightarrow> a = b) \<and> (cmp a b < 0 \<longleftrightarrow> 0 < cmp b a)) \<and>
    (\<forall>a b c. cmp a b \<le> 0 \<and> cmp b c \<le> 0 \<longrightarrow> cmp a c \<le> 0)"

definition digest_of :: "nat \<Rightarrow> file_entry \<Rightarrow> u8 list" where
  "digest_of digest_size e = take digest_size (full_hash e)"

definition full_hash_less_than :: "byte_compare \<Rightarrow> nat \<Rightarrow> file_entry \<Rightarrow> file_entry \<Rightarrow> bool" where
  "full_hash_less_than cmp digest_size left right \<longleftrightarrow>
    cmp (digest_of digest_size left) (digest_of digest_size right) < 0"

definition same_digest :: "nat \<Rightarrow> file_entry \<Rightarrow> file_entry \<Rightarrow> bool" where
  "same_digest digest_size x y \<longleftrightarrow> digest_of digest_size x = digest_of digest_size y"

definition grouping_by_full_hash ::
  "file_entry sorter \<Rightarrow> byte_compare \<Rightarrow> pool \<Rightarrow> file_entry list \<Rightarrow> group list \<Rightarrow> nat
    \<Rightarrow> grouping_out option \<times> pool" where
  "grouping_by_full_hash srt cmp m entries fast_hash_groups digest_size =
    (if fast_hash_groups = [] then
       (Some \<lparr>out_entries = entries, out_groups = [], out_block = None\<rparr>, m)
     else
       (case pool_allocate m of
          (None, m1) \<Rightarrow> (None, m1)
        | (Some b, m1) \<Rightarrow>
            (case regroup srt (full_hash_less_than cmp digest_size) (same_digest digest_size)
                    entries fast_hash_groups
                    \<lparr>buffer_block = b, buffer_capacity = length fast_hash_groups, buffer_groups = []\<rparr> 0 m1 of
               (_, None, _, m2) \<Rightarrow> (None, m2)
             | (entries', Some buf, _, m2) \<Rightarrow>
                 (Some \<lparr>out_entries = entries', out_groups = buffer_groups buf,
                        out_block = Some (buffer_block buf)\<rparr>, m2))))"

section \<open>What the loop computes\<close>

definition regrouped ::
  "file_entry sorter \<Rightarrow> (file_entry \<Rightarrow> file_entry \<Rightarrow> bool) \<Rightarrow> (file_entry \<Rightarrow> file_entry \<Rightarrow> bool)
    \<Rightarrow> file_entry list list \<Rightarrow> file_entry list list" where
  "regrouped srt lt same ms = concat (map (\<lambda>xs. dup_runs same (srt lt xs)) ms)"

lemma regrouped_apart:
  assumes "apart coarse ms" and "sort_contract srt" and "grouping_order lt same"
  shows "apart (\<lambda>x y. coarse x y \<and> same x y) (regrouped srt lt same ms)"
  using assms(1)
proof (induction ms)
  case (Cons xs ms)
  have cmp: "comparator lt" using assms(3) by (simp add: grouping_order_def)
  have sub: "set r \<subseteq> set ys" if "r \<in> set (dup_runs same (srt lt ys))" for r ys
    using that concat_runs [of same "srt lt ys"] sort_contract_mset [OF assms(2) cmp, of ys]
    unfolding dup_runs_def by (metis UN_upper filter_is_subset set_concat set_mset_mset subsetD)
  have "apart same (dup_runs same (srt lt xs))"
    by (rule grouping_order.dup_runs_apart [OF assms(3) sort_contract_ordered [OF assms(2) cmp]])
  then have here: "apart (\<lambda>x y. coarse x y \<and> same x y) (dup_runs same (srt lt xs))"
    unfolding apart_def by (rule sorted_wrt_mono_rel [rotated]) blast
  have "\<not> coarse x y" if "r \<in> set (dup_runs same (srt lt xs))" "s \<in> set (regrouped srt lt same ms)" "x \<in> set r" "y \<in> set s" for r s x y
    using that sub Cons.prems unfolding apart_def regrouped_def by fastforce
  then show ?case
    using here Cons by (simp add: apart_def regrouped_def sorted_wrt_append)
qed (simp add: apart_def regrouped_def)

lemma regroup_spec:
  assumes "regroup srt lt same es gs buf cand m = (es', Some buf', cand', m')"
    and "laid_out lo (length es) (map span gs)" and "sort_contract srt" and "comparator lt"
  shows "length es' = length es \<and> mset es' = mset es \<and> take lo es' = take lo es \<and>
    (\<exists>new. buffer_groups buf' = buffer_groups buf @ new \<and> laid_out lo (length es) (map span new) \<and>
      map (members es') new = regrouped srt lt same (map (members es) gs) \<and>
      (\<forall>h \<in> set new. \<exists>g \<in> set gs. group_file_size h = group_file_size g \<and> set (members es' h) \<subseteq> set (members es g)) \<and>
      cand' = cand + sum_list (map entry_count new))"
  using assms(1,2)
proof (induction gs arbitrary: es buf cand m lo)
  case Nil
  then show ?case by (simp add: regrouped_def)
next
  case (Cons g gs)
  let ?s = "start_index g" and ?n = "entry_count g"
  let ?seg = "segment es ?s ?n"
  let ?sorted = "srt lt ?seg"
  let ?es1 = "put_segment es ?s ?sorted"
  have lo: "lo \<le> ?s" and rest: "laid_out (?s + ?n) (length es) (map span gs)"
    using Cons.prems(2) by (simp_all add: span_def [of g])
  have le: "?s + ?n \<le> length es" using rest by (rule laid_out_le)
  have len_sorted: "length ?sorted = ?n"
    using sort_contract_length [OF assms(3,4)] le by simp
  have le': "?s + length ?sorted \<le> length es" using len_sorted le by simp
  have len1: "length ?es1 = length es" using le' by (rule length_put_segment)
  have seg1: "segment ?es1 ?s ?n = ?sorted"
    using segment_put_same [OF le'] by (simp add: len_sorted)
  have mset1: "mset ?es1 = mset es"
    using sort_contract_mset [OF assms(3,4)] le' by (intro mset_put_segment) (simp_all add: len_sorted)
  obtain buf1 cand1 m1 where scan:
      "scan_runs same ?es1 ?s ?n (\<lambda>_. group_file_size g) 0 buf cand m = (Some buf1, cand1, m1)"
    and rec: "regroup srt lt same ?es1 gs buf1 cand1 m1 = (es', Some buf', cand', m')"
    using Cons.prems(1) by (auto simp: Let_def split: prod.splits option.splits)
  define ss where "ss = dup_spans same ?s ?sorted"
  have b1: "buffer_groups buf1 = buffer_groups buf @ map (span_group (\<lambda>_. group_file_size g)) ss"
    and c1: "cand1 = cand + sum_list (map snd ss)"
    using scan_runs_Some [OF scan] le len1 seg1 by (simp_all add: ss_def)
  obtain new where new: "buffer_groups buf' = buffer_groups buf1 @ new"
      "laid_out (?s + ?n) (length es) (map span new)"
      "map (members es') new = regrouped srt lt same (map (members ?es1) gs)"
      "\<forall>h \<in> set new. \<exists>g \<in> set gs. group_file_size h = group_file_size g \<and> set (members es' h) \<subseteq> set (members ?es1 g)"
      "cand' = cand1 + sum_list (map entry_count new)"
    and es': "length es' = length es" "mset es' = mset ?es1" "take (?s + ?n) es' = take (?s + ?n) ?es1"
    using Cons.IH [OF rec] rest len1 by auto
  have later: "members ?es1 g' = members es g'" if "g' \<in> set gs" for g'
  proof -
    have "(start_index g', entry_count g') \<in> set (map span gs)" using that span_def [of g'] by force
    from laid_out_in [OF rest this] show ?thesis
      unfolding members_def by (intro segment_put_after) (simp_all add: len_sorted)
  qed
  have keep: "segment es' i k = segment ?es1 i k" if "i + k \<le> ?s + ?n" for i k
  proof -
    have "segment xs i k = segment (take (?s + ?n) xs) i k" for xs :: "file_entry list"
      using that by (simp add: segment_def drop_take min_absorb1)
    then show ?thesis using es'(3) by metis
  qed
  have ss_out: "laid_out ?s (?s + ?n) ss"
    using laid_out_dup_spans [of ?s ?sorted same] by (simp add: ss_def len_sorted)
  let ?here = "map (span_group (\<lambda>_. group_file_size g)) ss"
  have here: "map (members es') ?here = dup_runs same ?sorted"
  proof -
    have "map (members es') ?here = map (\<lambda>(i, k). segment ?es1 i k) ss"
      using laid_out_in [OF ss_out] keep by (auto simp: members_span_group)
    also have "\<dots> = dup_runs same ?sorted"
      unfolding ss_def using dup_spans_segments [of ?s ?n ?es1 same] le len1 seg1 by simp
    finally show ?thesis .
  qed
  have sub: "set (members es' h) \<subseteq> set (members es g)" if "h \<in> set ?here" for h
  proof -
    have "members es' h \<in> set (dup_runs same ?sorted)" using that here by (metis image_eqI list.set_map)
    then have "set (members es' h) \<subseteq> set ?sorted"
      unfolding dup_runs_def using concat_runs [of same ?sorted] by (metis UN_upper filter_is_subset set_concat subsetD)
    also have "set ?sorted = set ?seg" using sort_contract_mset [OF assms(3,4)] by (metis set_mset_mset)
    finally show ?thesis by (simp add: members_def)
  qed
  have "take lo es' = take lo es"
  proof -
    have "take lo es' = take lo (take (?s + ?n) es')" using lo by (simp add: min_absorb1)
    also have "\<dots> = take lo ?es1" using lo by (simp add: es'(3) min_absorb1)
    also have "\<dots> = take lo es" using lo le by (simp add: put_segment_def)
    finally show ?thesis .
  qed
  moreover have "laid_out lo (length es) (map span (?here @ new))"
    using laid_out_append [OF ss_out new(2)] lo by (auto simp: comp_def intro: laid_out_weaken)
  moreover have "map (members es') (?here @ new) = regrouped srt lt same (map (members es) (g # gs))"
    using here new(3) later by (simp add: regrouped_def members_def [of es g] cong: map_cong)
  moreover have "\<forall>h \<in> set (?here @ new). \<exists>g' \<in> set (g # gs). group_file_size h = group_file_size g'
      \<and> set (members es' h) \<subseteq> set (members es g')"
    using sub new(4) later by (auto simp: span_group_def)
  moreover have "cand' = cand + sum_list (map entry_count (?here @ new))"
    using new(5) c1 by (simp add: comp_def span_group_def)
  moreover have "buffer_groups buf' = buffer_groups buf @ (?here @ new)" using new(1) b1 by simp
  ultimately show ?case using es' mset1 by metis
qed


lemma regroup_holds:
  assumes "regroup srt lt same es gs buf cand m' = (es', res, cand', m'')"
    and "buffer_ok buf" and "holds m (add_mset (buffer_block buf) bs) m'"
  shows "case res of None \<Rightarrow> holds m bs m''
    | Some buf' \<Rightarrow> buffer_ok buf' \<and> holds m (add_mset (buffer_block buf') bs) m''"
  using assms
proof (induction gs arbitrary: es buf cand m')
  case (Cons g gs)
  let ?es1 = "put_segment es (start_index g) (srt lt (segment es (start_index g) (entry_count g)))"
  obtain r c1 m1 where scan: "scan_runs same ?es1 (start_index g) (entry_count g) (\<lambda>_. group_file_size g) 0 buf cand m' = (r, c1, m1)"
    by (metis prod_cases3)
  note h = scan_runs_holds [OF scan Cons.prems(2,3)]
  show ?case
  proof (cases r)
    case None
    then show ?thesis using Cons.prems(1) scan h by (auto simp: Let_def)
  next
    case (Some buf1)
    then have "regroup srt lt same ?es1 gs buf1 c1 m1 = (es', res, cand', m'')"
      using Cons.prems(1) scan by (simp add: Let_def)
    from Cons.IH [OF this] h Some show ?thesis by simp
  qed
qed auto

lemma regroup_granted:
  "grants m = (\<lambda>_. True) \<Longrightarrow>
    \<exists>es' buf' cand' m'. regroup srt lt same es gs buf cand m = (es', Some buf', cand', m') \<and> grants m' = grants m"
proof (induction gs arbitrary: es buf cand m)
  case (Cons g gs)
  let ?es1 = "put_segment es (start_index g) (srt lt (segment es (start_index g) (entry_count g)))"
  obtain buf1 c1 m1 where scan: "scan_runs same ?es1 (start_index g) (entry_count g) (\<lambda>_. group_file_size g) 0 buf cand m = (Some buf1, c1, m1)"
    and g: "grants m1 = grants m" using scan_runs_granted [OF Cons.prems] by blast
  have "grants m1 = (\<lambda>_. True)" using g Cons.prems by simp
  from Cons.IH [OF this] obtain es' buf' cand' m' where
    "regroup srt lt same ?es1 gs buf1 c1 m1 = (es', Some buf', cand', m')" "grants m' = grants m1" by blast
  then show ?case using scan g by (auto simp: Let_def)
qed auto

text \<open>
  What one pass guarantees: a permutation of the array whose new groups are laid out in it
  and lie inside the old ones.
\<close>

definition stage_done ::
  "file_entry list \<Rightarrow> group list \<Rightarrow> file_entry list \<Rightarrow> group list \<Rightarrow> bool" where
  "stage_done es gs es' gs' \<longleftrightarrow>
    length es' = length es \<and> mset es' = mset es \<and> groups_laid_out (length es') gs' \<and>
    (\<forall>h \<in> set gs'. 2 \<le> entry_count h \<and>
      (\<exists>g \<in> set gs. group_file_size h = group_file_size g \<and> set (members es' h) \<subseteq> set (members es g)))"

text \<open>Groups that are laid out in the array, with two members or more, all of the size the group records.\<close>

definition groups_sized :: "file_entry list \<Rightarrow> group list \<Rightarrow> bool" where
  "groups_sized es gs \<longleftrightarrow>
    groups_laid_out (length es) gs \<and>
    (\<forall>g \<in> set gs. 2 \<le> entry_count g \<and> (\<forall>e \<in> set (members es g). file_size e = group_file_size g))"

lemma groups_sized_laid_out: "groups_sized es gs \<Longrightarrow> groups_laid_out (length es) gs"
  by (simp add: groups_sized_def)

lemma groups_sized_Nil [simp]: "groups_sized es []"
  by (simp add: groups_sized_def groups_laid_out_def)

lemma grouping_by_size_sized:
  assumes "sort_contract srt" and "grouping_by_size srt m es mh = (Some r, m')"
  shows "groups_sized (out_entries r) (out_groups r)"
  using grouping_by_size_laid_out [OF assms] grouping_by_size_group [OF assms] by (simp add: groups_sized_def)

lemma groups_sized_stage:
  assumes "stage_done es gs es' gs'" and "groups_sized es gs"
  shows "groups_sized es' gs'"
  unfolding groups_sized_def
proof (intro conjI ballI)
  show "groups_laid_out (length es') gs'" using assms(1) unfolding stage_done_def by blast
  fix h assume h: "h \<in> set gs'"
  show "2 \<le> entry_count h" using assms(1) h by (simp add: stage_done_def)
  obtain g where g: "g \<in> set gs" "group_file_size h = group_file_size g" "set (members es' h) \<subseteq> set (members es g)"
    using assms(1) h unfolding stage_done_def by blast
  show "file_size e = group_file_size h" if "e \<in> set (members es' h)" for e
    using that g assms(2) by (auto simp: groups_sized_def)
qed

lemma groups_sized_map:
  assumes "groups_sized es gs" and "length es' = length es" and "\<And>g. g \<in> set gs \<Longrightarrow> members es' g = map f (members es g)"
    and "\<And>e. file_size (f e) = file_size e"
  shows "groups_sized es' gs"
  using assms by (auto simp: groups_sized_def)

text \<open>Such groups when, in addition, members of different groups are never equal.\<close>

definition groups_apart :: "(file_entry \<Rightarrow> file_entry \<Rightarrow> bool) \<Rightarrow> file_entry list \<Rightarrow> group list \<Rightarrow> bool" where
  "groups_apart same es gs \<longleftrightarrow> groups_sized es gs \<and> apart same (map (members es) gs)"

lemma groups_apart_sized: "groups_apart same es gs \<Longrightarrow> groups_sized es gs"
  by (simp add: groups_apart_def)

lemma groups_apart_Nil [simp]: "groups_apart same es []"
  by (simp add: groups_apart_def apart_def)

lemma groups_apart_map:
  assumes "groups_apart same es gs" and "length es' = length es" and "\<And>g. g \<in> set gs \<Longrightarrow> members es' g = map f (members es g)"
    and "\<And>e. file_size (f e) = file_size e" and "\<And>x y. same (f x) (f y) \<Longrightarrow> same x y"
  shows "groups_apart same es' gs"
proof -
  have "map (members es') gs = map (map f) (map (members es) gs)" using assms(3) by simp
  then have "apart same (map (members es') gs)"
    using apart_map [where s = same and t = same and f = f] assms(1,5) unfolding groups_apart_def by metis
  then show ?thesis
    using groups_sized_map [OF groups_apart_sized [OF assms(1)] assms(2,3,4)] by (simp add: groups_apart_def)
qed

lemma groups_apart_stage:
  assumes "stage_done es gs es' gs'" and "map (members es') gs' = regrouped srt lt same (map (members es) gs)"
    and "sort_contract srt" and "grouping_order lt same" and "groups_apart coarse es gs"
  shows "groups_apart (\<lambda>x y. coarse x y \<and> same x y) es' gs'"
  using groups_sized_stage [OF assms(1)] regrouped_apart [OF _ assms(3,4)] assms(2,5) by (simp add: groups_apart_def)

lemma grouping_by_size_apart:
  assumes "sort_contract srt" and "grouping_by_size srt m es mh = (Some r, m')"
  shows "groups_apart same_size (out_entries r) (out_groups r)"
  unfolding groups_apart_def grouping_by_size_members [OF assms]
  using grouping_by_size_sized [OF assms] size_runs.dup_runs_apart [OF kept_entries_ordered [OF assms(1)]] by simp

text \<open>No group is there twice.\<close>

lemma groups_apart_distinct:
  assumes "groups_apart same es gs" and "\<And>x. same x x"
  shows "distinct (map (\<lambda>g. mset (members es g)) gs)"
proof -
  have "members es g \<noteq> []" if "g \<in> set gs" for g
    using assms(1) that length_members [of es gs g] by (auto simp: groups_apart_def groups_sized_def)
  then have "distinct (map mset (map (members es) gs))"
    using assms by (intro apart_distinct [where same = same]) (auto simp: groups_apart_def)
  then show ?thesis by (simp add: comp_def)
qed

lemma regroup_stage:
  assumes "regroup srt lt same es gs \<lparr>buffer_block = b, buffer_capacity = c, buffer_groups = []\<rparr> 0 m = (es', Some buf', cand', m')"
    and "groups_laid_out (length es) gs" and "sort_contract srt" and "grouping_order lt same"
  shows "map (members es') (buffer_groups buf') = regrouped srt lt same (map (members es) gs)"
    and "stage_done es gs es' (buffer_groups buf')"
    and "cand' = sum_list (map entry_count (buffer_groups buf'))"
    and "mset ` set (map (members es') (buffer_groups buf')) = (\<Union>g \<in> set gs. dup_classes same (mset (members es g)))"
proof -
  have cmp: "comparator lt" using assms(4) by (simp add: grouping_order_def)
  note spec = regroup_spec [OF assms(1) assms(2) [unfolded groups_laid_out_def] assms(3) cmp]
  then show mem: "map (members es') (buffer_groups buf') = regrouped srt lt same (map (members es) gs)"
    and "cand' = sum_list (map entry_count (buffer_groups buf'))" by auto
  have out: "groups_laid_out (length es') (buffer_groups buf')"
    using spec by (auto simp: groups_laid_out_def)
  have two: "2 \<le> entry_count h" if "h \<in> set (buffer_groups buf')" for h
  proof -
    have "members es' h \<in> set (regrouped srt lt same (map (members es) gs))"
      using that mem by (metis image_eqI list.set_map)
    then have "2 \<le> length (members es' h)" by (auto simp: regrouped_def dup_runs_def)
    then show ?thesis using length_members [OF out that] by simp
  qed
  show "stage_done es gs es' (buffer_groups buf')"
    using spec out two by (auto simp: stage_done_def)
  show "mset ` set (map (members es') (buffer_groups buf')) = (\<Union>g \<in> set gs. dup_classes same (mset (members es g)))"
    unfolding mem regrouped_def
    by (simp add: image_UN grouping_order.sorted_dup_runs_classes [OF assms(4,3)])
qed

section \<open>The two passes\<close>

interpretation fast_order: grouping_order fast_hash_less_than same_fast_hash
  by unfold_locales
    (auto simp: fast_hash_less_than_def same_fast_hash_def intro!: equivpI reflpI sympI transpI)

lemma digest_order:
  assumes "compare_contract cmp"
  shows "grouping_order (full_hash_less_than cmp n) (same_digest n)"
proof unfold_locales
  fix x y z
  let ?c = "\<lambda>x y. cmp (digest_of n x) (digest_of n y)"
  have sgn: "?c x y < 0 \<longleftrightarrow> 0 < ?c y x" and zero: "?c x y = 0 \<longleftrightarrow> digest_of n x = digest_of n y"
    and tr: "?c x y \<le> 0 \<Longrightarrow> ?c y z \<le> 0 \<Longrightarrow> ?c x z \<le> 0" for x y z
    using assms unfolding compare_contract_def by blast+
  show "full_hash_less_than cmp n x y \<Longrightarrow> \<not> full_hash_less_than cmp n y x"
    using sgn [of x y] by (simp add: full_hash_less_than_def)
  show "\<not> full_hash_less_than cmp n x y \<Longrightarrow> \<not> full_hash_less_than cmp n y z \<Longrightarrow> \<not> full_hash_less_than cmp n x z"
    using sgn [of x y] sgn [of y z] sgn [of x z] sgn [of y x] sgn [of z y] sgn [of z x] tr [of z y x]
    by (auto simp: full_hash_less_than_def not_less le_less)
  show "equivp (same_digest n)"
    unfolding same_digest_def [abs_def] by (rule equivp_key)
  show "\<not> full_hash_less_than cmp n y x \<Longrightarrow> \<not> full_hash_less_than cmp n z y \<Longrightarrow> same_digest n x z \<Longrightarrow> same_digest n x y"
    using sgn [of y x] sgn [of z y] sgn [of x y] zero [of x y] by (auto simp: full_hash_less_than_def same_digest_def)
qed

lemma grouping_by_fast_hash_Some:
  assumes "grouping_by_fast_hash srt m es gs = (Some r, m')" and "sort_contract srt" and "groups_laid_out (length es) gs"
  shows "map (members (out_entries r)) (out_groups r) = regrouped srt fast_hash_less_than same_fast_hash (map (members es) gs)"
    and "stage_done es gs (out_entries r) (out_groups r)"
    and "out_candidate_count r = sum_list (map entry_count (out_groups r))"
    and "mset ` set (map (members (out_entries r)) (out_groups r)) =
      (\<Union>g \<in> set gs. dup_classes same_fast_hash (mset (members es g)))"
proof -
  have "map (members (out_entries r)) (out_groups r) = regrouped srt fast_hash_less_than same_fast_hash (map (members es) gs) \<and>
    stage_done es gs (out_entries r) (out_groups r) \<and>
    out_candidate_count r = sum_list (map entry_count (out_groups r)) \<and>
    mset ` set (map (members (out_entries r)) (out_groups r)) =
      (\<Union>g \<in> set gs. dup_classes same_fast_hash (mset (members es g)))"
  proof (cases "gs = []")
    case True
    then show ?thesis
      using assms(1) by (auto simp: grouping_by_fast_hash_def regrouped_def stage_done_def groups_laid_out_def)
  next
    case False
    then obtain b m1 buf where run: "regroup srt fast_hash_less_than same_fast_hash es gs
        \<lparr>buffer_block = b, buffer_capacity = length gs, buffer_groups = []\<rparr> 0 m1
        = (out_entries r, Some buf, out_candidate_count r, m')" and r: "out_groups r = buffer_groups buf"
      using assms(1) by (auto simp: grouping_by_fast_hash_def split: option.splits prod.splits)
    from regroup_stage [OF run assms(3,2) fast_order.grouping_order_axioms] r show ?thesis by simp
  qed
  then show "map (members (out_entries r)) (out_groups r) = regrouped srt fast_hash_less_than same_fast_hash (map (members es) gs)"
    and "stage_done es gs (out_entries r) (out_groups r)"
    and "out_candidate_count r = sum_list (map entry_count (out_groups r))"
    and "mset ` set (map (members (out_entries r)) (out_groups r)) =
      (\<Union>g \<in> set gs. dup_classes same_fast_hash (mset (members es g)))" by blast+
qed

lemma grouping_by_full_hash_Some:
  assumes "grouping_by_full_hash srt cmp m es gs n = (Some r, m')" and "sort_contract srt"
    and "compare_contract cmp" and "groups_laid_out (length es) gs"
  shows "map (members (out_entries r)) (out_groups r) =
      regrouped srt (full_hash_less_than cmp n) (same_digest n) (map (members es) gs)"
    and "stage_done es gs (out_entries r) (out_groups r)"
    and "mset ` set (map (members (out_entries r)) (out_groups r)) =
      (\<Union>g \<in> set gs. dup_classes (same_digest n) (mset (members es g)))"
proof -
  have "map (members (out_entries r)) (out_groups r) =
      regrouped srt (full_hash_less_than cmp n) (same_digest n) (map (members es) gs) \<and>
    stage_done es gs (out_entries r) (out_groups r) \<and>
    mset ` set (map (members (out_entries r)) (out_groups r)) =
      (\<Union>g \<in> set gs. dup_classes (same_digest n) (mset (members es g)))"
  proof (cases "gs = []")
    case True
    then show ?thesis
      using assms(1) by (auto simp: grouping_by_full_hash_def regrouped_def stage_done_def groups_laid_out_def)
  next
    case False
    then obtain b m1 buf cand where run: "regroup srt (full_hash_less_than cmp n) (same_digest n) es gs
        \<lparr>buffer_block = b, buffer_capacity = length gs, buffer_groups = []\<rparr> 0 m1
        = (out_entries r, Some buf, cand, m')" and r: "out_groups r = buffer_groups buf"
      using assms(1) by (auto simp: grouping_by_full_hash_def split: option.splits prod.splits)
    from regroup_stage [OF run assms(4,2) digest_order [OF assms(3)]] r show ?thesis by simp
  qed
  then show "map (members (out_entries r)) (out_groups r) =
      regrouped srt (full_hash_less_than cmp n) (same_digest n) (map (members es) gs)"
    and "stage_done es gs (out_entries r) (out_groups r)"
    and "mset ` set (map (members (out_entries r)) (out_groups r)) =
      (\<Union>g \<in> set gs. dup_classes (same_digest n) (mset (members es g)))" by blast+
qed


lemma grouping_by_fast_hash_granted:
  assumes "grants m = (\<lambda>_. True)"
  shows "\<exists>r m'. grouping_by_fast_hash srt m es gs = (Some r, m') \<and> grants m' = grants m"
proof -
  obtain b m1 where alloc: "pool_allocate m = (Some b, m1)" "grants m1 = grants m"
    using pool_allocate_granted [OF assms] by blast
  then show ?thesis
    using regroup_granted [of m1 srt fast_hash_less_than same_fast_hash es gs
        "\<lparr>buffer_block = b, buffer_capacity = length gs, buffer_groups = []\<rparr>" 0] assms
    by (auto simp: grouping_by_fast_hash_def)
qed

lemma grouping_by_full_hash_granted:
  assumes "grants m = (\<lambda>_. True)"
  shows "\<exists>r m'. grouping_by_full_hash srt cmp m es gs n = (Some r, m') \<and> grants m' = grants m"
proof -
  obtain b m1 where alloc: "pool_allocate m = (Some b, m1)" "grants m1 = grants m"
    using pool_allocate_granted [OF assms] by blast
  then show ?thesis
    using regroup_granted [of m1 srt "full_hash_less_than cmp n" "same_digest n" es gs
        "\<lparr>buffer_block = b, buffer_capacity = length gs, buffer_groups = []\<rparr>" 0] assms
    by (auto simp: grouping_by_full_hash_def)
qed

lemma grouping_by_fast_hash_holds:
  assumes "grouping_by_fast_hash srt m es gs = (res, m')"
  shows "holds m (block_of res) m'"
proof (cases "gs = []")
  case True
  then show ?thesis using assms by (auto simp: grouping_by_fast_hash_def block_of_def)
next
  case False
  obtain b m1 where alloc: "pool_allocate m = (b, m1)" by (cases "pool_allocate m")
  show ?thesis
  proof (cases b)
    case None
    then show ?thesis
      using assms False alloc pool_allocate_holds(2) by (auto simp: grouping_by_fast_hash_def block_of_def)
  next
    case (Some k)
    let ?buf = "\<lparr>buffer_block = k, buffer_capacity = length gs, buffer_groups = []\<rparr>"
    obtain es' rb cand m2 where run: "regroup srt fast_hash_less_than same_fast_hash es gs ?buf 0 m1 = (es', rb, cand, m2)"
      by (metis prod_cases4)
    have "holds m (add_mset (buffer_block ?buf) {#}) m1" using alloc Some pool_allocate_holds(1) by simp
    from regroup_holds [OF run _ this] show ?thesis
      using assms False alloc Some run
      by (auto simp: grouping_by_fast_hash_def buffer_ok_def block_of_def split: option.splits)
  qed
qed

lemma grouping_by_full_hash_holds:
  assumes "grouping_by_full_hash srt cmp m es gs n = (res, m')"
  shows "holds m (block_of res) m'"
proof (cases "gs = []")
  case True
  then show ?thesis using assms by (auto simp: grouping_by_full_hash_def block_of_def)
next
  case False
  obtain b m1 where alloc: "pool_allocate m = (b, m1)" by (cases "pool_allocate m")
  show ?thesis
  proof (cases b)
    case None
    then show ?thesis
      using assms False alloc pool_allocate_holds(2) by (auto simp: grouping_by_full_hash_def block_of_def)
  next
    case (Some k)
    let ?buf = "\<lparr>buffer_block = k, buffer_capacity = length gs, buffer_groups = []\<rparr>"
    obtain es' rb cand m2 where run: "regroup srt (full_hash_less_than cmp n) (same_digest n) es gs ?buf 0 m1 = (es', rb, cand, m2)"
      by (metis prod_cases4)
    have "holds m (add_mset (buffer_block ?buf) {#}) m1" using alloc Some pool_allocate_holds(1) by simp
    from regroup_holds [OF run _ this] show ?thesis
      using assms False alloc Some run
      by (auto simp: grouping_by_full_hash_def buffer_ok_def block_of_def split: option.splits)
  qed
qed

lemma grouping_by_size_block: "grouping_by_size srt m es mh = (res, m') \<Longrightarrow> holds m (block_of res) m'"
  using grouping_by_size_holds [of srt m es mh res m'] by (auto simp: block_of_def split: option.splits)

text \<open>
  The groups of the fast-hash pass are exactly the classes of equal fast hash, two entries or
  more, within each size group; the array stays a permutation of itself and every new group
  lies inside one of the old, whose file size it takes over.
\<close>

lemma by_fast_hash_splits_groups:
  assumes "sort_contract srt" and "groups_laid_out (length es) gs"
    and "grouping_by_fast_hash srt m es gs = (Some r, m')"
  shows "mset ` set (map (members (out_entries r)) (out_groups r)) =
      (\<Union>g \<in> set gs. dup_classes same_fast_hash (mset (members es g))) \<and>
    stage_done es gs (out_entries r) (out_groups r) \<and>
    out_candidate_count r = sum_list (map entry_count (out_groups r))"
  using grouping_by_fast_hash_Some [OF assms(3,1,2)] by blast

section \<open>Properties\<close>

text \<open>C8
  The groups of the full-hash pass are exactly the classes of equal digest, two entries or
  more, within each fast-hash group, whatever the comparison of the bytes, as long as it is a
  total order.
\<close>

theorem by_full_hash_splits_groups:
  assumes "sort_contract srt" and "compare_contract cmp" and "groups_laid_out (length es) gs"
    and "grouping_by_full_hash srt cmp m es gs digest_size = (Some r, m')"
  shows "mset ` set (map (members (out_entries r)) (out_groups r)) =
      (\<Union>g \<in> set gs. dup_classes (same_digest digest_size) (mset (members es g))) \<and>
    stage_done es gs (out_entries r) (out_groups r)"
  using grouping_by_full_hash_Some [OF assms(4,1,2,3)] by blast

text \<open>C20
  On every path, refused allocations included, a grouping pass makes no invalid use of the pool
  and never writes past its buffer of groups; it leaves behind exactly the block of groups it
  returns, and no block when it fails.
\<close>

theorem grouping_passes_balance_the_pool:
  "(case grouping_by_size srt m es mh of (res, m') \<Rightarrow> holds m (block_of res) m') \<and>
   (case grouping_by_fast_hash srt m es gs of (res, m') \<Rightarrow> holds m (block_of res) m') \<and>
   (case grouping_by_full_hash srt cmp m es gs n of (res, m') \<Rightarrow> holds m (block_of res) m')"
  using grouping_by_size_block [of srt m es mh] grouping_by_fast_hash_holds [of srt m es gs]
    grouping_by_full_hash_holds [of srt cmp m es gs n]
  by (auto split: prod.splits)

text \<open>A byte comparison that meets its contract: lexicographic, shorter first.\<close>

fun lex_compare :: byte_compare where
  "lex_compare [] [] = 0"
| "lex_compare [] (b # bs) = -1"
| "lex_compare (a # as) [] = 1"
| "lex_compare (a # as) (b # bs) = (if a < b then -1 else if b < a then 1 else lex_compare as bs)"

lemma lex_compare_contract: "compare_contract lex_compare"
proof -
  have "lex_compare a b = 0 \<longleftrightarrow> a = b" for a b
    by (induction a b rule: lex_compare.induct) auto
  moreover have "lex_compare a b < 0 \<longleftrightarrow> 0 < lex_compare b a" for a b
    by (induction a b rule: lex_compare.induct) auto
  moreover have "lex_compare a b \<le> 0 \<Longrightarrow> lex_compare b c \<le> 0 \<Longrightarrow> lex_compare a c \<le> 0" for a b c
  proof (induction a b arbitrary: c rule: lex_compare.induct)
    case (4 a as b bs)
    then show ?case by (cases c) (auto split: if_splits)
  next
    case 1 then show ?case by (cases c) auto
  next
    case 2 then show ?case by (cases c) auto
  qed auto
  ultimately show ?thesis unfolding compare_contract_def by blast
qed

definition hashed_sample :: "file_entry list" where
  "hashed_sample =
    [(new_entry ''/a'' 10 1 100)\<lparr>fast_hash := 7, full_hash := replicate 32 1\<rparr>,
     (new_entry ''/b'' 10 1 101)\<lparr>fast_hash := 9, full_hash := replicate 32 2\<rparr>,
     (new_entry ''/c'' 10 1 102)\<lparr>fast_hash := 7, full_hash := replicate 32 1\<rparr>]"

definition sample_group :: group where
  "sample_group = \<lparr>start_index = 0, entry_count = 3, group_file_size = 10\<rparr>"

lemma sample_group_laid_out: "groups_laid_out (length hashed_sample) [sample_group]"
  by (simp add: groups_laid_out_def sample_group_def hashed_sample_def span_def)

theorem by_full_hash_splits_groups_witness:
  "\<exists>r m'. grouping_by_full_hash insertion_sort lex_compare granting_pool hashed_sample [sample_group] 8 = (Some r, m') \<and>
    mset ` set (map (members (out_entries r)) (out_groups r)) =
      dup_classes (same_digest 8) (mset hashed_sample)"
proof -
  obtain r m' where run:
    "grouping_by_full_hash insertion_sort lex_compare granting_pool hashed_sample [sample_group] 8 = (Some r, m')"
    using grouping_by_full_hash_granted [OF granting_pool_grants] by blast
  have "members hashed_sample sample_group = hashed_sample"
    by (simp add: members_def sample_group_def hashed_sample_def segment_def)
  with by_full_hash_splits_groups [OF sort_contract_insertion_sort lex_compare_contract sample_group_laid_out run] run
  show ?thesis by auto
qed

end
