(* ===== verification/Worker_Pass.thy ===== *)
theory Worker_Pass
  imports Dup_Order
begin

text \<open>
  What the two hashing passes of \<^verbatim>\<open>src/worker/\<close> share: the list of candidate indices, its sort by
  size (\<^verbatim>\<open>bc_duplicate_worker_sort.c\<close>), and the parallel loop. \<^verbatim>\<open>bc_concurrency_for\<close> is not part
  of the repository; it is a parameter that says in which order the iterations take effect and
  what it returns. Iterations are atomic steps on the array of entries: each reads and writes
  only the entries whose indices it owns.
\<close>

section \<open>Candidate indices\<close>

fun candidate_indices :: "group list \<Rightarrow> nat list" where
  "candidate_indices [] = []"
| "candidate_indices (g # gs) =
    map (\<lambda>offset. start_index g + offset) [0 ..< entry_count g] @ candidate_indices gs"

definition total_candidates :: "group list \<Rightarrow> nat" where
  "total_candidates gs = sum_list (map entry_count gs)"

lemma candidate_indices_eq: "candidate_indices gs = concat (map span_indices (map span gs))"
proof (induction gs)
  case (Cons g gs)
  have "map (\<lambda>offset. start_index g + offset) [0 ..< entry_count g] = [start_index g ..< start_index g + entry_count g]"
    using map_add_upt [of "start_index g" "entry_count g"] by (simp add: add.commute)
  with Cons show ?case by (simp add: span_def [of g])
qed simp

lemma length_candidate_indices: "length (candidate_indices gs) = total_candidates gs"
  by (induction gs) (simp_all add: total_candidates_def)

lemma candidate_indices_distinct:
  assumes "groups_laid_out n gs"
  shows "distinct (candidate_indices gs)" and "\<forall>i \<in> set (candidate_indices gs). i < n"
  using laid_out_indices [OF assms [unfolded groups_laid_out_def]]
  by (auto simp: candidate_indices_eq simp del: set_concat)

lemma candidate_indices_cover:
  assumes "g \<in> set gs" and "k < entry_count g"
  shows "start_index g + k \<in> set (candidate_indices gs)"
  using assms by (induction gs) auto

definition sort_indices_less_than :: "file_entry list \<Rightarrow> nat \<Rightarrow> nat \<Rightarrow> bool" where
  "sort_indices_less_than entries left_index right_index \<longleftrightarrow>
    file_size (entries ! left_index) > file_size (entries ! right_index)"

definition sort_indices_by_size_desc :: "nat sorter \<Rightarrow> file_entry list \<Rightarrow> nat list \<Rightarrow> nat list" where
  "sort_indices_by_size_desc srt entries ixs = srt (sort_indices_less_than entries) ixs"

interpretation index_order: comparator "sort_indices_less_than es" for es
  by unfold_locales (auto simp: sort_indices_less_than_def)

lemma mset_sort_indices: "sort_contract srt \<Longrightarrow> mset (sort_indices_by_size_desc srt es ixs) = mset ixs"
  unfolding sort_indices_by_size_desc_def
  by (erule sort_contract_mset) (rule index_order.comparator_axioms)

section \<open>The parallel loop\<close>

type_synonym par_for = "nat \<Rightarrow> nat list \<times> bool"

text \<open>
  \<open>par_for n\<close> runs iterations \<open>0..<n\<close>, none twice, in some order; when it reports success
  it has run them all.
\<close>

definition par_contract :: "par_for \<Rightarrow> bool" where
  "par_contract pf \<longleftrightarrow>
    (\<forall>n. distinct (fst (pf n)) \<and> set (fst (pf n)) \<subseteq> {0 ..< n} \<and> (snd (pf n) \<longrightarrow> set (fst (pf n)) = {0 ..< n}))"

lemma par_contract_run:
  assumes "par_contract pf" and "pf n = (is, True)"
  shows "distinct is" and "set is = {0 ..< n}"
proof -
  have "distinct (fst (pf n)) \<and> (snd (pf n) \<longrightarrow> set (fst (pf n)) = {0 ..< n})"
    using assms(1) by (auto simp: par_contract_def)
  then show "distinct is" and "set is = {0 ..< n}" by (simp_all add: assms(2))
qed

definition run_in_order :: par_for where
  "run_in_order n = ([0 ..< n], True)"

definition run_in_reverse :: par_for where
  "run_in_reverse n = (rev [0 ..< n], True)"

lemma par_contract_examples: "par_contract run_in_order" "par_contract run_in_reverse"
  by (auto simp: par_contract_def run_in_order_def run_in_reverse_def)

text \<open>
  A pass whose iterations own sets of cells of a shared state: what iteration \<open>i\<close> does to a
  cell it owns depends on that cell alone, and it leaves the others as they are, as long as
  the rest of the state is good, which every iteration keeps.
\<close>

locale owned_state =
  fixes step :: "nat \<Rightarrow> 'st \<Rightarrow> 'st"
    and cells :: "'st \<Rightarrow> 's list"
    and good :: "'st \<Rightarrow> bool"
    and admissible :: "nat \<Rightarrow> bool"
    and owns :: "nat \<Rightarrow> nat set"
    and f :: "nat \<Rightarrow> nat \<Rightarrow> 's \<Rightarrow> 's"
  assumes good_step: "good st \<Longrightarrow> admissible i \<Longrightarrow> good (step i st)"
    and length_step: "good st \<Longrightarrow> admissible i \<Longrightarrow> length (cells (step i st)) = length (cells st)"
    and step_outside: "good st \<Longrightarrow> admissible i \<Longrightarrow> j < length (cells st) \<Longrightarrow> j \<notin> owns i \<Longrightarrow> cells (step i st) ! j = cells st ! j"
    and step_inside: "good st \<Longrightarrow> admissible i \<Longrightarrow> j < length (cells st) \<Longrightarrow> j \<in> owns i \<Longrightarrow> cells (step i st) ! j = f i j (cells st ! j)"
begin

lemma fold_good: "good st \<Longrightarrow> \<forall>i \<in> set is. admissible i \<Longrightarrow> good (fold step is st)"
  by (induction "is" arbitrary: st) (simp_all add: good_step)

lemma fold_length: "good st \<Longrightarrow> \<forall>i \<in> set is. admissible i \<Longrightarrow> length (cells (fold step is st)) = length (cells st)"
  by (induction "is" arbitrary: st) (simp_all add: good_step length_step)

lemma fold_outside:
  "good st \<Longrightarrow> \<forall>i \<in> set is. admissible i \<Longrightarrow> j < length (cells st) \<Longrightarrow> \<forall>i \<in> set is. j \<notin> owns i \<Longrightarrow>
    cells (fold step is st) ! j = cells st ! j"
  by (induction "is" arbitrary: st) (simp_all add: good_step length_step step_outside)

lemma fold_inside:
  assumes "good st" and "\<forall>i \<in> set is. admissible i" and "distinct is" and "i \<in> set is" and "j \<in> owns i"
    and "j < length (cells st)" and "\<forall>k \<in> set is. k \<noteq> i \<longrightarrow> j \<notin> owns k"
  shows "cells (fold step is st) ! j = f i j (cells st ! j)"
  using assms
proof (induction "is" arbitrary: st)
  case (Cons k ks)
  have k: "good (step k st)" "length (cells (step k st)) = length (cells st)"
    using Cons.prems(1,2) by (simp_all add: good_step length_step)
  show ?case
  proof (cases "k = i")
    case True
    then have "\<forall>l \<in> set ks. j \<notin> owns l" using Cons.prems(3,7) by auto
    then have "cells (fold step ks (step k st)) ! j = cells (step k st) ! j"
      using Cons.prems(2,6) k by (intro fold_outside) simp_all
    then show ?thesis using True Cons.prems by (simp add: step_inside)
  next
    case False
    then have "cells (fold step ks (step k st)) ! j = f i j (cells (step k st) ! j)"
      using Cons.prems k by (intro Cons.IH) simp_all
    then show ?thesis using False Cons.prems by (simp add: step_outside)
  qed
qed simp

text \<open>The order in which the iterations take effect does not matter.\<close>

lemma fold_any_order:
  assumes "good st" and "\<forall>i \<in> set is. admissible i" and "distinct is" and "distinct ks" and "set is = set ks"
    and "\<And>i k. i \<in> set is \<Longrightarrow> k \<in> set is \<Longrightarrow> i \<noteq> k \<Longrightarrow> owns i \<inter> owns k = {}"
  shows "cells (fold step is st) = cells (fold step ks st)"
proof (rule nth_equalityI)
  have adm: "\<forall>i \<in> set ks. admissible i" using assms(2,5) by simp
  show "length (cells (fold step is st)) = length (cells (fold step ks st))"
    using assms(1,2) adm by (simp add: fold_length)
  fix j assume "j < length (cells (fold step is st))"
  then have j: "j < length (cells st)" using assms(1,2) by (simp add: fold_length)
  show "cells (fold step is st) ! j = cells (fold step ks st) ! j"
  proof (cases "\<exists>i \<in> set is. j \<in> owns i")
    case True
    then obtain i where i: "i \<in> set is" "j \<in> owns i" by blast
    then have alone: "\<forall>k \<in> set is. k \<noteq> i \<longrightarrow> j \<notin> owns k" using assms(6) by blast
    have "cells (fold step is st) ! j = f i j (cells st ! j)"
      using fold_inside [OF assms(1,2,3) i j alone] .
    moreover have "cells (fold step ks st) ! j = f i j (cells st ! j)"
      using fold_inside [OF assms(1) adm assms(4) _ i(2) j] i(1) alone assms(5) by simp
    ultimately show ?thesis by simp
  next
    case False
    then have "\<forall>i \<in> set is. j \<notin> owns i" and "\<forall>i \<in> set ks. j \<notin> owns i" using assms(5) by auto
    then show ?thesis using fold_outside [OF assms(1,2) j] fold_outside [OF assms(1) adm j] by simp
  qed
qed

end

text \<open>The case of a pass whose state is nothing but the array of cells.\<close>

locale owned_cells =
  fixes step :: "nat \<Rightarrow> 's list \<Rightarrow> 's list"
    and owns :: "nat \<Rightarrow> nat set"
    and f :: "nat \<Rightarrow> nat \<Rightarrow> 's \<Rightarrow> 's"
  assumes length_step: "length (step i xs) = length xs"
    and step_outside: "j < length xs \<Longrightarrow> j \<notin> owns i \<Longrightarrow> step i xs ! j = xs ! j"
    and step_inside: "j < length xs \<Longrightarrow> j \<in> owns i \<Longrightarrow> step i xs ! j = f i j (xs ! j)"

sublocale owned_cells \<subseteq> state: owned_state step "\<lambda>xs. xs" "\<lambda>_. True" "\<lambda>_. True" owns f
  by unfold_locales (simp_all add: length_step step_outside step_inside)

context owned_cells
begin

lemma length_fold [simp]: "length (fold step is xs) = length xs"
  using state.fold_length by simp

lemma fold_outside: "j < length xs \<Longrightarrow> (\<forall>i \<in> set is. j \<notin> owns i) \<Longrightarrow> fold step is xs ! j = xs ! j"
  using state.fold_outside by simp

lemma fold_inside:
  assumes "distinct is" and "i \<in> set is" and "j \<in> owns i" and "j < length xs"
    and "\<forall>k \<in> set is. k \<noteq> i \<longrightarrow> j \<notin> owns k"
  shows "fold step is xs ! j = f i j (xs ! j)"
  using state.fold_inside [OF _ _ assms] by simp

lemma fold_any_order:
  assumes "distinct is" and "distinct ks" and "set is = set ks"
    and "\<And>i k. i \<in> set is \<Longrightarrow> k \<in> set is \<Longrightarrow> i \<noteq> k \<Longrightarrow> owns i \<inter> owns k = {}"
  shows "fold step is xs = fold step ks xs"
  using state.fold_any_order [OF _ _ assms] by simp

end

end
