(* ===== verification/Worker_Fast.thy ===== *)
theory Worker_Fast
  imports Worker_Pass Dup_Pool
begin

unbundle bit_operations_syntax

text \<open>
  \<^verbatim>\<open>src/worker/bc_duplicate_worker_fast.c\<close>: the fast hash of a file is the hash of its first
  block, combined by exclusive or with that of its last block when the file holds two. File
  access and XXH3 are parameters.
\<close>

section \<open>The file system as the workers see it\<close>

definition EPERM :: int where "EPERM = 1"
definition EINTR :: int where "EINTR = 4"
definition EIO :: int where "EIO = 5"

text \<open>
  \<open>io_open path noatime\<close> is \<^verbatim>\<open>open\<close> for reading, \<open>io_pread fd count offset\<close> is \<^verbatim>\<open>pread\<close>, and
  \<open>io_read fd k count\<close> is the \<open>k\<close>-th \<^verbatim>\<open>read\<close> on a freshly opened descriptor; an error is its
  \<^verbatim>\<open>errno\<close>.
\<close>

record file_io =
  io_open :: "string \<Rightarrow> bool \<Rightarrow> int + nat"
  io_pread :: "nat \<Rightarrow> nat \<Rightarrow> nat \<Rightarrow> int + u8 list"
  io_read :: "nat \<Rightarrow> nat \<Rightarrow> nat \<Rightarrow> int + u8 list"

definition open_read_only :: "file_io \<Rightarrow> string \<Rightarrow> int + nat" where
  "open_read_only io path =
    (case io_open io path True of
       Inl err \<Rightarrow> if err = EPERM then io_open io path False else Inl err
     | Inr fd \<Rightarrow> Inr fd)"

section \<open>One iteration\<close>

definition FAST_DUAL_MIN_FILE_SIZE :: u64 where
  "FAST_DUAL_MIN_FILE_SIZE = of_nat (FAST_HASH_BLOCK_SIZE * 2)"

definition fast_hash_entry :: "file_io \<Rightarrow> (u8 list \<Rightarrow> u64) \<Rightarrow> file_entry \<Rightarrow> file_entry" where
  "fast_hash_entry io xxh entry =
    (case open_read_only io (absolute_path entry) of
       Inl err \<Rightarrow> entry\<lparr>fast_hash := 0, fast_hash_computed := True, fast_hash_errno := err\<rparr>
     | Inr fd \<Rightarrow>
         (case io_pread io fd FAST_HASH_BLOCK_SIZE 0 of
            Inl err \<Rightarrow> entry\<lparr>fast_hash := 0, fast_hash_computed := True, fast_hash_errno := err\<rparr>
          | Inr prefix \<Rightarrow>
              (let prefix_hash = xxh prefix;
                   combined_hash =
                     (if file_size entry \<ge> FAST_DUAL_MIN_FILE_SIZE then
                        (case io_pread io fd FAST_HASH_BLOCK_SIZE
                                (unat (file_size entry - of_nat FAST_HASH_BLOCK_SIZE)) of
                           Inl _ \<Rightarrow> prefix_hash
                         | Inr suffix \<Rightarrow> if suffix \<noteq> [] then prefix_hash XOR xxh suffix else prefix_hash)
                      else prefix_hash) in
               entry\<lparr>fast_hash := combined_hash, fast_hash_computed := True, fast_hash_errno := 0\<rparr>)))"

text \<open>
  \<open>stop i\<close> is what the signal handler answers when iteration \<open>i\<close> asks; an iteration that is
  told to stop leaves its entry as it is.
\<close>

definition fast_iteration ::
  "file_io \<Rightarrow> (u8 list \<Rightarrow> u64) \<Rightarrow> (nat \<Rightarrow> bool) \<Rightarrow> nat list \<Rightarrow> nat \<Rightarrow> file_entry list \<Rightarrow> file_entry list" where
  "fast_iteration io xxh stop ixs iteration_index entries =
    (if stop iteration_index then entries
     else (let entry_index = ixs ! iteration_index in
           entries[entry_index := fast_hash_entry io xxh (entries ! entry_index)]))"

interpretation fast_cells: owned_cells
  "fast_iteration io xxh stop ixs" "\<lambda>i. {ixs ! i}" "\<lambda>i j e. if stop i then e else fast_hash_entry io xxh e"
  for io xxh stop ixs
  by unfold_locales (auto simp: fast_iteration_def Let_def)

section \<open>The pass\<close>

text \<open>The result: success, the entries, the number of files hashed and the pool.\<close>

definition worker_fast_pass ::
  "nat sorter \<Rightarrow> par_for \<Rightarrow> file_io \<Rightarrow> (u8 list \<Rightarrow> u64) \<Rightarrow> (nat \<Rightarrow> bool) \<Rightarrow> pool
    \<Rightarrow> file_entry list \<Rightarrow> group list \<Rightarrow> bool \<times> file_entry list \<times> nat \<times> pool" where
  "worker_fast_pass srt par io xxh stop m entries size_groups =
    (let total = total_candidates size_groups in
     if total = 0 then (True, entries, 0, m)
     else
       (case pool_allocate m of
          (None, m1) \<Rightarrow> (False, entries, 0, m1)
        | (Some b, m1) \<Rightarrow>
            (let ixs = sort_indices_by_size_desc srt entries (candidate_indices size_groups);
                 (order, dispatch_ok) = par total;
                 entries' = fold (fast_iteration io xxh stop ixs) order entries;
                 m2 = pool_free b m1 in
             if \<not> dispatch_ok then (False, entries', 0, m2) else (True, entries', total, m2))))"

lemma worker_fast_pass_holds:
  "worker_fast_pass srt par io xxh stop m es gs = (ok, es', k, m') \<Longrightarrow> holds m {#} m'"
  by (auto simp: worker_fast_pass_def Let_def split: if_splits prod.splits option.splits
      dest: pool_allocate_holds intro: pool_free_holds)

text \<open>Which cells the pass hashes when every iteration runs, whatever the order.\<close>

lemma worker_fast_pass_nth:
  assumes "worker_fast_pass srt par io xxh stop m es gs = (True, es', k, m')"
    and "sort_contract srt" and "par_contract par" and "groups_laid_out (length es) gs"
    and "\<And>i. \<not> stop i"
  shows "length es' = length es" and "k = total_candidates gs"
    and "j < length es \<Longrightarrow> es' ! j = (if j \<in> set (candidate_indices gs) then fast_hash_entry io xxh (es ! j) else es ! j)"
proof -
  let ?c = "candidate_indices gs" and ?t = "total_candidates gs"
  let ?ixs = "sort_indices_by_size_desc srt es ?c"
  have perm: "mset ?ixs = mset ?c" using assms(2) by (rule mset_sort_indices)
  then have len: "length ?ixs = ?t" by (metis length_candidate_indices size_mset)
  have dist: "distinct ?ixs" and set: "set ?ixs = set ?c"
    using candidate_indices_distinct(1) [OF assms(4)] perm by (metis mset_eq_imp_distinct_iff, metis set_mset_mset)
  have "length es' = length es \<and> k = ?t \<and> (j < length es \<longrightarrow>
      es' ! j = (if j \<in> set ?c then fast_hash_entry io xxh (es ! j) else es ! j))" for j
  proof (cases "?t = 0")
    case True
    then show ?thesis using assms(1) length_candidate_indices [of gs] by (auto simp: worker_fast_pass_def Let_def)
  next
    case False
    obtain ord where run: "par ?t = (ord, True)"
      and es': "es' = fold (fast_iteration io xxh stop ?ixs) ord es" and k: "k = ?t"
      using assms(1) False by (auto simp: worker_fast_pass_def Let_def split: prod.splits option.splits if_splits)
    note all = par_contract_run [OF assms(3) run]
    have "es' ! j = (if j \<in> set ?c then fast_hash_entry io xxh (es ! j) else es ! j)" if j: "j < length es"
    proof (cases "j \<in> set ?c")
      case True
      then obtain i where i: "i < ?t" "?ixs ! i = j" using set len by (metis in_set_conv_nth)
      then have "\<forall>l \<in> set ord. l \<noteq> i \<longrightarrow> j \<notin> {?ixs ! l}"
        using dist len all(2) by (auto simp: nth_eq_iff_index_eq)
      then show ?thesis
        using fast_cells.fold_inside [where io = io and xxh = xxh and stop = stop and ixs = ?ixs] all i j True assms(5) by (auto simp: es')
    next
      case False
      then have "\<forall>l \<in> set ord. j \<notin> {?ixs ! l}" using set len all(2) by auto
      then show ?thesis using fast_cells.fold_outside [where io = io and xxh = xxh and stop = stop and ixs = ?ixs, OF j] False by (simp add: es')
    qed
    then show ?thesis by (simp add: es' k)
  qed
  then show "length es' = length es" and "k = ?t"
    and "j < length es \<Longrightarrow> es' ! j = (if j \<in> set ?c then fast_hash_entry io xxh (es ! j) else es ! j)"
    by blast+
qed

text \<open>A pass whose every iteration is told to stop.\<close>

lemma worker_fast_pass_stopped:
  assumes "worker_fast_pass srt par io xxh stop m es gs = (True, es', k, m')" and "\<And>i. stop i"
  shows "es' = es"
proof -
  have "fold (fast_iteration io xxh stop ixs) ord es = es" for ixs ord
    using assms(2) by (induction ord) (simp_all add: fast_iteration_def)
  then show ?thesis
    using assms(1) by (auto simp: worker_fast_pass_def Let_def split: if_splits option.splits prod.splits)
qed

lemma members_map_cells:
  assumes "length es' = length es" and "groups_laid_out (length es) gs" and "g \<in> set gs"
    and "\<And>j. j < length es \<Longrightarrow> j \<in> set (candidate_indices gs) \<Longrightarrow> es' ! j = f (es ! j)"
  shows "members es' g = map f (members es g)"
proof -
  have le: "start_index g + entry_count g \<le> length es"
    using groups_laid_out_in [OF assms(2,3)] .
  then show ?thesis
    unfolding members_def using assms(1,3,4) candidate_indices_cover [OF assms(3)]
    by (intro nth_equalityI) (auto simp: nth_segment)
qed

lemma worker_fast_pass_members:
  assumes "worker_fast_pass srt par io xxh stop m es gs = (True, es', k, m')"
    and "sort_contract srt" and "par_contract par" and "groups_laid_out (length es) gs"
    and "\<And>i. \<not> stop i"
  shows "map (members es') gs = map (map (fast_hash_entry io xxh)) (map (members es) gs)"
  using worker_fast_pass_nth [OF assms] assms(4)
  by (auto intro!: members_map_cells)


section \<open>Files that keep still\<close>

text \<open>
  A file serves a content when it can be opened and reads of it return that content: a
  positioned read the bytes at its offset, the \<open>k\<close>-th sequential read the \<open>k\<close>-th buffer full,
  with a short read only at the end, as for regular files.
\<close>

definition serves :: "file_io \<Rightarrow> string \<Rightarrow> u8 list \<Rightarrow> bool" where
  "serves io path content \<longleftrightarrow>
    (\<exists>fd. open_read_only io path = Inr fd \<and>
      (\<forall>n off. io_pread io fd n off = Inr (take n (drop off content))) \<and>
      (\<forall>k n. io_read io fd k n = Inr (take n (drop (k * n) content))))"

definition fast_digest :: "(u8 list \<Rightarrow> u64) \<Rightarrow> u8 list \<Rightarrow> u64" where
  "fast_digest xxh content =
    (if length content \<ge> 2 * FAST_HASH_BLOCK_SIZE
     then xxh (take FAST_HASH_BLOCK_SIZE content) XOR xxh (drop (length content - FAST_HASH_BLOCK_SIZE) content)
     else xxh (take FAST_HASH_BLOCK_SIZE content))"

lemma fast_hash_entry_content:
  assumes "serves io (absolute_path e) content" and "unat (file_size e) = length content"
  shows "fast_hash_entry io xxh e =
    e\<lparr>fast_hash := fast_digest xxh content, fast_hash_computed := True, fast_hash_errno := 0\<rparr>"
proof -
  obtain fd where fd: "open_read_only io (absolute_path e) = Inr fd"
    "\<And>n off. io_pread io fd n off = Inr (take n (drop off content))"
    using assms(1) by (auto simp: serves_def)
  have dual: "file_size e \<ge> FAST_DUAL_MIN_FILE_SIZE \<longleftrightarrow> length content \<ge> 2 * FAST_HASH_BLOCK_SIZE"
    using assms(2) by (simp add: FAST_DUAL_MIN_FILE_SIZE_def FAST_HASH_BLOCK_SIZE_def word_le_nat_alt)
  show ?thesis
  proof (cases "file_size e \<ge> FAST_DUAL_MIN_FILE_SIZE")
    case False
    then have "\<not> length content \<ge> 2 * FAST_HASH_BLOCK_SIZE" using dual by simp
    with False show ?thesis
      by (simp add: fast_hash_entry_def fast_digest_def fd Let_def)
  next
    case True
    then have big: "length content \<ge> 2 * FAST_HASH_BLOCK_SIZE" using dual by simp
    have off: "unat (file_size e - of_nat FAST_HASH_BLOCK_SIZE) = length content - FAST_HASH_BLOCK_SIZE"
      using big assms(2) by (simp add: FAST_HASH_BLOCK_SIZE_def unat_sub word_le_nat_alt)
    have "take FAST_HASH_BLOCK_SIZE (drop (length content - FAST_HASH_BLOCK_SIZE) content)
        = drop (length content - FAST_HASH_BLOCK_SIZE) content" using big by simp
    moreover have "drop (length content - FAST_HASH_BLOCK_SIZE) content \<noteq> []"
      using big by (simp add: FAST_HASH_BLOCK_SIZE_def)
    ultimately show ?thesis using True big
      by (simp add: fast_hash_entry_def fast_digest_def fd Let_def off)
  qed
qed

text \<open>
  What a path yields: an error number when it cannot be opened, or else a content. The block hash
  of a path that cannot be opened is zero.
\<close>

type_synonym file_answer = "int + u8 list"

definition yields :: "file_io \<Rightarrow> string \<Rightarrow> file_answer \<Rightarrow> bool" where
  "yields io path ans \<longleftrightarrow>
    (case ans of Inl err \<Rightarrow> open_read_only io path = Inl err \<and> 0 < err | Inr content \<Rightarrow> serves io path content)"

definition has_length :: "file_answer \<Rightarrow> nat \<Rightarrow> bool" where
  "has_length ans n \<longleftrightarrow> (case ans of Inl _ \<Rightarrow> True | Inr content \<Rightarrow> n = length content)"

definition fast_answer :: "(u8 list \<Rightarrow> u64) \<Rightarrow> file_answer \<Rightarrow> u64" where
  "fast_answer xxh ans = (case ans of Inl _ \<Rightarrow> 0 | Inr content \<Rightarrow> fast_digest xxh content)"

lemma yields_simps [simp]:
  "yields io path (Inl err) \<longleftrightarrow> open_read_only io path = Inl err \<and> 0 < err" "yields io path (Inr content) \<longleftrightarrow> serves io path content"
  "has_length (Inl err) n" "has_length (Inr content) n \<longleftrightarrow> n = length content"
  "fast_answer xxh (Inl err) = 0" "fast_answer xxh (Inr content) = fast_digest xxh content"
  by (simp_all add: yields_def has_length_def fast_answer_def)

lemma fast_hash_entry_answer:
  assumes "yields io (absolute_path e) ans" and "has_length ans (unat (file_size e))"
  shows "fast_hash_entry io xxh e =
    e\<lparr>fast_hash := fast_answer xxh ans, fast_hash_computed := True, fast_hash_errno := case_sum id (\<lambda>_. 0) ans\<rparr>"
proof (cases ans)
  case (Inl err)
  then show ?thesis using assms(1) by (simp add: fast_hash_entry_def)
next
  case (Inr content)
  then show ?thesis using fast_hash_entry_content [of io e content xxh] assms by simp
qed

section \<open>Properties\<close>

text \<open>C21
  When every iteration runs, the fast pass hashes exactly the members of the groups, each as
  a function of the entry alone, in whatever order the parallel loop takes them, leaves all
  other entries as they are, reports the number of candidates and frees what it allocated.
\<close>

theorem fast_pass_hashes_every_candidate:
  assumes "sort_contract srt" and "par_contract par" and "groups_laid_out (length es) gs"
    and "\<And>i. \<not> stop i"
    and "worker_fast_pass srt par io xxh stop m es gs = (True, es', k, m')"
  shows "map (members es') gs = map (map (fast_hash_entry io xxh)) (map (members es) gs) \<and>
    (\<forall>j < length es. j \<notin> set (candidate_indices gs) \<longrightarrow> es' ! j = es ! j) \<and>
    length es' = length es \<and> k = total_candidates gs \<and> holds m {#} m'"
  using worker_fast_pass_nth [OF assms(5,1-4)] worker_fast_pass_members [OF assms(5,1-4)]
    worker_fast_pass_holds [OF assms(5)] by simp

text \<open>C22
  Two runs of the fast pass on the same entries agree, however their parallel loops order the
  iterations and whatever subset of iterations a signal stops.
\<close>

theorem fast_pass_order_independent:
  assumes "sort_contract srt" and "par_contract par1" and "par_contract par2"
    and "groups_laid_out (length es) gs"
    and "worker_fast_pass srt par1 io xxh stop m es gs = (True, es1, k1, m1)"
    and "worker_fast_pass srt par2 io xxh stop m es gs = (True, es2, k2, m2)"
  shows "es1 = es2 \<and> k1 = k2"
proof (cases "total_candidates gs = 0")
  case True
  then show ?thesis using assms(5,6) by (simp add: worker_fast_pass_def)
next
  case False
  let ?t = "total_candidates gs" and ?ixs = "sort_indices_by_size_desc srt es (candidate_indices gs)"
  obtain ord1 where run1: "par1 ?t = (ord1, True)" and 1: "es1 = fold (fast_iteration io xxh stop ?ixs) ord1 es" "k1 = ?t"
    using assms(5) False by (auto simp: worker_fast_pass_def Let_def split: prod.splits option.splits if_splits)
  obtain ord2 where run2: "par2 ?t = (ord2, True)" and 2: "es2 = fold (fast_iteration io xxh stop ?ixs) ord2 es" "k2 = ?t"
    using assms(6) False by (auto simp: worker_fast_pass_def Let_def split: prod.splits option.splits if_splits)
  note all1 = par_contract_run [OF assms(2) run1] and all2 = par_contract_run [OF assms(3) run2]
  have perm: "mset ?ixs = mset (candidate_indices gs)" using assms(1) by (rule mset_sort_indices)
  then have "distinct ?ixs" and "length ?ixs = ?t"
    using candidate_indices_distinct(1) [OF assms(4)]
    by (metis mset_eq_imp_distinct_iff, metis length_candidate_indices size_mset)
  then have "{?ixs ! i} \<inter> {?ixs ! l} = {}" if "i \<in> set ord1" "l \<in> set ord1" "i \<noteq> l" for i l
    using that all1(2) by (auto simp: nth_eq_iff_index_eq)
  then have "fold (fast_iteration io xxh stop ?ixs) ord1 es = fold (fast_iteration io xxh stop ?ixs) ord2 es"
    using fast_cells.fold_any_order [of ord1 ord2 ?ixs] all1 all2 by metis
  then show ?thesis using 1 2 by simp
qed

text \<open>C23
  The fast hash of an unchanging file is a function of its content: of its first block below
  two blocks, of its first and its last block from two blocks on. The fast hash of a file that
  cannot be opened is zero and its error is kept.
\<close>

theorem fast_hash_is_content_digest:
  assumes "yields io (absolute_path e) ans" and "has_length ans (unat (file_size e))"
  shows "fast_hash (fast_hash_entry io xxh e) = (case ans of Inl err \<Rightarrow> 0 | Inr content \<Rightarrow> fast_digest xxh content) \<and>
    fast_hash_computed (fast_hash_entry io xxh e) \<and>
    fast_hash_errno (fast_hash_entry io xxh e) = (case ans of Inl err \<Rightarrow> err | Inr content \<Rightarrow> 0)"
  by (cases ans) (simp_all add: fast_hash_entry_answer [OF assms])

text \<open>A file system in which every path holds the same few bytes.\<close>

definition sample_io :: "u8 list \<Rightarrow> file_io" where
  "sample_io content =
    \<lparr>io_open = (\<lambda>path noatime. Inr 3), io_pread = (\<lambda>fd n off. Inr (take n (drop off content))),
     io_read = (\<lambda>fd k n. Inr (take n (drop (k * n) content)))\<rparr>"

lemma sample_io_serves: "serves (sample_io content) path content"
  by (simp add: serves_def sample_io_def open_read_only_def)

definition sample_hash :: "u8 list \<Rightarrow> u64" where
  "sample_hash bs = of_nat (sum_list (map unat bs))"

definition sample_pair :: "file_entry list" where
  "sample_pair = [new_entry ''/a'' 2 1 100, new_entry ''/b'' 2 1 101]"

definition pair_group :: group where
  "pair_group = \<lparr>start_index = 0, entry_count = 2, group_file_size = 2\<rparr>"

lemma pair_group_laid_out: "groups_laid_out (length sample_pair) [pair_group]"
  by (simp add: groups_laid_out_def pair_group_def sample_pair_def span_def)

lemma sample_pass_runs:
  assumes "snd (par 2)"
  shows "\<exists>es' k m'. worker_fast_pass insertion_sort par io xxh stop granting_pool sample_pair [pair_group]
    = (True, es', k, m')"
  using assms pool_allocate_granted [OF granting_pool_grants]
  by (auto simp: worker_fast_pass_def total_candidates_def pair_group_def Let_def split: prod.splits)

lemma run_in_order_ok: "snd (run_in_order n)" and run_in_reverse_ok: "snd (run_in_reverse n)"
  by (simp_all add: run_in_order_def run_in_reverse_def)

theorem fast_pass_hashes_every_candidate_witness:
  "\<exists>es' k m'. worker_fast_pass insertion_sort run_in_reverse (sample_io [5, 7]) sample_hash (\<lambda>_. False)
      granting_pool sample_pair [pair_group] = (True, es', k, m') \<and> k = 2 \<and>
    map fast_hash (members es' pair_group) = [12, 12]"
proof -
  obtain es' k m' where run: "worker_fast_pass insertion_sort run_in_reverse (sample_io [5, 7]) sample_hash (\<lambda>_. False)
      granting_pool sample_pair [pair_group] = (True, es', k, m')"
    using sample_pass_runs [of run_in_reverse, OF run_in_reverse_ok] by blast
  have "map (members es') [pair_group] =
      map (map (fast_hash_entry (sample_io [5, 7]) sample_hash)) (map (members sample_pair) [pair_group])"
    and k: "k = total_candidates [pair_group]"
    using fast_pass_hashes_every_candidate [OF sort_contract_insertion_sort par_contract_examples(2)
        pair_group_laid_out _ run] by simp_all
  then have "members es' pair_group = map (fast_hash_entry (sample_io [5, 7]) sample_hash) sample_pair"
    by (simp add: members_def pair_group_def sample_pair_def segment_def)
  moreover have "map fast_hash (map (fast_hash_entry (sample_io [5, 7]) sample_hash) sample_pair) = [12, 12]"
    by (simp add: sample_pair_def fast_hash_entry_def sample_io_def open_read_only_def sample_hash_def
        FAST_DUAL_MIN_FILE_SIZE_def FAST_HASH_BLOCK_SIZE_def new_entry_def Let_def)
  ultimately show ?thesis using run k by (simp add: total_candidates_def pair_group_def)
qed

theorem fast_pass_order_independent_witness:
  "\<exists>es' k m1 m2.
    worker_fast_pass insertion_sort run_in_order (sample_io [5, 7]) sample_hash (\<lambda>i. i = 1)
      granting_pool sample_pair [pair_group] = (True, es', k, m1) \<and>
    worker_fast_pass insertion_sort run_in_reverse (sample_io [5, 7]) sample_hash (\<lambda>i. i = 1)
      granting_pool sample_pair [pair_group] = (True, es', k, m2)"
proof -
  obtain es1 k1 m1 where run1: "worker_fast_pass insertion_sort run_in_order (sample_io [5, 7]) sample_hash (\<lambda>i. i = 1)
      granting_pool sample_pair [pair_group] = (True, es1, k1, m1)"
    using sample_pass_runs [of run_in_order, OF run_in_order_ok] by blast
  obtain es2 k2 m2 where run2: "worker_fast_pass insertion_sort run_in_reverse (sample_io [5, 7]) sample_hash (\<lambda>i. i = 1)
      granting_pool sample_pair [pair_group] = (True, es2, k2, m2)"
    using sample_pass_runs [of run_in_reverse, OF run_in_reverse_ok] by blast
  from fast_pass_order_independent [OF sort_contract_insertion_sort par_contract_examples(1,2)
      pair_group_laid_out run1 run2] run1 run2
  show ?thesis by metis
qed

theorem fast_hash_is_content_digest_witness:
  "fast_hash (fast_hash_entry (sample_io [5, 7]) sample_hash (new_entry ''/a'' 2 1 100)) = 12"
proof -
  have "yields (sample_io [5, 7]) (absolute_path (new_entry ''/a'' 2 1 100)) (Inr [5, 7])"
    and "has_length (Inr [5, 7]) (unat (file_size (new_entry ''/a'' 2 1 100)))"
    by (simp_all add: sample_io_serves new_entry_def)
  from fast_hash_is_content_digest [OF this, of sample_hash] show ?thesis
    by (simp add: fast_digest_def FAST_HASH_BLOCK_SIZE_def sample_hash_def)
qed

end
