(* ===== verification/Reader_Sync.thy ===== *)
theory Reader_Sync
  imports Worker_Fast
begin

text \<open>
  \<^verbatim>\<open>src/worker/bc_duplicate_worker_reader.c\<close>: a file is opened and read in buffers of 128 KiB,
  each handed to a consumer. The loop may run forever (a read that is interrupted every
  time, a file that never ends), so it is a partial function: \<open>None\<close> is not returning.
\<close>

section \<open>Definitions\<close>

definition STREAM_BUFFER_SIZE :: nat where
  "STREAM_BUFFER_SIZE = 128 * 1024"

type_synonym 's consumer = "'s \<Rightarrow> u8 list \<Rightarrow> bool \<times> 's"

text \<open>\<open>rd k\<close> is the result of the \<open>k\<close>-th \<^verbatim>\<open>read\<close>; the result is success, \<^verbatim>\<open>errno\<close> and the consumer's state.\<close>

partial_function (option) read_loop ::
  "(nat \<Rightarrow> int + u8 list) \<Rightarrow> 's consumer \<Rightarrow> nat \<Rightarrow> 's \<Rightarrow> (bool \<times> int \<times> 's) option" where
  "read_loop rd consume k st =
    (case rd k of
       Inl err \<Rightarrow> if err = EINTR then read_loop rd consume (Suc k) st else Some (False, err, st)
     | Inr chunk \<Rightarrow>
         if chunk = [] then Some (True, 0, st)
         else (case consume st chunk of (ok, st') \<Rightarrow>
                 if \<not> ok then Some (False, EIO, st')
                 else if length chunk < STREAM_BUFFER_SIZE then Some (True, 0, st')
                 else read_loop rd consume (Suc k) st'))"

text \<open>The size hint only selects an advice to the kernel, which has no effect on the result.\<close>

definition reader_consume_file ::
  "file_io \<Rightarrow> string \<Rightarrow> u64 \<Rightarrow> 's consumer \<Rightarrow> 's \<Rightarrow> (bool \<times> int \<times> 's) option" where
  "reader_consume_file io path file_size_hint consume st =
    (case open_read_only io path of
       Inl err \<Rightarrow> Some (False, err, st)
     | Inr fd \<Rightarrow> read_loop (\<lambda>k. io_read io fd k STREAM_BUFFER_SIZE) consume 0 st)"

section \<open>When the loop returns\<close>

definition last_read :: "int + u8 list \<Rightarrow> bool" where
  "last_read r = (case r of Inl err \<Rightarrow> err \<noteq> EINTR | Inr chunk \<Rightarrow> length chunk < STREAM_BUFFER_SIZE)"

lemma read_loop_returns: "k \<le> n \<Longrightarrow> last_read (rd n) \<Longrightarrow> \<exists>r. read_loop rd consume k st = Some r"
proof (induction "n - k" arbitrary: k st)
  case 0
  then have "k = n" by simp
  with 0 show ?case
    by (subst read_loop.simps) (auto simp: last_read_def split: sum.splits prod.splits)
next
  case (Suc d)
  then have "\<exists>r. read_loop rd consume (Suc k) st' = Some r" for st'
    by (intro Suc.hyps(1)) auto
  then show ?case
    by (subst read_loop.simps) (auto split: sum.splits prod.splits)
qed

section \<open>What the consumer is given\<close>

text \<open>A consumer fed a list of chunks stops at the first it refuses.\<close>

fun feed :: "'s consumer \<Rightarrow> 's \<Rightarrow> u8 list list \<Rightarrow> bool \<times> 's" where
  "feed consume st [] = (True, st)"
| "feed consume st (c # cs) =
    (case consume st c of (ok, st') \<Rightarrow> if ok then feed consume st' cs else (False, st'))"

lemma read_loop_content:
  assumes "\<And>k. rd k = Inr (take STREAM_BUFFER_SIZE (drop (k * STREAM_BUFFER_SIZE) content))"
  shows "\<exists>chunks. concat chunks = drop (k * STREAM_BUFFER_SIZE) content \<and> [] \<notin> set chunks \<and>
    read_loop rd consume k st =
      Some (case feed consume st chunks of (ok, st') \<Rightarrow> (ok, if ok then 0 else EIO, st'))"
proof (induction "length (drop (k * STREAM_BUFFER_SIZE) content)" arbitrary: k st rule: less_induct)
  case less
  let ?rest = "drop (k * STREAM_BUFFER_SIZE) content"
  have pos: "0 < STREAM_BUFFER_SIZE" by (simp add: STREAM_BUFFER_SIZE_def)
  have rd: "rd k = Inr (take STREAM_BUFFER_SIZE ?rest)" by (rule assms)
  show ?case
  proof (cases "?rest = []")
    case True
    then have "read_loop rd consume k st = Some (True, 0, st)"
      by (subst read_loop.simps) (simp add: rd)
    then show ?thesis using True by (intro exI [of _ "[]"]) simp
  next
    case False
    let ?c = "take STREAM_BUFFER_SIZE ?rest"
    have ne: "?c \<noteq> []" using False pos by simp
    obtain ok st1 where cons: "consume st ?c = (ok, st1)" by (cases "consume st ?c")
    have next_rest: "drop (Suc k * STREAM_BUFFER_SIZE) content = drop STREAM_BUFFER_SIZE ?rest"
      by (simp add: add.commute)
    have split: "?c @ drop (Suc k * STREAM_BUFFER_SIZE) content = ?rest"
      unfolding next_rest by (rule append_take_drop_id)
    have shorter: "length (drop (Suc k * STREAM_BUFFER_SIZE) content) < length ?rest"
      unfolding next_rest using False pos by simp
    from less [OF shorter, of st1] obtain cs where
      cs: "concat cs = drop (Suc k * STREAM_BUFFER_SIZE) content" "[] \<notin> set cs"
      and run: "read_loop rd consume (Suc k) st1 =
        Some (case feed consume st1 cs of (ok, st') \<Rightarrow> (ok, if ok then 0 else EIO, st'))" by blast
    have "read_loop rd consume k st =
        Some (case feed consume st (?c # cs) of (ok, st') \<Rightarrow> (ok, if ok then 0 else EIO, st'))"
    proof (cases "ok \<and> length ?c < STREAM_BUFFER_SIZE")
      case True
      then have "drop (Suc k * STREAM_BUFFER_SIZE) content = []"
        unfolding next_rest by auto
      then have "cs = []" using cs by (cases cs) auto
      then show ?thesis using True ne cons by (subst read_loop.simps) (simp add: rd)
    next
      case no: False
      then show ?thesis using ne cons run
        by (subst read_loop.simps) (auto simp: rd split: prod.splits)
    qed
    then show ?thesis using cs split ne by (intro exI [of _ "?c # cs"]) simp
  qed
qed

lemma reader_delivers:
  assumes "serves io path content"
  shows "\<exists>chunks. concat chunks = content \<and> [] \<notin> set chunks \<and>
    reader_consume_file io path hint consume st =
      Some (case feed consume st chunks of (ok, st') \<Rightarrow> (ok, if ok then 0 else EIO, st'))"
proof -
  obtain fd where fd: "open_read_only io path = Inr fd"
    and rd: "\<And>k n. io_read io fd k n = Inr (take n (drop (k * n) content))"
    using assms by (auto simp: serves_def)
  show ?thesis
    using read_loop_content [of "\<lambda>k. io_read io fd k STREAM_BUFFER_SIZE" content 0 consume st] rd
    by (simp add: reader_consume_file_def fd)
qed

text \<open>
  The streaming reader returns whenever some read ends the file or fails with an error other
  than an interruption; only endless interruptions or a file without end keep it.
\<close>

lemma consume_file_returns:
  assumes "open_read_only io path = Inr fd"
    and "last_read (io_read io fd n STREAM_BUFFER_SIZE)"
  shows "\<exists>ok err st'. reader_consume_file io path hint consume st = Some (ok, err, st')"
  using read_loop_returns [of 0 n "\<lambda>k. io_read io fd k STREAM_BUFFER_SIZE" consume st] assms
  by (auto simp: reader_consume_file_def)

section \<open>Properties\<close>

text \<open>C24
  Reading a file that keeps still returns, and hands its consumer exactly the bytes of the
  file, in order, in non-empty chunks; it reports success when the consumer took every
  chunk and an input/output error when it refused one.
\<close>

theorem consume_file_delivers_content:
  assumes "serves io path content"
  shows "\<exists>chunks. concat chunks = content \<and> [] \<notin> set chunks \<and>
    reader_consume_file io path hint consume st =
      Some (case feed consume st chunks of (ok, st') \<Rightarrow> (ok, if ok then 0 else EIO, st'))"
  using reader_delivers [OF assms] .

definition sample_consumer :: "u8 list consumer" where
  "sample_consumer st chunk = (True, st @ chunk)"

theorem consume_file_delivers_content_witness:
  "reader_consume_file (sample_io [1, 2, 3]) ''/a'' 3 sample_consumer [] = Some (True, 0, [1, 2, 3])"
proof -
  have feed: "feed sample_consumer st cs = (True, st @ concat cs)" for st cs
    by (induction cs arbitrary: st) (simp_all add: sample_consumer_def)
  from consume_file_delivers_content [OF sample_io_serves [of "[1, 2, 3]" "''/a''"], of 3 sample_consumer "[]"]
  show ?thesis by (auto simp: feed)
qed

end
