(* ===== verification/Reader_Ring.thy ===== *)
theory Reader_Ring
  imports Reader_Sync
begin

text \<open>
  \<^verbatim>\<open>src/worker/bc_duplicate_worker_batch_uring.c\<close>: a batch of files is read through an io_uring in
  chunks of 32 slots. A file that fits in a slot is a chain of four linked operations (open,
  read, probe for growth, close); the completions of different slots interleave freely. What
  does not fit, or what the ring could not answer, is read by the synchronous reader. The
  ring of the kernel is a parameter: a function from the submission to what the waits return.
\<close>

section \<open>Definitions\<close>

definition READER_RING_SLOT_COUNT :: nat where
  "READER_RING_SLOT_COUNT = 32"

definition READER_RING_SLOT_BUFFER_BYTES :: u64 where
  "READER_RING_SLOT_BUFFER_BYTES = 256 * 1024"

definition RING_QUEUE_DEPTH :: nat where
  "RING_QUEUE_DEPTH = READER_RING_SLOT_COUNT * 5"

definition RING_OP_OPENAT :: "32 word" where "RING_OP_OPENAT = 0"
definition RING_OP_READ :: "32 word" where "RING_OP_READ = 1"
definition RING_OP_PROBE :: "32 word" where "RING_OP_PROBE = 2"
definition RING_OP_CLOSE :: "32 word" where "RING_OP_CLOSE = 3"

definition ECANCELED :: int where "ECANCELED = 125"

text \<open>The context is the state of the item's own consumer.\<close>

record 's batch_item =
  item_path :: string
  item_size :: u64
  consumer_context :: 's
  success :: bool
  errno_value :: int

datatype operation = Unprepared
  | Openat_direct string nat
  | Read_direct nat nat nat
  | Close_direct nat

record sqe =
  sqe_operation :: operation
  sqe_link :: bool
  sqe_user_data :: u64

text \<open>
  The queue of submissions not yet handed to the kernel is part of the ring, and outlives
  a call; \<^verbatim>\<open>slot_growth_probes\<close> is never read and left out.
\<close>

record reader_ring =
  ring_ready :: bool
  sq_entries :: "sqe list"
  slot_buffers :: "u8 list list"

definition encode_user_data :: "32 word \<Rightarrow> 32 word \<Rightarrow> u64" where
  "encode_user_data slot_index operation_code = push_bit 8 (ucast slot_index) OR ucast operation_code"

definition decode_slot :: "u64 \<Rightarrow> 32 word" where
  "decode_slot user_data = ucast (drop_bit 8 user_data)"

definition decode_operation :: "u64 \<Rightarrow> 32 word" where
  "decode_operation user_data = ucast (user_data AND 0xFF)"

definition fits_in_slot :: "'s batch_item \<Rightarrow> bool" where
  "fits_in_slot item \<longleftrightarrow> item_size item > 0 \<and> item_size item \<le> READER_RING_SLOT_BUFFER_BYTES"

definition ring_init :: "int \<Rightarrow> int \<Rightarrow> bool \<times> reader_ring" where
  "ring_init queue_status register_status =
    (let fresh = \<lparr>ring_ready = False, sq_entries = [], slot_buffers = replicate READER_RING_SLOT_COUNT []\<rparr> in
     if queue_status < 0 then (False, fresh)
     else if register_status < 0 then (False, fresh)
     else (True, fresh\<lparr>ring_ready := True\<rparr>))"

definition ring_destroy :: "reader_ring \<Rightarrow> reader_ring" where
  "ring_destroy r = (if ring_ready r then r\<lparr>ring_ready := False\<rparr> else r)"

subsection \<open>Submission\<close>

definition get_sqe :: "reader_ring \<Rightarrow> nat option \<times> reader_ring" where
  "get_sqe r =
    (if length (sq_entries r) < RING_QUEUE_DEPTH
     then (Some (length (sq_entries r)),
           r\<lparr>sq_entries := sq_entries r @ [\<lparr>sqe_operation = Unprepared, sqe_link = False, sqe_user_data = 0\<rparr>]\<rparr>)
     else (None, r))"

definition prepare :: "nat \<Rightarrow> sqe \<Rightarrow> reader_ring \<Rightarrow> reader_ring" where
  "prepare position entry r = r\<lparr>sq_entries := (sq_entries r)[position := entry]\<rparr>"

definition open_sqe :: "nat \<Rightarrow> 's batch_item \<Rightarrow> sqe" where
  "open_sqe slot item = \<lparr>sqe_operation = Openat_direct (item_path item) slot, sqe_link = True,
    sqe_user_data = encode_user_data (of_nat slot) RING_OP_OPENAT\<rparr>"

definition read_sqe :: "nat \<Rightarrow> 's batch_item \<Rightarrow> sqe" where
  "read_sqe slot item = \<lparr>sqe_operation = Read_direct slot (unat (ucast (item_size item) :: 32 word)) 0, sqe_link = True,
    sqe_user_data = encode_user_data (of_nat slot) RING_OP_READ\<rparr>"

definition probe_sqe :: "nat \<Rightarrow> 's batch_item \<Rightarrow> sqe" where
  "probe_sqe slot item = \<lparr>sqe_operation = Read_direct slot 1 (unat (item_size item)), sqe_link = True,
    sqe_user_data = encode_user_data (of_nat slot) RING_OP_PROBE\<rparr>"

definition close_sqe :: "nat \<Rightarrow> sqe" where
  "close_sqe slot = \<lparr>sqe_operation = Close_direct slot, sqe_link = False,
    sqe_user_data = encode_user_data (of_nat slot) RING_OP_CLOSE\<rparr>"

definition submit_slot :: "reader_ring \<Rightarrow> nat \<Rightarrow> 's batch_item \<Rightarrow> bool \<times> reader_ring" where
  "submit_slot r slot item =
    (let (o1, r1) = get_sqe r; (o2, r2) = get_sqe r1; (o3, r3) = get_sqe r2; (o4, r4) = get_sqe r3 in
     case (o1, o2, o3, o4) of
       (Some p1, Some p2, Some p3, Some p4) \<Rightarrow>
         (True, prepare p4 (close_sqe slot) (prepare p3 (probe_sqe slot item)
            (prepare p2 (read_sqe slot item) (prepare p1 (open_sqe slot item) r4))))
     | _ \<Rightarrow> (False, r4))"

fun submit_slots ::
  "reader_ring \<Rightarrow> 's batch_item list \<Rightarrow> nat list \<Rightarrow> nat list \<Rightarrow> bool \<times> reader_ring \<times> nat list" where
  "submit_slots r items [] slot_to_item = (True, r, slot_to_item)"
| "submit_slots r items (item_index # rest) slot_to_item =
    (if \<not> fits_in_slot (items ! item_index) then submit_slots r items rest slot_to_item
     else (let (ok, r') = submit_slot r (length slot_to_item) (items ! item_index) in
           if \<not> ok then (False, r', slot_to_item)
           else submit_slots r' items rest (slot_to_item @ [item_index])))"

subsection \<open>Completions\<close>

text \<open>A completion; \<open>delivered\<close> is what the kernel has put into the slot's buffer by then.\<close>

record completion =
  cqe_user_data :: u64
  cqe_res :: int
  delivered :: "u8 list"

definition fail_item :: "int \<Rightarrow> 's batch_item \<Rightarrow> 's batch_item" where
  "fail_item err item = item\<lparr>success := False, errno_value := err\<rparr>"

definition cqe_effect ::
  "'s consumer \<Rightarrow> 32 word \<Rightarrow> int \<Rightarrow> u8 list \<Rightarrow> 's batch_item \<Rightarrow> nat \<Rightarrow> 's batch_item \<times> nat" where
  "cqe_effect consume operation_code cqe_result buffer item bytes_read =
    (if operation_code = RING_OP_OPENAT then
       (if cqe_result < 0 then fail_item (- cqe_result) item else item, bytes_read)
     else if operation_code = RING_OP_READ then
       (if cqe_result < 0 then
          (if errno_value item = 0
           then fail_item (if cqe_result = - ECANCELED then EIO else - cqe_result) item else item, bytes_read)
        else if nat cqe_result \<noteq> unat (item_size item) then (fail_item EIO item, bytes_read)
        else (item, nat cqe_result))
     else if operation_code = RING_OP_PROBE then
       (if errno_value item \<noteq> 0 then (item, bytes_read)
        else if cqe_result < 0
        then (fail_item (if cqe_result = - ECANCELED then EIO else - cqe_result) item, bytes_read)
        else if cqe_result > 0 then (fail_item EIO item, bytes_read)
        else if bytes_read = 0 then (fail_item EIO item, bytes_read)
        else (case consume (consumer_context item) (take bytes_read buffer) of (ok, ctx) \<Rightarrow>
                if \<not> ok then (fail_item EIO (item\<lparr>consumer_context := ctx\<rparr>), bytes_read)
                else (item\<lparr>consumer_context := ctx, success := True, errno_value := 0\<rparr>, bytes_read)))
     else (item, bytes_read))"

text \<open>The items, the bytes read per slot and the slot buffers, while a chunk is driven.\<close>

type_synonym 's chunk_state = "'s batch_item list \<times> nat list \<times> u8 list list"

definition handle_cqe :: "nat list \<Rightarrow> 's consumer \<Rightarrow> completion \<Rightarrow> 's chunk_state \<Rightarrow> 's chunk_state" where
  "handle_cqe slot_to_item consume cqe = (\<lambda>(items, slot_bytes_read, buffers).
    let slot_index = unat (decode_slot (cqe_user_data cqe));
        operation_code = decode_operation (cqe_user_data cqe);
        item_index = slot_to_item ! slot_index;
        (item, bytes) = cqe_effect consume operation_code (cqe_res cqe) (buffers ! slot_index)
          (items ! item_index) (slot_bytes_read ! slot_index) in
    (items[item_index := item], slot_bytes_read[slot_index := bytes], buffers))"

text \<open>The kernel's write into the buffer is visible when the completion of the read is.\<close>

definition deliver :: "completion \<Rightarrow> 's chunk_state \<Rightarrow> 's chunk_state" where
  "deliver cqe = (\<lambda>(items, slot_bytes_read, buffers).
    let slot_index = unat (decode_slot (cqe_user_data cqe)) in
    (items, slot_bytes_read,
     if decode_operation (cqe_user_data cqe) = RING_OP_READ then buffers[slot_index := delivered cqe] else buffers))"

fun drain_completions ::
  "nat list \<Rightarrow> 's consumer \<Rightarrow> nat \<Rightarrow> (int + completion) list \<Rightarrow> 's chunk_state \<Rightarrow> (bool \<times> 's chunk_state) option" where
  "drain_completions s2i consume 0 waits st = Some (True, st)"
| "drain_completions s2i consume (Suc missing) [] st = None"
| "drain_completions s2i consume (Suc missing) (Inl err # waits) st =
    (if err = EINTR then drain_completions s2i consume (Suc missing) waits st else Some (False, st))"
| "drain_completions s2i consume (Suc missing) (Inr cqe # waits) st =
    drain_completions s2i consume missing waits (handle_cqe s2i consume cqe (deliver cqe st))"

text \<open>
  \<open>uring sqes\<close> is the kernel's answer to a submission: the status of the submit and the results
  of the waits that follow. \<open>None\<close> is a wait that never returns.
\<close>

type_synonym uring = "sqe list \<Rightarrow> int \<times> (int + completion) list"

definition drive_chunk ::
  "uring \<Rightarrow> reader_ring \<Rightarrow> 's batch_item list \<Rightarrow> nat \<Rightarrow> nat \<Rightarrow> 's consumer
    \<Rightarrow> (bool \<times> reader_ring \<times> 's batch_item list) option" where
  "drive_chunk uring r items chunk_start chunk_count consume =
    (case submit_slots r items [chunk_start ..< chunk_start + chunk_count] [] of (submitted, r1, s2i) \<Rightarrow>
       if \<not> submitted then Some (False, r1, items)
       else if s2i = [] then Some (True, r1, items)
       else (case uring (sq_entries r1) of (submit_status, waits) \<Rightarrow>
         if submit_status < 0 then Some (False, r1, items)
         else map_option (\<lambda>(ok, items', _, buffers). (ok, r1\<lparr>sq_entries := [], slot_buffers := buffers\<rparr>, items'))
           (drain_completions s2i consume (4 * length s2i) waits
              (items, replicate READER_RING_SLOT_COUNT 0, slot_buffers r1))))"

subsection \<open>The batch\<close>

definition fallback_sync :: "file_io \<Rightarrow> 's consumer \<Rightarrow> 's batch_item \<Rightarrow> 's batch_item option" where
  "fallback_sync io consume item =
    (case reader_consume_file io (item_path item) (item_size item) consume (consumer_context item) of
       None \<Rightarrow> None
     | Some (ok, err, ctx) \<Rightarrow>
         Some (if ok then item\<lparr>consumer_context := ctx, success := True, errno_value := 0\<rparr>
               else item\<lparr>consumer_context := ctx, success := False, errno_value := err\<rparr>))"

definition retry_after_failure :: "'s batch_item \<Rightarrow> bool" where
  "retry_after_failure item \<longleftrightarrow> \<not> success item \<and> errno_value item = 0"

definition retry_after_chunk :: "'s batch_item \<Rightarrow> bool" where
  "retry_after_chunk item \<longleftrightarrow> \<not> success item \<and> \<not> (fits_in_slot item \<and> errno_value item \<noteq> 0)"

fun fallback_items ::
  "file_io \<Rightarrow> 's consumer \<Rightarrow> ('s batch_item \<Rightarrow> bool) \<Rightarrow> nat list \<Rightarrow> 's batch_item list \<Rightarrow> 's batch_item list option" where
  "fallback_items io consume retry [] items = Some items"
| "fallback_items io consume retry (i # rest) items =
    (if retry (items ! i) then
       (case fallback_sync io consume (items ! i) of
          None \<Rightarrow> None
        | Some item \<Rightarrow> fallback_items io consume retry rest (items[i := item]))
     else fallback_items io consume retry rest items)"

function consume_chunks ::
  "file_io \<Rightarrow> (nat \<Rightarrow> uring) \<Rightarrow> 's consumer \<Rightarrow> nat \<Rightarrow> nat \<Rightarrow> reader_ring \<Rightarrow> 's batch_item list
    \<Rightarrow> (reader_ring \<times> 's batch_item list) option" where
  "consume_chunks io urings consume item_count processed r items =
    (if processed < item_count then
       (let chunk_count = min (item_count - processed) READER_RING_SLOT_COUNT;
            span = [processed ..< processed + chunk_count] in
        case drive_chunk (urings processed) r items processed chunk_count consume of
          None \<Rightarrow> None
        | Some (ok, r', items') \<Rightarrow>
            (case fallback_items io consume (if ok then retry_after_chunk else retry_after_failure) span items' of
               None \<Rightarrow> None
             | Some items'' \<Rightarrow> consume_chunks io urings consume item_count (processed + chunk_count) r' items''))
     else Some (r, items))"
  by pat_completeness auto
termination
  by (relation "measure (\<lambda>(io, urings, consume, item_count, processed, r, items). item_count - processed)")
     (auto simp: READER_RING_SLOT_COUNT_def)

definition reset_item :: "'s batch_item \<Rightarrow> 's batch_item" where
  "reset_item item = item\<lparr>success := False, errno_value := 0\<rparr>"

definition reader_consume_batch ::
  "file_io \<Rightarrow> (nat \<Rightarrow> uring) \<Rightarrow> 's consumer \<Rightarrow> reader_ring \<Rightarrow> 's batch_item list
    \<Rightarrow> (reader_ring \<times> 's batch_item list) option" where
  "reader_consume_batch io urings consume r items =
    consume_chunks io urings consume (length items) 0 r (map reset_item items)"

declare consume_chunks.simps [simp del]

section \<open>Tags of the submissions\<close>

lemma byte_bits: fixes w :: "32 word" assumes "w \<le> 0xFF" and "bit w n" shows "n < 8"
proof -
  have "unat w < 2 ^ 8" using assms(1) by (simp add: word_le_nat_alt)
  then have "take_bit 8 (unat w) = unat w" by (simp add: take_bit_nat_eq_self)
  then have "unat (take_bit 8 w) = unat w" by (metis unsigned_take_bit_eq)
  then have "take_bit 8 w = w" by (rule unsigned_word_eqI)
  then show ?thesis using assms(2) by (metis bit_take_bit_iff)
qed

lemma decode_encode_slot:
  assumes "operation_code \<le> 0xFF"
  shows "decode_slot (encode_user_data slot_index operation_code) = slot_index"
  by (auto intro!: bit_word_eqI simp: decode_slot_def encode_user_data_def bit_simps dest: byte_bits [OF assms])

lemma decode_encode_operation:
  assumes "operation_code \<le> 0xFF"
  shows "decode_operation (encode_user_data slot_index operation_code) = operation_code"
proof -
  have low_byte: "(0xFF :: u64) = mask 8" by (simp add: mask_eq_exp_minus_1)
  show ?thesis unfolding decode_operation_def encode_user_data_def low_byte
    by (auto intro!: bit_word_eqI simp: bit_simps dest: byte_bits [OF assms])
qed

lemmas ring_ops = RING_OP_OPENAT_def RING_OP_READ_def RING_OP_PROBE_def RING_OP_CLOSE_def

lemma ring_ops_are_bytes [simp]:
  "RING_OP_OPENAT \<le> 0xFF" "RING_OP_READ \<le> 0xFF" "RING_OP_PROBE \<le> 0xFF" "RING_OP_CLOSE \<le> 0xFF"
  by (simp_all add: ring_ops word_le_nat_alt)

lemmas decode_tags [simp] = decode_encode_slot decode_encode_operation

section \<open>The submission queue\<close>

lemma submit_slot_room:
  assumes "length (sq_entries r) + 4 \<le> RING_QUEUE_DEPTH"
  shows "submit_slot r slot item =
    (True, r\<lparr>sq_entries := sq_entries r @ [open_sqe slot item, read_sqe slot item, probe_sqe slot item, close_sqe slot]\<rparr>)"
  using assms by (simp add: submit_slot_def get_sqe_def prepare_def Let_def list_update_append)

text \<open>The submissions of a chunk, slot by slot.\<close>

fun slot_chains :: "nat \<Rightarrow> 's batch_item list \<Rightarrow> sqe list" where
  "slot_chains slot [] = []"
| "slot_chains slot (item # rest) =
    [open_sqe slot item, read_sqe slot item, probe_sqe slot item, close_sqe slot] @ slot_chains (Suc slot) rest"

lemma submit_slots_room:
  assumes "length (sq_entries r) + 4 * length idxs \<le> RING_QUEUE_DEPTH"
  shows "submit_slots r items idxs s2i =
    (True, r\<lparr>sq_entries := sq_entries r @ slot_chains (length s2i) (map ((!) items) (filter (\<lambda>i. fits_in_slot (items ! i)) idxs))\<rparr>,
     s2i @ filter (\<lambda>i. fits_in_slot (items ! i)) idxs)"
  using assms
proof (induction idxs arbitrary: r s2i)
  case (Cons i idxs)
  then show ?case by (simp add: submit_slot_room)
qed simp

section \<open>Slots are independent\<close>

text \<open>
  A state whose parts are changed by the events that address them: what an event does to its
  own part depends on that part alone.
\<close>

locale independent_parts =
  fixes step :: "'e \<Rightarrow> 'st \<Rightarrow> 'st"
    and ok :: "'st \<Rightarrow> bool"
    and addressed :: "'e \<Rightarrow> nat"
    and admissible :: "nat \<Rightarrow> bool"
    and part :: "nat \<Rightarrow> 'st \<Rightarrow> 'v"
    and local_step :: "'e \<Rightarrow> 'v \<Rightarrow> 'v"
  assumes step_ok: "ok st \<Longrightarrow> admissible (addressed e) \<Longrightarrow> ok (step e st)"
    and own_part: "ok st \<Longrightarrow> admissible (addressed e) \<Longrightarrow> part (addressed e) (step e st) = local_step e (part (addressed e) st)"
    and other_part: "ok st \<Longrightarrow> admissible (addressed e) \<Longrightarrow> admissible s \<Longrightarrow> s \<noteq> addressed e \<Longrightarrow> part s (step e st) = part s st"
begin

lemma fold_ok: "ok st \<Longrightarrow> \<forall>e \<in> set es. admissible (addressed e) \<Longrightarrow> ok (fold step es st)"
  by (induction es arbitrary: st) (simp_all add: step_ok)

lemma part_fold:
  assumes "ok st" and "\<forall>e \<in> set es. admissible (addressed e)" and "admissible s"
  shows "part s (fold step es st) = fold local_step (filter (\<lambda>e. addressed e = s) es) (part s st)"
  using assms
proof (induction es arbitrary: st)
  case (Cons e es)
  then show ?case
    by (cases "addressed e = s") (auto simp: step_ok own_part other_part)
qed simp

text \<open>Two interleavings of the same events per part end in the same parts.\<close>

lemma interleavings_agree:
  assumes "ok st" and "\<forall>e \<in> set es \<union> set ds. admissible (addressed e)" and "admissible s"
    and "filter (\<lambda>e. addressed e = s) es = filter (\<lambda>e. addressed e = s) ds"
  shows "part s (fold step es st) = part s (fold step ds st)"
  using part_fold [of st es s] part_fold [of st ds s] assms by simp

end

definition slot_of :: "completion \<Rightarrow> nat" where
  "slot_of cqe = unat (decode_slot (cqe_user_data cqe))"

text \<open>A completion as the drain loop takes it.\<close>

definition take_cqe :: "nat list \<Rightarrow> 's consumer \<Rightarrow> completion \<Rightarrow> 's chunk_state \<Rightarrow> 's chunk_state" where
  "take_cqe s2i consume cqe st = handle_cqe s2i consume cqe (deliver cqe st)"

definition chunk_ok :: "nat list \<Rightarrow> 's chunk_state \<Rightarrow> bool" where
  "chunk_ok s2i = (\<lambda>(items, bytes, buffers).
    distinct s2i \<and> (\<forall>i \<in> set s2i. i < length items) \<and> length s2i \<le> length bytes \<and> length s2i \<le> length buffers)"

definition slot_part :: "nat list \<Rightarrow> nat \<Rightarrow> 's chunk_state \<Rightarrow> 's batch_item \<times> nat \<times> u8 list" where
  "slot_part s2i slot = (\<lambda>(items, bytes, buffers). (items ! (s2i ! slot), bytes ! slot, buffers ! slot))"

definition slot_step :: "'s consumer \<Rightarrow> completion \<Rightarrow> 's batch_item \<times> nat \<times> u8 list \<Rightarrow> 's batch_item \<times> nat \<times> u8 list" where
  "slot_step consume cqe = (\<lambda>(item, bytes, buffer).
    let operation_code = decode_operation (cqe_user_data cqe);
        buffer' = (if operation_code = RING_OP_READ then delivered cqe else buffer);
        (item', bytes') = cqe_effect consume operation_code (cqe_res cqe) buffer' item bytes in
    (item', bytes', buffer'))"

interpretation ring_slots: independent_parts
  "take_cqe s2i consume" "chunk_ok s2i" slot_of "\<lambda>s. s < length s2i" "slot_part s2i" "slot_step consume"
  for s2i consume
proof
  fix st :: "'a chunk_state" and e s
  obtain items bytes buffers where st: "st = (items, bytes, buffers)" by (cases st)
  assume ok: "chunk_ok s2i st" and e: "slot_of e < length s2i"
  show "chunk_ok s2i (take_cqe s2i consume e st)"
    using ok by (auto simp: st chunk_ok_def take_cqe_def handle_cqe_def deliver_def Let_def split: prod.split)
  show "slot_part s2i (slot_of e) (take_cqe s2i consume e st) = slot_step consume e (slot_part s2i (slot_of e) st)"
    using ok e by (auto simp: st chunk_ok_def take_cqe_def handle_cqe_def deliver_def slot_part_def slot_step_def
        slot_of_def Let_def split: prod.split)
  assume "s < length s2i" and "s \<noteq> slot_of e"
  then show "slot_part s2i s (take_cqe s2i consume e st) = slot_part s2i s st"
    using ok e by (auto simp: st chunk_ok_def take_cqe_def handle_cqe_def deliver_def slot_part_def
        slot_of_def Let_def nth_eq_iff_index_eq split: prod.split)
qed

text \<open>
  A ring with an empty queue has room for every chunk: the four linked operations of each
  file that fits are queued slot by slot, in the order of the files, and never refused.
\<close>

lemma chunk_submission_never_refused:
  assumes "sq_entries r = []" and "length idxs \<le> READER_RING_SLOT_COUNT"
  shows "let fitting = filter (\<lambda>i. fits_in_slot (items ! i)) idxs in
    submit_slots r items idxs [] = (True, r\<lparr>sq_entries := slot_chains 0 (map ((!) items) fitting)\<rparr>, fitting)"
  using submit_slots_room [of r idxs items "[]"] assms
  by (simp add: RING_QUEUE_DEPTH_def READER_RING_SLOT_COUNT_def)

section \<open>Properties\<close>

definition fresh_ring :: reader_ring where
  "fresh_ring = snd (ring_init 0 0)"

lemma fresh_ring_simps [simp]:
  "sq_entries fresh_ring = []" "slot_buffers fresh_ring = replicate READER_RING_SLOT_COUNT []"
  by (simp_all add: fresh_ring_def ring_init_def)

definition sample_item :: "string \<Rightarrow> u64 \<Rightarrow> u8 list batch_item" where
  "sample_item path n = \<lparr>item_path = path, item_size = n, consumer_context = [], success = False, errno_value = 0\<rparr>"

text \<open>C25
  How the completions of different slots interleave does not matter: two sequences that
  agree on every slot leave every file, its consumer and its byte count the same.
\<close>

theorem completions_commute_across_slots:
  assumes "chunk_ok s2i st" and "\<forall>e \<in> set es \<union> set ds. slot_of e < length s2i"
    and "\<forall>s < length s2i. filter (\<lambda>e. slot_of e = s) es = filter (\<lambda>e. slot_of e = s) ds"
    and "s < length s2i"
  shows "slot_part s2i s (fold (take_cqe s2i consume) es st) = slot_part s2i s (fold (take_cqe s2i consume) ds st)"
  using assms by (intro ring_slots.interleavings_agree) simp_all

theorem completions_commute_across_slots_witness:
  "let e0 = \<lparr>cqe_user_data = encode_user_data 0 RING_OP_OPENAT, cqe_res = 0, delivered = []\<rparr>;
       e1 = \<lparr>cqe_user_data = encode_user_data 1 RING_OP_OPENAT, cqe_res = - 2, delivered = []\<rparr>;
       st = ([sample_item ''/a'' 2, sample_item ''/b'' 2], [0, 0], [[], []]) in
    slot_part [0, 1] 1 (fold (take_cqe [0, 1] sample_consumer) [e0, e1] st) =
    slot_part [0, 1] 1 (fold (take_cqe [0, 1] sample_consumer) [e1, e0] st)"
  unfolding Let_def
  by (rule completions_commute_across_slots)
     (auto simp: chunk_ok_def slot_of_def less_2_cases_iff)

end
