(* ===== verification/Ring_Delivery.thy ===== *)
theory Ring_Delivery
  imports Reader_Ring "HOL-Library.Sublist"
begin

text \<open>
  What a batch delivers. The kernel's answers are described by the contract \<open>honest_ring\<close>:
  the completions of a slot are, in order, the four of its chain (or the first few, when a
  wait fails), with the results that the documentation of the linked operations gives for
  the file's content. Whether a file then comes through the ring or through the synchronous
  reader, its consumer is fed the bytes of the file.
\<close>

section \<open>The chain of a slot\<close>

text \<open>A link that fails cancels the rest of its chain.\<close>

definition chain_results :: "file_answer \<Rightarrow> nat \<Rightarrow> 's batch_item \<Rightarrow> int \<Rightarrow> completion list" where
  "chain_results ans slot item close_result =
    (let n = unat (item_size item); tag = encode_user_data (of_nat slot) in
     case ans of
       Inl err \<Rightarrow>
         [\<lparr>cqe_user_data = tag RING_OP_OPENAT, cqe_res = - err, delivered = []\<rparr>,
          \<lparr>cqe_user_data = tag RING_OP_READ, cqe_res = - ECANCELED, delivered = []\<rparr>,
          \<lparr>cqe_user_data = tag RING_OP_PROBE, cqe_res = - ECANCELED, delivered = []\<rparr>,
          \<lparr>cqe_user_data = tag RING_OP_CLOSE, cqe_res = - ECANCELED, delivered = []\<rparr>]
     | Inr content \<Rightarrow>
     [\<lparr>cqe_user_data = tag RING_OP_OPENAT, cqe_res = 0, delivered = []\<rparr>,
      \<lparr>cqe_user_data = tag RING_OP_READ, cqe_res = int (min n (length content)), delivered = take n content\<rparr>,
      \<lparr>cqe_user_data = tag RING_OP_PROBE,
        cqe_res = (if length content < n then - ECANCELED else if length content = n then 0 else 1), delivered = []\<rparr>,
      \<lparr>cqe_user_data = tag RING_OP_CLOSE, cqe_res = close_result, delivered = []\<rparr>])"

definition completions :: "(int + completion) list \<Rightarrow> completion list" where
  "completions waits = concat (map (case_sum (\<lambda>_. []) (\<lambda>e. [e])) waits)"

lemma completions_simps [simp]:
  "completions [] = []" "completions (Inl err # waits) = completions waits"
  "completions (Inr e # waits) = e # completions waits"
  by (simp_all add: completions_def)

definition waits_suffice :: "nat \<Rightarrow> (int + completion) list \<Rightarrow> bool" where
  "waits_suffice m waits \<longleftrightarrow> (\<exists>err. Inl err \<in> set waits \<and> err \<noteq> EINTR) \<or> m \<le> length (completions waits)"

definition answers_chunk ::
  "(nat \<Rightarrow> file_answer) \<Rightarrow> 's batch_item list \<Rightarrow> nat list \<Rightarrow> (int + completion) list \<Rightarrow> bool" where
  "answers_chunk content items s2i waits \<longleftrightarrow>
    waits_suffice (4 * length s2i) waits \<and>
    (\<forall>e \<in> set (completions waits). slot_of e < length s2i) \<and>
    (\<forall>s < length s2i. \<exists>r. prefix (filter (\<lambda>e. slot_of e = s) (completions waits))
        (chain_results (content (s2i ! s)) s (items ! (s2i ! s)) r))"

definition chunk_slots :: "'s batch_item list \<Rightarrow> nat \<Rightarrow> nat list" where
  "chunk_slots items start =
    filter (\<lambda>i. fits_in_slot (items ! i)) [start ..< start + min (length items - start) READER_RING_SLOT_COUNT]"

text \<open>
  A submit or a wait that fails must be the batch's last: the submission queue keeps what it
  could not hand over, the completion queue what has not been waited for.
\<close>

definition wait_failed :: "(int + completion) list \<Rightarrow> bool" where
  "wait_failed waits \<longleftrightarrow> (\<exists>err. Inl err \<in> set waits \<and> err \<noteq> EINTR)"

lemma wait_failed_completions [simp]: "\<not> wait_failed (map Inr es)"
  by (auto simp: wait_failed_def)

definition honest_ring :: "(nat \<Rightarrow> file_answer) \<Rightarrow> 's batch_item list \<Rightarrow> (nat \<Rightarrow> uring) \<Rightarrow> bool" where
  "honest_ring content items urings \<longleftrightarrow>
    (\<forall>start < length items.
      (case urings start (slot_chains 0 (map ((!) items) (chunk_slots items start))) of (submit_status, waits) \<Rightarrow>
         if submit_status < 0 then length items \<le> start + READER_RING_SLOT_COUNT
         else answers_chunk content items (chunk_slots items start) waits \<and>
           (wait_failed waits \<longrightarrow> length items \<le> start + READER_RING_SLOT_COUNT)))"

section \<open>Draining\<close>

lemma drain_returns: "waits_suffice m waits \<Longrightarrow> \<exists>ok st'. drain_completions s2i consume m waits st = Some (ok, st')"
proof (induction s2i consume m waits st rule: drain_completions.induct)
  case (4 s2i consume missing cqe waits st)
  then show ?case by (auto simp: waits_suffice_def)
qed (auto simp: waits_suffice_def split: if_splits)

lemma drain_takes_prefix:
  "drain_completions s2i consume m waits st = Some (ok, st') \<Longrightarrow>
    \<exists>es. prefix es (completions waits) \<and> st' = fold (take_cqe s2i consume) es st \<and> (ok \<longrightarrow> length es = m)"
proof (induction s2i consume m waits st rule: drain_completions.induct)
  case (4 s2i consume missing cqe waits st)
  then obtain es where "prefix es (completions waits)" "st' = fold (take_cqe s2i consume) es (take_cqe s2i consume cqe st)"
      "ok \<longrightarrow> length es = missing"
    unfolding drain_completions.simps take_cqe_def [symmetric] by blast
  then show ?case by (intro exI [of _ "cqe # es"]) simp
next
  case (3 s2i consume missing err waits st)
  then show ?case by (cases "err = EINTR") (auto intro: exI [of _ "[]"])
qed (auto intro: exI [of _ "[]"])

lemma sum_filter_length:
  "\<forall>e \<in> set es. f e < n \<Longrightarrow> (\<Sum>s<n. length (filter (\<lambda>e. f e = s) es)) = length es" for f :: "'e \<Rightarrow> nat"
proof (induction es)
  case (Cons e es)
  have "(\<Sum>s<n. length (filter (\<lambda>d. f d = s) (e # es))) =
      (\<Sum>s<n. (if s = f e then 1 else 0) + length (filter (\<lambda>d. f d = s) es))"
    by (rule sum.cong) auto
  also have "\<dots> = 1 + length es" using Cons by (simp add: sum.distrib)
  finally show ?case by simp
qed simp

text \<open>When as many completions as expected have come, every slot has had all of its own.\<close>

lemma full_share:
  fixes f :: "'e \<Rightarrow> nat"
  assumes "\<forall>e \<in> set es. f e < n" and "length es = k * n"
    and "\<forall>s < n. length (filter (\<lambda>e. f e = s) es) \<le> k" and "s < n"
  shows "length (filter (\<lambda>e. f e = s) es) = k"
proof (rule ccontr)
  assume "length (filter (\<lambda>e. f e = s) es) \<noteq> k"
  then have "length (filter (\<lambda>e. f e = s) es) < k" using assms(3,4) by (simp add: le_neq_implies_less)
  then have "(\<Sum>s<n. length (filter (\<lambda>e. f e = s) es)) < (\<Sum>s<n. k)"
    using assms(3,4) by (intro sum_strict_mono_ex1) auto
  then show False using sum_filter_length [OF assms(1)] assms(2) by simp
qed

section \<open>What a chain does to its item\<close>

definition item_outcome :: "'s consumer \<Rightarrow> u8 list list \<Rightarrow> 's batch_item \<Rightarrow> 's batch_item" where
  "item_outcome consume chunks item =
    (case feed consume (consumer_context item) chunks of (ok, ctx) \<Rightarrow>
       item\<lparr>consumer_context := ctx, success := ok, errno_value := if ok then 0 else EIO\<rparr>)"

definition reset_state :: "'s batch_item \<Rightarrow> bool" where
  "reset_state item \<longleftrightarrow> \<not> success item \<and> errno_value item = 0"

lemma reset_item_idle [simp]: "reset_state item \<Longrightarrow> item\<lparr>success := False, errno_value := 0\<rparr> = item"
  by (cases item) (simp add: reset_state_def)

lemma EIO_neq_0 [simp]: "EIO \<noteq> 0" by (simp add: EIO_def)

lemma op_tags [simp]:
  "RING_OP_READ \<noteq> RING_OP_OPENAT" "RING_OP_PROBE \<noteq> RING_OP_OPENAT" "RING_OP_PROBE \<noteq> RING_OP_READ"
  "RING_OP_CLOSE \<noteq> RING_OP_OPENAT" "RING_OP_CLOSE \<noteq> RING_OP_READ" "RING_OP_CLOSE \<noteq> RING_OP_PROBE"
  by (simp_all add: ring_ops)

lemmas op_tags_sym [simp] = op_tags [symmetric]

lemma chain_results_elements:
  assumes "chain_results (Inr content) slot item r = [e0, e1, e2, e3]"
  shows "e0 = \<lparr>cqe_user_data = encode_user_data (of_nat slot) RING_OP_OPENAT, cqe_res = 0, delivered = []\<rparr>"
    and "e1 = \<lparr>cqe_user_data = encode_user_data (of_nat slot) RING_OP_READ,
      cqe_res = int (min (unat (item_size item)) (length content)), delivered = take (unat (item_size item)) content\<rparr>"
    and "e2 = \<lparr>cqe_user_data = encode_user_data (of_nat slot) RING_OP_PROBE,
      cqe_res = (if length content < unat (item_size item) then - ECANCELED
        else if length content = unat (item_size item) then 0 else 1), delivered = []\<rparr>"
    and "e3 = \<lparr>cqe_user_data = encode_user_data (of_nat slot) RING_OP_CLOSE, cqe_res = r, delivered = []\<rparr>"
  using assms by (simp_all add: chain_results_def Let_def)

text \<open>The four operations on a slot whose file has the recorded length.\<close>

lemma chain_steps:
  assumes "reset_state item" and "fits_in_slot item" and "unat (item_size item) = length content"
    and "chain_results (Inr content) slot item r = [e0, e1, e2, e3]"
  shows "slot_step consume e0 (item, 0, buf) = (item, 0, buf)"
    and "slot_step consume e1 (item, 0, buf) = (item, length content, content)"
    and "fst (slot_step consume e2 (item, length content, content)) = item_outcome consume [content] item"
    and "slot_step consume e3 = id"
proof -
  note e = chain_results_elements [OF assms(4)]
  have idle: "errno_value item = 0" using assms(1) by (simp add: reset_state_def)
  have "content \<noteq> []" using assms(2,3) by (auto simp: fits_in_slot_def word_less_nat_alt)
  then show "fst (slot_step consume e2 (item, length content, content)) = item_outcome consume [content] item"
    by (simp add: e slot_step_def cqe_effect_def idle assms(3) item_outcome_def fail_item_def split: prod.split)
  show "slot_step consume e0 (item, 0, buf) = (item, 0, buf)"
    by (simp add: e slot_step_def cqe_effect_def)
  show "slot_step consume e3 = id"
    by (rule ext) (simp add: e slot_step_def cqe_effect_def split: prod.split)
  show "slot_step consume e1 (item, 0, buf) = (item, length content, content)"
    by (simp add: e slot_step_def cqe_effect_def assms(3))
qed

text \<open>And on one whose file has become shorter or longer.\<close>

lemma changed_steps:
  assumes "reset_state item" and "unat (item_size item) \<noteq> length content"
    and "chain_results (Inr content) slot item r = [e0, e1, e2, e3]"
  shows "slot_step consume e0 (item, 0, buf) = (item, 0, buf)"
    and "fst (slot_step consume e1 (item, 0, buf)) \<in> {item, fail_item EIO item}"
    and "fst (slot_step consume e2 (slot_step consume e1 (item, 0, buf))) = fail_item EIO item"
    and "slot_step consume e3 = id"
proof -
  note e = chain_results_elements [OF assms(3)]
  have idle: "errno_value item = 0" using assms(1) by (simp add: reset_state_def)
  show "slot_step consume e0 (item, 0, buf) = (item, 0, buf)"
    by (simp add: e slot_step_def cqe_effect_def)
  show "slot_step consume e3 = id"
    by (rule ext) (simp add: e slot_step_def cqe_effect_def split: prod.split)
  show "fst (slot_step consume e1 (item, 0, buf)) \<in> {item, fail_item EIO item}"
    by (simp add: e slot_step_def cqe_effect_def idle fail_item_def)
  show "fst (slot_step consume e2 (slot_step consume e1 (item, 0, buf))) = fail_item EIO item"
  proof (cases "length content < unat (item_size item)")
    case True
    then show ?thesis by (simp add: e slot_step_def cqe_effect_def idle fail_item_def)
  next
    case False
    then show ?thesis using assms(2) by (simp add: e slot_step_def cqe_effect_def idle fail_item_def)
  qed
qed

text \<open>And on one that cannot be opened.\<close>

lemma unopened_steps:
  assumes "reset_state item" and "0 < err" and "chain_results (Inl err) slot item r = [e0, e1, e2, e3]"
  shows "slot_step consume e0 (item, 0, buf) = (fail_item err item, 0, buf)"
    and "fst (slot_step consume e1 (fail_item err item, 0, buf)) = fail_item err item"
    and "fst (slot_step consume e2 (slot_step consume e1 (fail_item err item, 0, buf))) = fail_item err item"
    and "slot_step consume e3 = id"
proof -
  have e: "e0 = \<lparr>cqe_user_data = encode_user_data (of_nat slot) RING_OP_OPENAT, cqe_res = - err, delivered = []\<rparr>"
    "e1 = \<lparr>cqe_user_data = encode_user_data (of_nat slot) RING_OP_READ, cqe_res = - ECANCELED, delivered = []\<rparr>"
    "e2 = \<lparr>cqe_user_data = encode_user_data (of_nat slot) RING_OP_PROBE, cqe_res = - ECANCELED, delivered = []\<rparr>"
    "e3 = \<lparr>cqe_user_data = encode_user_data (of_nat slot) RING_OP_CLOSE, cqe_res = - ECANCELED, delivered = []\<rparr>"
    using assms(3) by (simp_all add: chain_results_def Let_def)
  show "slot_step consume e0 (item, 0, buf) = (fail_item err item, 0, buf)"
    using assms(2) by (simp add: e slot_step_def cqe_effect_def fail_item_def)
  have read: "slot_step consume e1 (fail_item err item, 0, buf) = (fail_item err item, 0, [])"
    using assms(2) by (simp add: e slot_step_def cqe_effect_def fail_item_def ECANCELED_def)
  then show "fst (slot_step consume e1 (fail_item err item, 0, buf)) = fail_item err item" by simp
  show "fst (slot_step consume e2 (slot_step consume e1 (fail_item err item, 0, buf))) = fail_item err item"
    unfolding read using assms(2) by (simp add: e slot_step_def cqe_effect_def fail_item_def)
  show "slot_step consume e3 = id"
    by (rule ext) (simp add: e slot_step_def cqe_effect_def split: prod.split)
qed

lemma chain_results_shape: "\<exists>e0 e1 e2 e3. chain_results ans slot item r = [e0, e1, e2, e3]"
  by (simp add: chain_results_def Let_def split: sum.split)

text \<open>
  However far the chain of a slot got, its item is untouched or has its outcome, and when
  the whole chain was seen it has its outcome.
\<close>

definition ring_outcome :: "'s consumer \<Rightarrow> file_answer \<Rightarrow> 's batch_item \<Rightarrow> 's batch_item" where
  "ring_outcome consume ans item =
    (case ans of
       Inl err \<Rightarrow> fail_item err item
     | Inr content \<Rightarrow>
         if unat (item_size item) = length content then item_outcome consume [content] item else fail_item EIO item)"

definition answer_ok :: "file_answer \<Rightarrow> bool" where
  "answer_ok ans \<longleftrightarrow> (case ans of Inl err \<Rightarrow> 0 < err | Inr _ \<Rightarrow> True)"

lemma yields_ok: "yields io path ans \<Longrightarrow> answer_ok ans"
  by (simp add: yields_def answer_ok_def split: sum.splits)

lemma slot_chain:
  assumes "prefix es (chain_results ans slot item r)" and "reset_state item" and "fits_in_slot item" and "answer_ok ans"
  shows "fst (fold (slot_step consume) es (item, 0, buf)) \<in> {item, ring_outcome consume ans item}"
    and "length es = 4 \<Longrightarrow> fst (fold (slot_step consume) es (item, 0, buf)) = ring_outcome consume ans item"
proof -
  obtain e0 e1 e2 e3 where c: "chain_results ans slot item r = [e0, e1, e2, e3]"
    using chain_results_shape by blast
  have es: "es = [] \<or> es = [e0] \<or> es = [e0, e1] \<or> es = [e0, e1, e2] \<or> es = [e0, e1, e2, e3]"
    using assms(1) by (auto simp: c prefix_Cons)
  have "fst (fold (slot_step consume) es (item, 0, buf)) \<in> {item, ring_outcome consume ans item} \<and>
    (length es = 4 \<longrightarrow> fst (fold (slot_step consume) es (item, 0, buf)) = ring_outcome consume ans item)"
  proof (cases ans)
    case (Inl err)
    then have "0 < err" using assms(4) by (simp add: answer_ok_def)
    from unopened_steps [OF assms(2) this c [unfolded Inl]] es show ?thesis by (auto simp: Inl ring_outcome_def)
  next
    case (Inr content)
    note c = c [unfolded Inr]
    show ?thesis
    proof (cases "unat (item_size item) = length content")
      case True
      then show ?thesis using es chain_steps [OF assms(2,3) True c] by (auto simp: Inr ring_outcome_def)
    next
      case False
      note steps = changed_steps [OF assms(2) False c]
      have "fst (slot_step consume e1 (item, 0, buf)) \<in> {item, fail_item EIO item}" by (rule steps(2))
      then show ?thesis using False es steps(1,3,4) by (auto simp: Inr ring_outcome_def)
    qed
  qed
  then show "fst (fold (slot_step consume) es (item, 0, buf)) \<in> {item, ring_outcome consume ans item}"
    and "length es = 4 \<Longrightarrow> fst (fold (slot_step consume) es (item, 0, buf)) = ring_outcome consume ans item"
    by blast+
qed

section \<open>Driving a chunk\<close>

lemma reset_item_simps [simp]:
  "item_path (reset_item item) = item_path item" "item_size (reset_item item) = item_size item"
  "consumer_context (reset_item item) = consumer_context item" "reset_state (reset_item item)"
  "fits_in_slot (reset_item item) = fits_in_slot item"
  "chain_results ans slot (reset_item item) r = chain_results ans slot item r"
  by (simp_all add: reset_item_def reset_state_def fits_in_slot_def chain_results_def)

lemma slot_chains_reset [simp]: "slot_chains slot (map (\<lambda>i. reset_item (items ! i)) idxs) = slot_chains slot (map ((!) items) idxs)"
  by (induction idxs arbitrary: slot) (simp_all add: open_sqe_def read_sqe_def probe_sqe_def)

lemma chunk_slots_facts:
  "distinct (chunk_slots items start)" "length (chunk_slots items start) \<le> READER_RING_SLOT_COUNT"
  "i \<in> set (chunk_slots items start) \<longleftrightarrow>
    start \<le> i \<and> i < start + min (length items - start) READER_RING_SLOT_COUNT \<and> fits_in_slot (items ! i)"
  unfolding chunk_slots_def
  by (auto intro: order.trans [OF length_filter_le])

text \<open>Completions only touch the files whose slots they name.\<close>

lemma fold_take_cqe_frame:
  assumes "chunk_ok s2i st" and "\<forall>e \<in> set es. slot_of e < length s2i"
    and "fold (take_cqe s2i consume) es st = (items', bytes', buffers')" and "st = (items, bytes, buffers)"
  shows "length items' = length items \<and> length buffers' = length buffers \<and>
    (\<forall>j < length items. j \<notin> set s2i \<longrightarrow> items' ! j = items ! j)"
  using assms
proof (induction es arbitrary: st items bytes buffers)
  case (Cons e es)
  obtain items1 bytes1 buffers1 where st1: "take_cqe s2i consume e st = (items1, bytes1, buffers1)"
    by (cases "take_cqe s2i consume e st")
  have "chunk_ok s2i (take_cqe s2i consume e st)" using Cons.prems by (intro ring_slots.step_ok) auto
  then have "length items' = length items1 \<and> length buffers' = length buffers1 \<and>
      (\<forall>j < length items1. j \<notin> set s2i \<longrightarrow> items' ! j = items1 ! j)"
    using Cons.prems st1 by (intro Cons.IH [of "take_cqe s2i consume e st"]) auto
  moreover have "length items1 = length items \<and> length buffers1 = length buffers \<and>
      (\<forall>j < length items. j \<notin> set s2i \<longrightarrow> items1 ! j = items ! j)"
  proof -
    have "s2i ! slot_of e \<in> set s2i" using Cons.prems(2) by simp
    then show ?thesis using st1 Cons.prems(4)
      by (auto simp: take_cqe_def handle_cqe_def deliver_def slot_of_def Let_def intro!: nth_list_update_neq split: prod.splits)
  qed
  ultimately show ?case by simp
qed simp

lemma drained_items:
  assumes answers: "answers_chunk content items s2i waits"
    and drain: "drain_completions s2i consume (4 * length s2i) waits (cur, bytes, buffers) = Some (ok, cur', bytes', buffers')"
    and chunk: "chunk_ok s2i (cur, bytes, buffers)" and zero: "\<forall>i < length bytes. bytes ! i = 0"
    and cur: "\<forall>i \<in> set s2i. cur ! i = reset_item (items ! i) \<and> fits_in_slot (items ! i) \<and> answer_ok (content i)"
  shows "length cur' = length cur" and "length buffers' = length buffers"
    and "j < length cur \<Longrightarrow> j \<notin> set s2i \<Longrightarrow> cur' ! j = cur ! j"
    and "j \<in> set s2i \<Longrightarrow> cur' ! j \<in> {cur ! j, ring_outcome consume (content j) (cur ! j)}"
    and "j \<in> set s2i \<Longrightarrow> ok \<Longrightarrow> cur' ! j = ring_outcome consume (content j) (cur ! j)"
proof -
  obtain es where es: "prefix es (completions waits)" "ok \<longrightarrow> length es = 4 * length s2i"
    and final: "(cur', bytes', buffers') = fold (take_cqe s2i consume) es (cur, bytes, buffers)"
    using drain_takes_prefix [OF drain] by blast
  have addressed: "\<forall>e \<in> set es. slot_of e < length s2i"
    using answers set_mono_prefix [OF es(1)] by (auto simp: answers_chunk_def)
  have frame: "length cur' = length cur \<and> length buffers' = length buffers \<and>
      (\<forall>j < length cur. j \<notin> set s2i \<longrightarrow> cur' ! j = cur ! j)"
    using fold_take_cqe_frame [OF chunk addressed final [symmetric] refl] .
  then show "length cur' = length cur" and "length buffers' = length buffers"
    and "j < length cur \<Longrightarrow> j \<notin> set s2i \<Longrightarrow> cur' ! j = cur ! j" by auto
  have slot: "cur' ! j \<in> {cur ! j, ring_outcome consume (content j) (cur ! j)} \<and>
      (ok \<longrightarrow> cur' ! j = ring_outcome consume (content j) (cur ! j))" if mem: "j \<in> set s2i"
  proof -
    obtain s where s: "s < length s2i" "j = s2i ! s" using mem by (metis in_set_conv_nth)
    let ?mine = "\<lambda>s. filter (\<lambda>e. slot_of e = s) es"
    have upto: "\<exists>r. prefix (?mine s) (chain_results (content (s2i ! s)) s (items ! (s2i ! s)) r)" if "s < length s2i" for s
    proof -
      obtain r where "prefix (filter (\<lambda>e. slot_of e = s) (completions waits)) (chain_results (content (s2i ! s)) s (items ! (s2i ! s)) r)"
        using answers \<open>s < length s2i\<close> by (auto simp: answers_chunk_def)
      then show ?thesis using filter_mono_prefix [OF es(1)] prefix_order.trans by blast
    qed
    have short: "length (?mine s) \<le> 4" if s: "s < length s2i" for s
    proof -
      obtain r where "prefix (?mine s) (chain_results (content (s2i ! s)) s (items ! (s2i ! s)) r)"
        using upto [OF s] by blast
      from prefix_length_le [OF this] show ?thesis
        using chain_results_shape [of "content (s2i ! s)" s "items ! (s2i ! s)" r] by auto
    qed
    have "slot_part s2i s (fold (take_cqe s2i consume) es (cur, bytes, buffers)) =
        fold (slot_step consume) (?mine s) (slot_part s2i s (cur, bytes, buffers))"
      using chunk addressed s(1) by (intro ring_slots.part_fold) auto
    moreover have "bytes ! s = 0" using zero chunk s(1) by (simp add: chunk_ok_def)
    ultimately have part: "cur' ! j = fst (fold (slot_step consume) (?mine s) (cur ! j, 0, buffers ! s))"
      unfolding final [symmetric] by (simp add: slot_part_def s(2)) (metis fst_conv)
    obtain r where "prefix (?mine s) (chain_results (content j) s (cur ! j) r)"
      using upto [OF s(1)] cur mem by (auto simp: s(2) [symmetric])
    note outcome = slot_chain [OF this, of consume "buffers ! s"]
    have "cur ! j = reset_item (items ! j)" and "fits_in_slot (items ! j)" and "answer_ok (content j)" using cur mem by auto
    moreover have "length (?mine s) = 4" if ok
      using full_share [OF addressed, of 4 s] es(2) short s(1) that by simp
    ultimately show ?thesis using outcome part by simp
  qed
  show "j \<in> set s2i \<Longrightarrow> cur' ! j \<in> {cur ! j, ring_outcome consume (content j) (cur ! j)}"
    and "j \<in> set s2i \<Longrightarrow> ok \<Longrightarrow> cur' ! j = ring_outcome consume (content j) (cur ! j)"
    using slot by blast+
qed

lemma drive_chunk_outcome:
  assumes honest: "honest_ring content items urings" and start: "start < length items"
    and empty: "sq_entries r = []" and bufs: "length (slot_buffers r) = READER_RING_SLOT_COUNT"
    and len: "length cur = length items" and cur: "\<forall>i < length items. start \<le> i \<longrightarrow> cur ! i = reset_item (items ! i)"
    and known: "\<forall>i < length items. answer_ok (content i)"
  shows "\<exists>ok r' cur'.
    drive_chunk (urings start) r cur start (min (length items - start) READER_RING_SLOT_COUNT) consume = Some (ok, r', cur') \<and>
    length cur' = length items \<and> length (slot_buffers r') = READER_RING_SLOT_COUNT \<and>
    (start + READER_RING_SLOT_COUNT < length items \<longrightarrow> sq_entries r' = []) \<and>
    (\<forall>j < length items. j \<notin> set (chunk_slots items start) \<longrightarrow> cur' ! j = cur ! j) \<and>
    (\<forall>j \<in> set (chunk_slots items start). cur' ! j \<in> {cur ! j, ring_outcome consume (content j) (cur ! j)} \<and>
      (ok \<longrightarrow> cur' ! j = ring_outcome consume (content j) (cur ! j)))"
proof -
  let ?cnt = "min (length items - start) READER_RING_SLOT_COUNT" and ?s2i = "chunk_slots items start"
  let ?r1 = "r\<lparr>sq_entries := slot_chains 0 (map ((!) items) ?s2i)\<rparr>"
  have fits: "filter (\<lambda>i. fits_in_slot (cur ! i)) [start ..< start + ?cnt] = ?s2i"
    unfolding chunk_slots_def using cur by (intro filter_cong) auto
  have mem: "\<forall>i \<in> set ?s2i. cur ! i = reset_item (items ! i) \<and> fits_in_slot (items ! i) \<and> i < length items"
    using cur by (auto simp: chunk_slots_facts)
  then have "map ((!) cur) ?s2i = map (\<lambda>i. reset_item (items ! i)) ?s2i" by (intro map_cong) auto
  then have same: "slot_chains 0 (map ((!) cur) ?s2i) = slot_chains 0 (map ((!) items) ?s2i)"
    by (simp only: slot_chains_reset)
  have submitted: "submit_slots r cur [start ..< start + ?cnt] [] = (True, ?r1, ?s2i)"
    using submit_slots_room [of r "[start ..< start + ?cnt]" cur "[]"] empty
    unfolding fits by (simp add: RING_QUEUE_DEPTH_def same)
  obtain submit_status waits where uring: "urings start (sq_entries ?r1) = (submit_status, waits)"
    by (cases "urings start (sq_entries ?r1)")
  have honest: "if submit_status < 0 then length items \<le> start + READER_RING_SLOT_COUNT
      else answers_chunk content items ?s2i waits"
    using honest start uring by (auto simp: honest_ring_def)
  show ?thesis
  proof (cases "?s2i = []")
    case True
    then show ?thesis by (intro exI [of _ True]) (simp add: drive_chunk_def submitted bufs len)
  next
    case False
    show ?thesis
    proof (cases "submit_status < 0")
      case True
      have "drive_chunk (urings start) r cur start ?cnt consume = Some (False, ?r1, cur)"
        using True False uring by (simp add: drive_chunk_def submitted)
      then show ?thesis using True honest bufs len
        by (intro exI [of _ False] exI [of _ ?r1] exI [of _ cur]) simp
    next
      case no: False
      then have answers: "answers_chunk content items ?s2i waits" using honest by simp
      let ?zero = "replicate READER_RING_SLOT_COUNT (0 :: nat)"
      obtain ok cur' bytes' buffers' where drain:
          "drain_completions ?s2i consume (4 * length ?s2i) waits (cur, ?zero, slot_buffers r) = Some (ok, cur', bytes', buffers')"
        using drain_returns [of "4 * length ?s2i" waits ?s2i consume "(cur, ?zero, slot_buffers r)"] answers
        by (auto simp: answers_chunk_def)
      have chunk: "chunk_ok ?s2i (cur, ?zero, slot_buffers r)"
        using mem bufs len chunk_slots_facts(1,2) by (auto simp: chunk_ok_def)
      have mem': "\<forall>i \<in> set ?s2i. cur ! i = reset_item (items ! i) \<and> fits_in_slot (items ! i) \<and> answer_ok (content i)"
        using mem known by blast
      note outcome = drained_items [OF answers drain chunk _ mem']
      have "drive_chunk (urings start) r cur start ?cnt consume =
          Some (ok, r\<lparr>sq_entries := [], slot_buffers := buffers'\<rparr>, cur')"
        using False no uring drain by (simp add: drive_chunk_def submitted)
      then show ?thesis using outcome len bufs
        by (intro exI [of _ ok] exI [of _ "r\<lparr>sq_entries := [], slot_buffers := buffers'\<rparr>"] exI [of _ cur']) simp
    qed
  qed
qed

section \<open>Falling back\<close>

lemma fallback_items_each:
  assumes "\<forall>i \<in> set idxs. retry (xs ! i) \<longrightarrow> fallback_sync io consume (xs ! i) = Some (g i)"
    and "distinct idxs" and "\<forall>i \<in> set idxs. i < length xs"
  shows "\<exists>ys. fallback_items io consume retry idxs xs = Some ys \<and> length ys = length xs \<and>
    (\<forall>j < length xs. ys ! j = (if j \<in> set idxs \<and> retry (xs ! j) then g j else xs ! j))"
  using assms
proof (induction idxs arbitrary: xs)
  case (Cons i idxs)
  show ?case
  proof (cases "retry (xs ! i)")
    case True
    then have "fallback_sync io consume (xs ! i) = Some (g i)" using Cons.prems(1) by simp
    moreover have "\<exists>ys. fallback_items io consume retry idxs (xs[i := g i]) = Some ys \<and> length ys = length (xs[i := g i]) \<and>
        (\<forall>j < length (xs[i := g i]). ys ! j = (if j \<in> set idxs \<and> retry (xs[i := g i] ! j) then g j else xs[i := g i] ! j))"
      using Cons.prems by (intro Cons.IH) (auto simp: nth_list_update)
    ultimately show ?thesis using True Cons.prems(2,3) by (auto simp: nth_list_update)
  next
    case False
    moreover have "\<exists>ys. fallback_items io consume retry idxs xs = Some ys \<and> length ys = length xs \<and>
        (\<forall>j < length xs. ys ! j = (if j \<in> set idxs \<and> retry (xs ! j) then g j else xs ! j))"
      using Cons.prems by (intro Cons.IH) auto
    ultimately show ?thesis by auto
  qed
qed simp

definition delivered_to :: "'s consumer \<Rightarrow> u8 list \<Rightarrow> 's batch_item \<Rightarrow> 's batch_item \<Rightarrow> bool" where
  "delivered_to consume content item item' \<longleftrightarrow>
    (\<exists>chunks. concat chunks = content \<and> [] \<notin> set chunks \<and> item' = item_outcome consume chunks item)"

lemma item_outcome_reset [simp]: "item_outcome consume chunks (reset_item item) = item_outcome consume chunks item"
  by (simp add: item_outcome_def reset_item_def split: prod.split)

lemma fail_item_reset [simp]: "fail_item err (reset_item item) = fail_item err item"
  by (simp add: fail_item_def reset_item_def)

lemma fallback_delivers:
  assumes "serves io (item_path item) content"
  shows "\<exists>item'. fallback_sync io consume item = Some item' \<and> delivered_to consume content item item'"
proof -
  obtain chunks where chunks: "concat chunks = content" "[] \<notin> set chunks"
    and run: "reader_consume_file io (item_path item) (item_size item) consume (consumer_context item) =
      Some (case feed consume (consumer_context item) chunks of (ok, st') \<Rightarrow> (ok, if ok then 0 else EIO, st'))"
    using reader_delivers [OF assms, of "item_size item" consume "consumer_context item"] by blast
  have "fallback_sync io consume item = Some (item_outcome consume chunks item)"
    by (cases "feed consume (consumer_context item) chunks") (simp add: fallback_sync_def run item_outcome_def)
  then show ?thesis using chunks by (auto simp: delivered_to_def)
qed

lemma fallback_unopened: "yields io (item_path item) (Inl err) \<Longrightarrow> fallback_sync io consume item = Some (fail_item err item)"
  by (simp add: fallback_sync_def reader_consume_file_def fail_item_def)

section \<open>The whole batch\<close>

text \<open>
  How a file can end: its consumer was fed the bytes of the file, or its length was not the
  recorded one, which the ring reports as an input/output error with the consumer untouched. A
  file that cannot be opened ends with its error and the consumer untouched.
\<close>

definition settled :: "'s consumer \<Rightarrow> file_answer \<Rightarrow> 's batch_item \<Rightarrow> 's batch_item \<Rightarrow> bool" where
  "settled consume ans item item' \<longleftrightarrow>
    (case ans of
       Inl err \<Rightarrow> item' = fail_item err item
     | Inr content \<Rightarrow> delivered_to consume content item item' \<or>
         (unat (item_size item) \<noteq> length content \<and> fits_in_slot item \<and> item' = fail_item EIO item))"

lemma ring_outcome_settled:
  assumes "fits_in_slot item"
  shows "settled consume ans item (ring_outcome consume ans (reset_item item))"
proof (cases ans)
  case (Inl err)
  then show ?thesis by (simp add: settled_def ring_outcome_def)
next
  case (Inr content)
  show ?thesis
  proof (cases "unat (item_size item) = length content")
    case True
    then have "content \<noteq> []" using assms by (auto simp: fits_in_slot_def word_less_nat_alt)
    then have "delivered_to consume content item (item_outcome consume [content] item)"
      unfolding delivered_to_def by (intro exI [of _ "[content]"]) simp
    then show ?thesis using True by (simp add: Inr settled_def ring_outcome_def)
  next
    case False
    then show ?thesis using assms by (simp add: Inr settled_def ring_outcome_def)
  qed
qed

lemma fallback_settles:
  assumes "yields io (item_path item) ans"
  shows "\<exists>item'. fallback_sync io consume (reset_item item) = Some item' \<and> settled consume ans item item'"
proof (cases ans)
  case (Inl err)
  then show ?thesis using fallback_unopened [of io "reset_item item" err consume] assms by (simp add: settled_def)
next
  case (Inr content)
  then have "serves io (item_path (reset_item item)) content" using assms by simp
  from fallback_delivers [OF this, of consume] show ?thesis by (auto simp: Inr settled_def delivered_to_def)
qed

lemma ring_outcome_final:
  assumes "fits_in_slot item" and "answer_ok ans"
  shows "\<not> retry_after_failure (ring_outcome consume ans item)"
    and "\<not> retry_after_chunk (ring_outcome consume ans item)"
  using assms by (auto simp: ring_outcome_def retry_after_failure_def retry_after_chunk_def fail_item_def
      item_outcome_def fits_in_slot_def answer_ok_def split: prod.split sum.splits)

lemma reset_item_retried:
  "retry_after_failure (reset_item item)" "retry_after_chunk (reset_item item)"
  by (simp_all add: retry_after_failure_def retry_after_chunk_def reset_item_def)

lemma chunk_settles:
  assumes honest: "honest_ring content items urings" and start: "start < length items"
    and empty: "sq_entries r = []" and bufs: "length (slot_buffers r) = READER_RING_SLOT_COUNT"
    and len: "length cur = length items" and cur: "\<forall>i < length items. start \<le> i \<longrightarrow> cur ! i = reset_item (items ! i)"
    and io: "\<forall>i < length items. yields io (item_path (items ! i)) (content i)"
    and cnt: "cnt = min (length items - start) READER_RING_SLOT_COUNT"
  shows "\<exists>ok r' cur1 cur2. drive_chunk (urings start) r cur start cnt consume = Some (ok, r', cur1) \<and>
    fallback_items io consume (if ok then retry_after_chunk else retry_after_failure) [start ..< start + cnt] cur1 = Some cur2 \<and>
    length cur2 = length items \<and> length (slot_buffers r') = READER_RING_SLOT_COUNT \<and>
    (start + READER_RING_SLOT_COUNT < length items \<longrightarrow> sq_entries r' = []) \<and>
    (\<forall>j < length items. (start \<le> j \<and> j < start + cnt \<longrightarrow> settled consume (content j) (items ! j) (cur2 ! j)) \<and>
      (\<not> (start \<le> j \<and> j < start + cnt) \<longrightarrow> cur2 ! j = cur ! j))"
proof -
  obtain ok r' cur1 where drive: "drive_chunk (urings start) r cur start cnt consume = Some (ok, r', cur1)"
    and r': "length (slot_buffers r') = READER_RING_SLOT_COUNT" "start + READER_RING_SLOT_COUNT < length items \<longrightarrow> sq_entries r' = []"
    and len1: "length cur1 = length items"
    and rest: "\<forall>j < length items. j \<notin> set (chunk_slots items start) \<longrightarrow> cur1 ! j = cur ! j"
    and ring: "\<forall>j \<in> set (chunk_slots items start). cur1 ! j \<in> {cur ! j, ring_outcome consume (content j) (cur ! j)}"
    using drive_chunk_outcome [OF honest start empty bufs len cur, of consume, folded cnt] io yields_ok by blast
  let ?retry = "if ok then retry_after_chunk else (retry_after_failure :: 'a batch_item \<Rightarrow> bool)" and ?span = "[start ..< start + cnt]"
  let ?g = "\<lambda>i. the (fallback_sync io consume (reset_item (items ! i)))"
  text \<open>An item of the chunk is reset, or has its outcome from the ring.\<close>
  have item: "cur1 ! j = reset_item (items ! j) \<or>
      fits_in_slot (items ! j) \<and> cur1 ! j = ring_outcome consume (content j) (reset_item (items ! j))"
    if "j \<in> set ?span" for j
  proof (cases "j \<in> set (chunk_slots items start)")
    case True
    then have "cur ! j = reset_item (items ! j)" and "fits_in_slot (items ! j)"
      using cur that cnt by (auto simp: chunk_slots_facts)
    then show ?thesis using ring True by auto
  next
    case False
    then show ?thesis using rest cur that cnt by auto
  qed
  have fallback: "fallback_sync io consume (reset_item (items ! j)) = Some (?g j) \<and> settled consume (content j) (items ! j) (?g j)"
    if "j < length items" for j
    using fallback_settles [OF io [rule_format, OF that], of consume] by auto
  have retried: "?retry (cur1 ! j) \<longleftrightarrow> cur1 ! j = reset_item (items ! j)" if "j \<in> set ?span" for j
  proof -
    have "j < length items" using that cnt by auto
    then have "answer_ok (content j)" using io yields_ok by blast
    then show ?thesis
      using item [OF that] reset_item_retried [of "items ! j"] ring_outcome_final [of "reset_item (items ! j)" "content j" consume] by auto
  qed
  have "\<exists>ys. fallback_items io consume ?retry ?span cur1 = Some ys \<and> length ys = length cur1 \<and>
      (\<forall>j < length cur1. ys ! j = (if j \<in> set ?span \<and> ?retry (cur1 ! j) then ?g j else cur1 ! j))"
    by (rule fallback_items_each) (use retried fallback cnt len1 in auto)
  then obtain cur2 where fb: "fallback_items io consume ?retry ?span cur1 = Some cur2" and len2: "length cur2 = length cur1"
    and cur2: "\<And>j. j < length cur1 \<Longrightarrow> cur2 ! j = (if j \<in> set ?span \<and> ?retry (cur1 ! j) then ?g j else cur1 ! j)" by blast
  have "settled consume (content j) (items ! j) (cur2 ! j)" if "j < length items" "j \<in> set ?span" for j
  proof (cases "cur1 ! j = reset_item (items ! j)")
    case True
    then have "cur2 ! j = ?g j" using cur2 [of j] retried [OF that(2)] that len1 by simp
    then show ?thesis using fallback [OF that(1)] by simp
  next
    case False
    then have "cur2 ! j = cur1 ! j" using cur2 [of j] retried [OF that(2)] that len1 by simp
    then show ?thesis using item [OF that(2)] False ring_outcome_settled by auto
  qed
  moreover have "cur2 ! j = cur ! j" if "j < length items" "j \<notin> set ?span" for j
    using cur2 [of j] that len1 rest by (auto simp: chunk_slots_facts cnt)
  moreover have "length cur2 = length items" using len1 len2 by simp
  ultimately show ?thesis using drive fb r'
    by (intro exI [of _ ok] exI [of _ r'] exI [of _ cur1] exI [of _ cur2]) simp
qed

lemma consume_chunks_settle:
  assumes honest: "honest_ring content items urings"
    and "start \<le> length items"
    and "start < length items \<longrightarrow> sq_entries r = []" and "length (slot_buffers r) = READER_RING_SLOT_COUNT"
    and "length cur = length items" and "\<forall>i < length items. start \<le> i \<longrightarrow> cur ! i = reset_item (items ! i)"
    and io: "\<forall>i < length items. yields io (item_path (items ! i)) (content i)"
  shows "\<exists>r' items'. consume_chunks io urings consume (length items) start r cur = Some (r', items') \<and>
    length items' = length items \<and>
    (\<forall>j < length items. (start \<le> j \<longrightarrow> settled consume (content j) (items ! j) (items' ! j)) \<and> (j < start \<longrightarrow> items' ! j = cur ! j))"
  using assms(2-6)
proof (induction "length items - start" arbitrary: start r cur rule: less_induct)
  case less
  show ?case
  proof (cases "start < length items")
    case False
    then show ?thesis using less.prems by (subst consume_chunks.simps) auto
  next
    case True
    define cnt where cnt: "cnt = min (length items - start) READER_RING_SLOT_COUNT"
    have pos: "0 < cnt" using True by (simp add: cnt READER_RING_SLOT_COUNT_def)
    obtain ok r' cur1 cur2 where drive: "drive_chunk (urings start) r cur start cnt consume = Some (ok, r', cur1)"
      and fb: "fallback_items io consume (if ok then retry_after_chunk else retry_after_failure) [start ..< start + cnt] cur1 = Some cur2"
      and r': "length (slot_buffers r') = READER_RING_SLOT_COUNT" "start + READER_RING_SLOT_COUNT < length items \<longrightarrow> sq_entries r' = []"
      and len2: "length cur2 = length items"
      and settled: "\<And>j. j < length items \<Longrightarrow> start \<le> j \<Longrightarrow> j < start + cnt \<Longrightarrow> settled consume (content j) (items ! j) (cur2 ! j)"
      and kept: "\<And>j. j < length items \<Longrightarrow> \<not> (start \<le> j \<and> j < start + cnt) \<Longrightarrow> cur2 ! j = cur ! j"
      using chunk_settles [OF honest True _ less.prems(3-5) io cnt, of consume] less.prems(2) True by blast
    have step: "consume_chunks io urings consume (length items) start r cur =
        consume_chunks io urings consume (length items) (start + cnt) r' cur2"
      by (subst consume_chunks.simps) (simp add: True Let_def drive fb cnt [symmetric])
    have "\<exists>r'' items'. consume_chunks io urings consume (length items) (start + cnt) r' cur2 = Some (r'', items') \<and>
        length items' = length items \<and>
        (\<forall>j < length items. (start + cnt \<le> j \<longrightarrow> settled consume (content j) (items ! j) (items' ! j)) \<and>
          (j < start + cnt \<longrightarrow> items' ! j = cur2 ! j))"
    proof (rule less.hyps)
      show "length items - (start + cnt) < length items - start" using pos True by simp
      show "start + cnt < length items \<longrightarrow> sq_entries r' = []" using r'(2) by (auto simp: cnt)
      show "\<forall>i < length items. start + cnt \<le> i \<longrightarrow> cur2 ! i = reset_item (items ! i)"
        using kept less.prems(5) by auto
    qed (use r' len2 True in \<open>auto simp: cnt\<close>)
    then obtain r'' items' where run: "consume_chunks io urings consume (length items) (start + cnt) r' cur2 = Some (r'', items')"
      and len': "length items' = length items"
      and later: "\<And>j. j < length items \<Longrightarrow> start + cnt \<le> j \<Longrightarrow> settled consume (content j) (items ! j) (items' ! j)"
      and earlier: "\<And>j. j < length items \<Longrightarrow> j < start + cnt \<Longrightarrow> items' ! j = cur2 ! j" by blast
    have "settled consume (content j) (items ! j) (items' ! j)" if "j < length items" "start \<le> j" for j
      using later [of j] earlier [of j] settled [of j] that by (cases "start + cnt \<le> j") auto
    moreover have "items' ! j = cur ! j" if "j < length items" "j < start" for j
      using earlier [of j] kept [of j] that by simp
    ultimately show ?thesis unfolding step using run len'
      by (intro exI [of _ r''] exI [of _ items']) simp
  qed
qed

lemma batch_settled:
  assumes "honest_ring content items urings"
    and "sq_entries r = []" and "length (slot_buffers r) = READER_RING_SLOT_COUNT"
    and "\<forall>i < length items. yields io (item_path (items ! i)) (content i)"
  shows "\<exists>r' items'. reader_consume_batch io urings consume r items = Some (r', items') \<and>
    length items' = length items \<and>
    (\<forall>i < length items. settled consume (content i) (items ! i) (items' ! i))"
  using consume_chunks_settle [of content items urings 0 r "map reset_item items" io consume] assms
  by (auto simp: reader_consume_batch_def)

text \<open>A kernel that takes every submission leaves the ring ready for the next batch.\<close>

definition ring_idle :: "reader_ring \<Rightarrow> bool" where
  "ring_idle r \<longleftrightarrow> sq_entries r = [] \<and> length (slot_buffers r) = READER_RING_SLOT_COUNT"

lemma fold_take_cqe_buffers:
  "length (snd (snd (fold (take_cqe s2i consume) es st))) = length (snd (snd st))"
proof (induction es arbitrary: st)
  case (Cons e es)
  have "length (snd (snd (take_cqe s2i consume e st))) = length (snd (snd st))"
    by (cases st) (simp add: take_cqe_def handle_cqe_def deliver_def Let_def split: prod.split)
  with Cons show ?case by simp
qed simp

lemma drive_chunk_idle:
  assumes "drive_chunk uring r items start cnt consume = Some (ok, r', items')" and "ring_idle r"
    and "cnt \<le> READER_RING_SLOT_COUNT" and "\<And>sqes. 0 \<le> fst (uring sqes)"
  shows "ring_idle r'"
proof -
  let ?fit = "filter (\<lambda>i. fits_in_slot (items ! i)) [start ..< start + cnt]"
  let ?r1 = "r\<lparr>sq_entries := slot_chains 0 (map ((!) items) ?fit)\<rparr>"
  have submitted: "submit_slots r items [start ..< start + cnt] [] = (True, ?r1, ?fit)"
    using submit_slots_room [of r "[start ..< start + cnt]" items "[]"] assms(2,3)
    by (simp add: ring_idle_def RING_QUEUE_DEPTH_def)
  obtain status waits where uring: "uring (sq_entries ?r1) = (status, waits)" by (cases "uring (sq_entries ?r1)")
  have taken: "\<not> status < 0" using assms(4) [of "sq_entries ?r1"] uring by simp
  show ?thesis
  proof (cases "?fit = []")
    case True
    then have "r' = ?r1" using assms(1) unfolding drive_chunk_def submitted by simp
    then show ?thesis using assms(2) True by (simp add: ring_idle_def)
  next
    case False
    then obtain bytes' buffers' where r': "r' = r\<lparr>sq_entries := [], slot_buffers := buffers'\<rparr>"
      and drain: "drain_completions ?fit consume (4 * length ?fit) waits
        (items, replicate READER_RING_SLOT_COUNT 0, slot_buffers r) = Some (ok, items', bytes', buffers')"
      using assms(1) uring taken unfolding drive_chunk_def submitted by auto
    have "length buffers' = length (slot_buffers r)"
      using drain_takes_prefix [OF drain] fold_take_cqe_buffers [of ?fit consume] by (metis snd_conv)
    then show ?thesis using r' assms(2) by (simp add: ring_idle_def)
  qed
qed

lemma consume_chunks_idle:
  assumes "consume_chunks io urings consume n start r cur = Some (r', items')" and "ring_idle r"
    and "\<And>k sqes. 0 \<le> fst (urings k sqes)"
  shows "ring_idle r'"
  using assms
proof (induction io urings consume n start r cur rule: consume_chunks.induct)
  case (1 io urings consume n start r items)
  show ?case
  proof (cases "start < n")
    case True
    let ?cnt = "min (n - start) READER_RING_SLOT_COUNT"
    obtain ok r1 items1 items2 where drive: "drive_chunk (urings start) r items start ?cnt consume = Some (ok, r1, items1)"
      and fb: "fallback_items io consume (if ok then retry_after_chunk else retry_after_failure) [start ..< start + ?cnt] items1 = Some items2"
      and rest: "consume_chunks io urings consume n (start + ?cnt) r1 items2 = Some (r', items')"
      using "1.prems"(1) True by (subst (asm) consume_chunks.simps) (auto simp: Let_def split: option.splits prod.splits)
    have "ring_idle r1" using drive_chunk_idle [OF drive "1.prems"(2)] "1.prems"(3) by simp
    then show ?thesis using "1.IH" [OF True refl refl drive refl refl fb rest] "1.prems"(3) by blast
  next
    case False
    then show ?thesis using "1.prems" by (subst (asm) consume_chunks.simps) simp
  qed
qed

section \<open>Properties\<close>


text \<open>C26
  A file that cannot be opened, or changed size while it was read, never reaches its consumer
  through the ring: when every wait of a chunk succeeds, a file that fits in a slot and was not
  opened ends with the error of the open, and one whose length is not the recorded one as an
  input/output error, its consumer as it was; neither is tried again.
\<close>

theorem changed_file_is_reported:
  assumes "answers_chunk content items s2i waits"
    and "chunk_ok s2i (map reset_item items, replicate READER_RING_SLOT_COUNT 0, buffers)"
    and "\<forall>i \<in> set s2i. fits_in_slot (items ! i) \<and> answer_ok (content i)"
    and "drain_completions s2i consume (4 * length s2i) waits
      (map reset_item items, replicate READER_RING_SLOT_COUNT 0, buffers) = Some (True, items', bytes', buffers')"
    and "i \<in> set s2i" and "\<forall>bytes. content i = Inr bytes \<longrightarrow> unat (item_size (items ! i)) \<noteq> length bytes"
  shows "items' ! i = fail_item (case content i of Inl err \<Rightarrow> err | Inr _ \<Rightarrow> EIO) (items ! i) \<and> \<not> retry_after_chunk (items' ! i)"
proof -
  have i: "i < length items" and fits: "fits_in_slot (items ! i)" and ans: "answer_ok (content i)"
    using assms(2,3,5) by (auto simp: chunk_ok_def)
  have "items' ! i = ring_outcome consume (content i) (map reset_item items ! i)"
    by (rule drained_items(5) [OF assms(1,4,2)]) (use assms(2,3,5) in \<open>auto simp: chunk_ok_def\<close>)
  then show ?thesis using assms(6) i fits ans
    by (auto simp: ring_outcome_def retry_after_chunk_def fail_item_def fits_in_slot_def answer_ok_def split: sum.splits)
qed

section \<open>A kernel that answers in order\<close>

definition slot_results :: "(nat \<Rightarrow> file_answer) \<Rightarrow> 's batch_item list \<Rightarrow> nat list \<Rightarrow> nat \<Rightarrow> completion list" where
  "slot_results content items s2i slot = chain_results (content (s2i ! slot)) slot (items ! (s2i ! slot)) 0"

text \<open>It reads the path of a chain off the open and the recorded length off the probe.\<close>

fun chain_answers :: "(string \<Rightarrow> file_answer) \<Rightarrow> sqe list \<Rightarrow> completion list" where
  "chain_answers content (o1 # o2 # o3 # o4 # rest) =
    (case (sqe_operation o1, sqe_operation o3) of
       (Openat_direct path slot, Read_direct _ _ n) \<Rightarrow>
         chain_results (content path) slot
           \<lparr>item_path = path, item_size = of_nat n, consumer_context = (), success = False, errno_value = 0\<rparr> 0
         @ chain_answers content rest
     | _ \<Rightarrow> [])"
| "chain_answers content _ = []"

definition in_order_kernel :: "(string \<Rightarrow> file_answer) \<Rightarrow> uring" where
  "in_order_kernel content sqes = (int (length sqes), map Inr (chain_answers content sqes))"

lemma completions_map_Inr [simp]: "completions (map Inr es) = es"
  by (induction es) simp_all

lemma concat_single: "s < n \<Longrightarrow> concat (map (\<lambda>k. if k = s then xs else []) [0 ..< n]) = xs"
proof (induction n)
  case (Suc n)
  have "s = n \<Longrightarrow> concat (map (\<lambda>k. if k = s then xs else []) [0 ..< n]) = []" by simp
  with Suc show ?case by (cases "s = n") simp_all
qed simp

lemma slot_results_slot:
  assumes "slot < 2 ^ 32"
  shows "\<forall>e \<in> set (slot_results content items s2i slot). slot_of e = slot"
proof -
  have "unat (of_nat slot :: 32 word) = slot" using assms by (simp add: unsigned_of_nat take_bit_nat_eq_self)
  then show ?thesis by (simp add: slot_results_def chain_results_def slot_of_def Let_def split: sum.split)
qed

lemma chain_results_length: "length (chain_results ans slot item r) = 4"
  by (simp add: chain_results_def Let_def split: sum.split)

lemma in_order_ring_answers:
  assumes "length s2i \<le> READER_RING_SLOT_COUNT"
  shows "answers_chunk content items s2i (map Inr (concat (map (slot_results content items s2i) [0 ..< length s2i])))"
proof -
  let ?es = "concat (map (slot_results content items s2i) [0 ..< length s2i])"
  have small: "slot < 2 ^ 32" if "slot < length s2i" for slot
    using that assms by (simp add: READER_RING_SLOT_COUNT_def)
  have slot: "\<forall>e \<in> set (slot_results content items s2i slot). slot_of e = slot" if "slot < length s2i" for slot
    using slot_results_slot [OF small [OF that]] .
  have "filter (\<lambda>e. slot_of e = s) ?es = slot_results content items s2i s" if s: "s < length s2i" for s
  proof -
    have "map (filter (\<lambda>e. slot_of e = s)) (map (slot_results content items s2i) [0 ..< length s2i]) =
        map (\<lambda>k. if k = s then slot_results content items s2i s else []) [0 ..< length s2i]"
      using slot by (auto simp: filter_empty_conv filter_id_conv)
    then show ?thesis unfolding filter_concat by (simp only: concat_single [OF s])
  qed
  then have "prefix (filter (\<lambda>e. slot_of e = s) ?es) (chain_results (content (s2i ! s)) s (items ! (s2i ! s)) 0)"
    if "s < length s2i" for s
    using that by (simp add: slot_results_def)
  moreover have "length ?es = 4 * length s2i"
    by (simp add: length_concat comp_def slot_results_def chain_results_length sum_list_triv)
  ultimately show ?thesis using slot by (auto simp: answers_chunk_def waits_suffice_def)
qed

lemma chain_answers_chains:
  "chain_answers content (slot_chains n its) =
    concat (map (\<lambda>(k, it). chain_results (content (item_path it)) k it 0) (enumerate n its))"
  by (induction its arbitrary: n)
    (simp_all add: open_sqe_def probe_sqe_def chain_results_def Let_def split: sum.split)

lemma chain_answers_slots:
  "chain_answers content (slot_chains 0 (map ((!) items) s2i)) =
    concat (map (slot_results (\<lambda>k. content (item_path (items ! k))) items s2i) [0 ..< length s2i])"
proof -
  have "map (\<lambda>(k, it). chain_results (content (item_path it)) k it 0) (enumerate 0 (map ((!) items) s2i)) =
      map (slot_results (\<lambda>k. content (item_path (items ! k))) items s2i) [0 ..< length s2i]"
    by (rule nth_equalityI) (auto simp: slot_results_def nth_enumerate_eq)
  then show ?thesis by (simp add: chain_answers_chains)
qed

text \<open>
  A kernel is honest about the files of a file system when it answers every batch of them
  honestly, takes every submission, and fails no wait except for signals, so that nothing is
  left in the queues of a ring when it is used again.
\<close>

definition honest_kernel :: "(string \<Rightarrow> file_answer) \<Rightarrow> (nat \<Rightarrow> uring) \<Rightarrow> bool" where
  "honest_kernel content urings \<longleftrightarrow>
    (\<forall>items :: unit batch_item list. honest_ring (\<lambda>k. content (item_path (items ! k))) items urings) \<and>
    (\<forall>start sqes. 0 \<le> fst (urings start sqes) \<and> \<not> wait_failed (snd (urings start sqes)))"

lemma in_order_kernel_honest_ring: "honest_ring (\<lambda>k. content (item_path (items ! k))) items (\<lambda>_. in_order_kernel content)"
  by (auto simp: honest_ring_def in_order_kernel_def chain_answers_slots
      intro!: in_order_ring_answers chunk_slots_facts(2))

lemma in_order_kernel_honest: "honest_kernel content (\<lambda>_. in_order_kernel content)"
  using in_order_kernel_honest_ring by (auto simp: honest_kernel_def in_order_kernel_def)

text \<open>Honesty only depends on the paths and the recorded lengths of the items.\<close>

lemma chain_results_cong: "item_size x = item_size y \<Longrightarrow> chain_results c slot x r = chain_results c slot y r"
  by (simp add: chain_results_def)

lemma slot_chains_cong:
  "map item_path xs = map item_path ys \<Longrightarrow> map item_size xs = map item_size ys \<Longrightarrow> slot_chains n xs = slot_chains n ys"
proof (induction xs arbitrary: ys n)
  case (Cons x xs)
  then show ?case by (cases ys) (auto simp: open_sqe_def read_sqe_def probe_sqe_def)
qed simp

lemma answers_chunk_cong:
  assumes "\<forall>i \<in> set s2i. c i = d i \<and> item_size (xs ! i) = item_size (ys ! i)"
  shows "answers_chunk c xs s2i waits = answers_chunk d ys s2i waits"
proof -
  have "chain_results (c (s2i ! s)) s (xs ! (s2i ! s)) r = chain_results (d (s2i ! s)) s (ys ! (s2i ! s)) r"
    if "s < length s2i" for s r
  proof -
    have "s2i ! s \<in> set s2i" using that by simp
    then have "c (s2i ! s) = d (s2i ! s)" and "item_size (xs ! (s2i ! s)) = item_size (ys ! (s2i ! s))"
      using assms by blast+
    then show ?thesis by (metis chain_results_cong)
  qed
  then show ?thesis by (simp add: answers_chunk_def)
qed

lemma honest_ring_cong:
  fixes xs :: "'s batch_item list" and ys :: "'t batch_item list"
  assumes "map item_path xs = map item_path ys" and "map item_size xs = map item_size ys"
    and "\<And>i. i < length ys \<Longrightarrow> c i = d i"
  shows "honest_ring c xs urings = honest_ring d ys urings"
proof -
  have len: "length xs = length ys" using assms(1) by (metis length_map)
  have nth: "item_path (xs ! i) = item_path (ys ! i)" "item_size (xs ! i) = item_size (ys ! i)" if "i < length ys" for i
    using assms(1,2) that len by (metis nth_map)+
  have slots: "chunk_slots xs start = chunk_slots ys start" for start
    unfolding chunk_slots_def len using nth by (intro filter_cong) (auto simp: fits_in_slot_def)
  have mem: "i < length ys" if "i \<in> set (chunk_slots ys start)" for i start
    using that by (auto simp: chunk_slots_facts)
  have "slot_chains 0 (map ((!) xs) (chunk_slots ys start)) = slot_chains 0 (map ((!) ys) (chunk_slots ys start))" for start
    by (rule slot_chains_cong) (auto dest: mem simp: nth)
  moreover have "answers_chunk c xs (chunk_slots ys start) waits = answers_chunk d ys (chunk_slots ys start) waits"
    for start waits
    by (rule answers_chunk_cong) (auto dest: mem simp: nth assms(3))
  ultimately show ?thesis by (simp add: honest_ring_def slots len)
qed

lemma honest_kernelD:
  assumes "honest_kernel content urings"
  shows "honest_ring (\<lambda>k. content (item_path (items ! k))) items urings"
proof -
  let ?plain = "map (\<lambda>it. \<lparr>item_path = item_path it, item_size = item_size it, consumer_context = (),
    success = False, errno_value = 0\<rparr>) items"
  have "honest_ring (\<lambda>k. content (item_path (?plain ! k))) ?plain urings"
    using assms by (simp add: honest_kernel_def)
  moreover have "honest_ring (\<lambda>k. content (item_path (items ! k))) items urings =
      honest_ring (\<lambda>k. content (item_path (?plain ! k))) ?plain urings"
    by (rule honest_ring_cong) simp_all
  ultimately show ?thesis by simp
qed

lemma drain_all: "drain_completions s2i consume (length es) (map Inr es) st = Some (True, fold (take_cqe s2i consume) es st)"
  by (induction es arbitrary: st) (simp_all add: take_cqe_def)

section \<open>Witnesses\<close>


theorem changed_file_is_reported_witness:
  "\<exists>items' bytes' buffers'.
    drain_completions [0] sample_consumer 4 (map Inr (chain_results (Inr [1, 2, 3]) 0 (sample_item ''/a'' 2) 0))
      (map reset_item [sample_item ''/a'' 2], replicate READER_RING_SLOT_COUNT 0, replicate READER_RING_SLOT_COUNT []) =
      Some (True, items', bytes', buffers') \<and>
    items' ! 0 = fail_item EIO (sample_item ''/a'' 2)"
proof -
  let ?items = "[sample_item ''/a'' 2]" and ?es = "chain_results (Inr [1, 2, 3]) 0 (sample_item ''/a'' 2) 0"
  let ?st = "(map reset_item ?items, replicate READER_RING_SLOT_COUNT 0, replicate READER_RING_SLOT_COUNT [])"
  obtain items' bytes' buffers' where "fold (take_cqe [0] sample_consumer) ?es ?st = (items', bytes', buffers')"
    by (cases "fold (take_cqe [0] sample_consumer) ?es ?st")
  moreover have "length ?es = 4" by (simp add: chain_results_def Let_def)
  ultimately have drain: "drain_completions [0] sample_consumer (4 * length [0 :: nat]) (map Inr ?es) ?st =
      Some (True, items', bytes', buffers')"
    using drain_all [of "[0]" sample_consumer ?es ?st] by simp
  have answers: "answers_chunk (\<lambda>_. Inr [1, 2, 3]) ?items [0] (map Inr ?es)"
    using in_order_ring_answers [of "[0]" "\<lambda>_. Inr [1, 2, 3]" ?items] by (simp add: slot_results_def READER_RING_SLOT_COUNT_def)
  have chunk: "chunk_ok [0] ?st" by (simp add: chunk_ok_def READER_RING_SLOT_COUNT_def)
  have fits: "\<forall>i \<in> set [0]. fits_in_slot (?items ! i) \<and> answer_ok ((\<lambda>_. Inr [1, 2, 3]) i)"
    by (simp add: answer_ok_def fits_in_slot_def sample_item_def READER_RING_SLOT_BUFFER_BYTES_def word_le_nat_alt)
  have "items' ! 0 = fail_item EIO (?items ! 0)"
    using changed_file_is_reported [OF answers chunk fits drain, of 0] by (simp add: sample_item_def)
  then show ?thesis using drain by auto
qed

end
