(* ===== verification/Worker_Full.thy ===== *)
theory Worker_Full
  imports Ring_Delivery
begin

text \<open>
  \<^verbatim>\<open>src/worker/bc_duplicate_worker_full.c\<close>: the candidates are hashed whole, in batches of 32 read
  through a ring each worker keeps. The hash functions, the kernel, the schedule and the
  success of every set-up step are parameters.
\<close>

section \<open>The hashing interface\<close>

text \<open>
  The streaming interfaces of XXH3 (one state serves both widths) and SHA-256. A digest of
  128 bits is the pair of its high and its low half.
\<close>

record ('x, 'c) hash_api =
  xxh64_reset :: "'x \<Rightarrow> 'x"
  xxh64_update :: "'x \<Rightarrow> u8 list \<Rightarrow> 'x"
  xxh64_digest :: "'x \<Rightarrow> u64"
  xxh128_reset :: "'x \<Rightarrow> 'x"
  xxh128_update :: "'x \<Rightarrow> u8 list \<Rightarrow> 'x"
  xxh128_digest :: "'x \<Rightarrow> u64 \<times> u64"
  sha256_init :: "'c \<Rightarrow> bool \<times> 'c"
  sha256_update :: "'c \<Rightarrow> u8 list \<Rightarrow> bool \<times> 'c"
  sha256_finalize :: "'c \<Rightarrow> bool \<times> u8 list"

record ('x, 'c) consumer_state =
  consumer_algorithm :: algorithm
  xxh_state :: 'x
  sha256_context :: 'c
  failed :: bool

definition worker_digest_size :: "algorithm \<Rightarrow> nat" where
  "worker_digest_size alg =
    (case alg of ALGORITHM_XXH3 \<Rightarrow> XXH3_DIGEST_SIZE | ALGORITHM_XXH128 \<Rightarrow> XXH128_DIGEST_SIZE
     | ALGORITHM_SHA256 \<Rightarrow> SHA256_DIGEST_SIZE)"

text \<open>The memory of a 64-bit integer on the little-endian machines the program is built for.\<close>

definition le_bytes :: "u64 \<Rightarrow> u8 list" where
  "le_bytes w = map (\<lambda>k. ucast (drop_bit (8 * k) w)) [0 ..< 8]"

definition consumer_reset ::
  "('x, 'c) hash_api \<Rightarrow> algorithm \<Rightarrow> 'x \<times> 'c \<Rightarrow> bool \<times> ('x, 'c) consumer_state" where
  "consumer_reset api alg stale =
    (let st = \<lparr>consumer_algorithm = alg, xxh_state = fst stale, sha256_context = snd stale, failed = False\<rparr> in
     case alg of
       ALGORITHM_XXH3 \<Rightarrow> (True, st\<lparr>xxh_state := xxh64_reset api (fst stale)\<rparr>)
     | ALGORITHM_XXH128 \<Rightarrow> (True, st\<lparr>xxh_state := xxh128_reset api (fst stale)\<rparr>)
     | ALGORITHM_SHA256 \<Rightarrow> (case sha256_init api (snd stale) of (ok, ctx) \<Rightarrow> (ok, st\<lparr>sha256_context := ctx\<rparr>)))"

definition consumer_callback :: "('x, 'c) hash_api \<Rightarrow> ('x, 'c) consumer_state consumer" where
  "consumer_callback api st chunk =
    (case consumer_algorithm st of
       ALGORITHM_XXH3 \<Rightarrow> (True, st\<lparr>xxh_state := xxh64_update api (xxh_state st) chunk\<rparr>)
     | ALGORITHM_XXH128 \<Rightarrow> (True, st\<lparr>xxh_state := xxh128_update api (xxh_state st) chunk\<rparr>)
     | ALGORITHM_SHA256 \<Rightarrow>
         (case sha256_update api (sha256_context st) chunk of (ok, ctx) \<Rightarrow>
            if \<not> ok then (False, st\<lparr>sha256_context := ctx, failed := True\<rparr>)
            else (True, st\<lparr>sha256_context := ctx\<rparr>)))"

definition consumer_finalize ::
  "('x, 'c) hash_api \<Rightarrow> ('x, 'c) consumer_state \<Rightarrow> ('x, 'c) consumer_state \<times> u8 list" where
  "consumer_finalize api st =
    (let out_digest = replicate MAX_DIGEST_SIZE 0 in
     case consumer_algorithm st of
       ALGORITHM_XXH3 \<Rightarrow> (st, put_segment out_digest 0 (le_bytes (xxh64_digest api (xxh_state st))))
     | ALGORITHM_XXH128 \<Rightarrow>
         (case xxh128_digest api (xxh_state st) of (high64, low64) \<Rightarrow>
            (st, put_segment (put_segment out_digest 0 (le_bytes high64)) (length (le_bytes high64)) (le_bytes low64)))
     | ALGORITHM_SHA256 \<Rightarrow>
         (case sha256_finalize api (sha256_context st) of (ok, digest) \<Rightarrow>
            (if \<not> ok then st\<lparr>failed := True\<rparr> else st, put_segment out_digest 0 digest)))"

section \<open>Worker slots\<close>

record full_slot =
  slot_ring :: "reader_ring option"
  ring_initialised :: bool
  xxh_states_ready :: bool

definition zeroed_slot :: full_slot where
  "zeroed_slot = \<lparr>slot_ring = None, ring_initialised = False, xxh_states_ready = False\<rparr>"

text \<open>
  What the environment answers iteration \<open>i\<close>: the worker that runs it, whether the worker has
  a slot, the statuses of the two calls that set up a ring, whether the \<open>k\<close>-th hash state can
  be created, what the hash contexts hold before they are reset, the kernel's answers, and
  the answer of the signal handler.
\<close>

record ('x, 'c) full_env =
  worker_of :: "nat \<Rightarrow> nat"
  slot_present :: "nat \<Rightarrow> bool"
  ring_statuses :: "nat \<Rightarrow> int \<times> int"
  state_created :: "nat \<Rightarrow> nat \<Rightarrow> bool"
  stale_contexts :: "nat \<Rightarrow> nat \<Rightarrow> 'x \<times> 'c"
  ring_answers :: "nat \<Rightarrow> nat \<Rightarrow> uring"
  stop_asked :: "nat \<Rightarrow> bool"

definition ensure_ring :: "int \<times> int \<Rightarrow> pool \<Rightarrow> full_slot \<Rightarrow> bool \<times> full_slot \<times> pool" where
  "ensure_ring statuses m slot =
    (if ring_initialised slot then (True, slot, m)
     else
       (case pool_allocate m of
          (None, m1) \<Rightarrow> (False, slot, m1)
        | (Some b, m1) \<Rightarrow>
            (case ring_init (fst statuses) (snd statuses) of (ok, r) \<Rightarrow>
               if \<not> ok then (False, slot\<lparr>slot_ring := None\<rparr>, pool_free b m1)
               else (True, slot\<lparr>slot_ring := Some r, ring_initialised := True\<rparr>, m1))))"

fun create_states :: "(nat \<Rightarrow> bool) \<Rightarrow> nat \<Rightarrow> bool" where
  "create_states created 0 = True"
| "create_states created (Suc n) = (create_states created n \<and> created n)"

definition ensure_slot :: "bool \<Rightarrow> int \<times> int \<Rightarrow> (nat \<Rightarrow> bool) \<Rightarrow> pool \<Rightarrow> full_slot \<Rightarrow> bool \<times> full_slot \<times> pool" where
  "ensure_slot present statuses created m slot =
    (if \<not> present then (False, slot, m)
     else
       (case ensure_ring statuses m slot of (ok, slot1, m1) \<Rightarrow>
          if \<not> ok then (False, slot1, m1)
          else if xxh_states_ready slot1 then (True, slot1, m1)
          else if \<not> create_states created READER_RING_SLOT_COUNT then (False, slot1, m1)
          else (True, slot1\<lparr>xxh_states_ready := True\<rparr>, m1)))"

definition full_destroy_slot :: "full_slot \<Rightarrow> full_slot" where
  "full_destroy_slot slot =
    (let slot1 = (case slot_ring slot of
           Some r \<Rightarrow> if ring_initialised slot then slot\<lparr>slot_ring := Some (ring_destroy r), ring_initialised := False\<rparr> else slot
         | None \<Rightarrow> slot) in
     if xxh_states_ready slot1 then slot1\<lparr>xxh_states_ready := False\<rparr> else slot1)"

section \<open>One batch\<close>

definition batch_item_of ::
  "('x, 'c) hash_api \<Rightarrow> algorithm \<Rightarrow> 'x \<times> 'c \<Rightarrow> file_entry \<Rightarrow> ('x, 'c) consumer_state batch_item" where
  "batch_item_of api alg stale entry =
    \<lparr>item_path = absolute_path entry, item_size = file_size entry,
     consumer_context = snd (consumer_reset api alg stale), success = False, errno_value = 0\<rparr>"

definition store_result ::
  "('x, 'c) hash_api \<Rightarrow> ('x, 'c) consumer_state batch_item \<Rightarrow> file_entry \<Rightarrow> file_entry" where
  "store_result api item entry =
    (let st = consumer_context item; entry1 = entry\<lparr>full_hash_computed := True\<rparr> in
     if \<not> success item \<or> failed st
     then entry1\<lparr>full_hash_errno := (if errno_value item \<noteq> 0 then errno_value item else EIO)\<rparr>
     else (case consumer_finalize api st of (st', digest) \<Rightarrow>
             entry1\<lparr>full_hash := digest, full_hash_errno := (if failed st' then EIO else 0)\<rparr>))"

fun store_results ::
  "('x, 'c) hash_api \<Rightarrow> nat list \<Rightarrow> ('x, 'c) consumer_state batch_item list \<Rightarrow> file_entry list \<Rightarrow> file_entry list" where
  "store_results api (j # js) (item # items) entries =
    store_results api js items (entries[j := store_result api item (entries ! j)])"
| "store_results api _ _ entries = entries"

definition process_batch ::
  "file_io \<Rightarrow> (nat \<Rightarrow> uring) \<Rightarrow> ('x, 'c) hash_api \<Rightarrow> algorithm \<Rightarrow> (nat \<Rightarrow> 'x \<times> 'c) \<Rightarrow> nat list \<Rightarrow> reader_ring
    \<Rightarrow> file_entry list \<Rightarrow> (reader_ring \<times> file_entry list) option" where
  "process_batch io urings api alg stale batch r entries =
    (let items = map (\<lambda>(offset, j). batch_item_of api alg (stale offset) (entries ! j)) (enumerate 0 batch) in
     case reader_consume_batch io urings (consumer_callback api) r items of
       None \<Rightarrow> None
     | Some (r', items') \<Rightarrow> Some (r', store_results api batch items' entries))"

section \<open>The pass\<close>

text \<open>\<open>blocked\<close> records that some iteration never returned.\<close>

record full_state =
  state_entries :: "file_entry list"
  worker_slots :: "nat \<Rightarrow> full_slot"
  worker_pools :: "nat \<Rightarrow> pool"
  blocked :: bool

definition batch_of :: "nat list \<Rightarrow> nat \<Rightarrow> nat list" where
  "batch_of ixs iteration_index =
    (let batch_start = iteration_index * READER_RING_SLOT_COUNT in
     segment ixs batch_start (min (length ixs - batch_start) READER_RING_SLOT_COUNT))"

definition full_iter ::
  "file_io \<Rightarrow> ('x, 'c) full_env \<Rightarrow> ('x, 'c) hash_api \<Rightarrow> algorithm \<Rightarrow> nat list \<Rightarrow> nat \<Rightarrow> full_state \<Rightarrow> full_state" where
  "full_iter io env api alg ixs iteration_index st =
    (if stop_asked env iteration_index then st
     else
       (let w = worker_of env iteration_index in
        case ensure_slot (slot_present env iteration_index) (ring_statuses env iteration_index)
               (state_created env iteration_index) (worker_pools st w) (worker_slots st w) of
          (ok, slot, m) \<Rightarrow>
            (let st1 = st\<lparr>worker_slots := (worker_slots st)(w := slot), worker_pools := (worker_pools st)(w := m)\<rparr> in
             if \<not> ok then st1
             else if iteration_index * READER_RING_SLOT_COUNT \<ge> length ixs then st1
             else
               (case process_batch io (ring_answers env iteration_index) api alg (stale_contexts env iteration_index)
                       (batch_of ixs iteration_index) (the (slot_ring slot)) (state_entries st1) of
                  None \<Rightarrow> st1\<lparr>blocked := True\<rparr>
                | Some (r', entries') \<Rightarrow>
                    st1\<lparr>state_entries := entries',
                        worker_slots := (worker_slots st1)(w := slot\<lparr>slot_ring := Some r'\<rparr>)\<rparr>))))"

text \<open>
  \<open>registered\<close> is the answer to the registration of the worker slots, \<open>stop_before\<close> that of
  the signal handler to the single-threaded loop. \<open>None\<close> is a pass that never returns.
\<close>

definition worker_full_pass ::
  "nat sorter \<Rightarrow> par_for \<Rightarrow> file_io \<Rightarrow> ('x, 'c) full_env \<Rightarrow> ('x, 'c) hash_api \<Rightarrow> bool \<Rightarrow> (nat \<Rightarrow> bool) \<Rightarrow> (nat \<Rightarrow> pool)
    \<Rightarrow> pool \<Rightarrow> algorithm \<Rightarrow> file_entry list \<Rightarrow> group list \<Rightarrow> bool \<Rightarrow> (bool \<times> file_entry list \<times> nat \<times> pool) option" where
  "worker_full_pass srt par io env api registered stop_before pools m alg entries candidate_groups force_single_thread =
    (let total = total_candidates candidate_groups in
     if total = 0 then Some (True, entries, 0, m)
     else
       (case pool_allocate m of
          (None, m1) \<Rightarrow> Some (False, entries, 0, m1)
        | (Some b, m1) \<Rightarrow>
            if \<not> registered then Some (False, entries, 0, pool_free b m1)
            else
              (let ixs = sort_indices_by_size_desc srt entries (candidate_indices candidate_groups);
                   batch_count = (total + READER_RING_SLOT_COUNT - 1) div READER_RING_SLOT_COUNT;
                   (order, dispatch_ok) =
                     (if force_single_thread then (takeWhile (\<lambda>i. \<not> stop_before i) [0 ..< batch_count], True)
                      else par batch_count);
                   st = fold (full_iter io env api alg ixs) order
                     \<lparr>state_entries = entries, worker_slots = (\<lambda>_. zeroed_slot), worker_pools = pools, blocked = False\<rparr>;
                   m2 = pool_free b m1 in
               if blocked st then None
               else if \<not> dispatch_ok then Some (False, state_entries st, 0, m2)
               else Some (True, state_entries st, total, m2))))"

section \<open>What the hash functions promise\<close>

text \<open>
  The streaming interfaces compute functions of the concatenated chunks, from whatever a
  context held before it was reset, and SHA-256 never fails.
\<close>

record digests =
  digest_xxh64 :: "u8 list \<Rightarrow> u64"
  digest_xxh128 :: "u8 list \<Rightarrow> u64 \<times> u64"
  digest_sha256 :: "u8 list \<Rightarrow> u8 list"

definition hash_contract :: "('x, 'c) hash_api \<Rightarrow> digests \<Rightarrow> bool" where
  "hash_contract api ds \<longleftrightarrow>
    (\<forall>x chunks. xxh64_digest api (fold (\<lambda>c s. xxh64_update api s c) chunks (xxh64_reset api x)) = digest_xxh64 ds (concat chunks)) \<and>
    (\<forall>x chunks. xxh128_digest api (fold (\<lambda>c s. xxh128_update api s c) chunks (xxh128_reset api x)) = digest_xxh128 ds (concat chunks)) \<and>
    (\<forall>c chunks. \<exists>c0 c1. sha256_init api c = (True, c0) \<and> feed (sha256_update api) c0 chunks = (True, c1) \<and>
      sha256_finalize api c1 = (True, digest_sha256 ds (concat chunks))) \<and>
    (\<forall>content. length (digest_sha256 ds content) = SHA256_DIGEST_SIZE)"

text \<open>The digest of a content as the entries hold it: padded with zeros to 32 bytes.\<close>

definition full_digest :: "digests \<Rightarrow> algorithm \<Rightarrow> u8 list \<Rightarrow> u8 list" where
  "full_digest ds alg content =
    (case alg of
       ALGORITHM_XXH3 \<Rightarrow> le_bytes (digest_xxh64 ds content)
     | ALGORITHM_XXH128 \<Rightarrow> le_bytes (fst (digest_xxh128 ds content)) @ le_bytes (snd (digest_xxh128 ds content))
     | ALGORITHM_SHA256 \<Rightarrow> digest_sha256 ds content) @ replicate (MAX_DIGEST_SIZE - worker_digest_size alg) 0"

text \<open>What the full pass makes of an entry whose path yields an answer.\<close>

definition full_hash_entry :: "digests \<Rightarrow> algorithm \<Rightarrow> (string \<Rightarrow> file_answer) \<Rightarrow> file_entry \<Rightarrow> file_entry" where
  "full_hash_entry ds alg disk e =
    (case disk (absolute_path e) of
       Inl err \<Rightarrow> e\<lparr>full_hash_computed := True, full_hash_errno := err\<rparr>
     | Inr content \<Rightarrow> e\<lparr>full_hash := full_digest ds alg content, full_hash_computed := True, full_hash_errno := 0\<rparr>)"

lemma full_hash_entry_identity [simp]:
  "absolute_path (full_hash_entry ds alg disk e) = absolute_path e" "file_size (full_hash_entry ds alg disk e) = file_size e"
  "fast_hash (full_hash_entry ds alg disk e) = fast_hash e"
  by (simp_all add: full_hash_entry_def split: sum.split)

lemma length_le_bytes [simp]: "length (le_bytes w) = 8"
  by (simp add: le_bytes_def)

lemma feed_xxh64:
  "consumer_algorithm st = ALGORITHM_XXH3 \<Longrightarrow>
    feed (consumer_callback api) st chunks = (True, st\<lparr>xxh_state := fold (\<lambda>c s. xxh64_update api s c) chunks (xxh_state st)\<rparr>)"
  by (induction chunks arbitrary: st) (simp_all add: consumer_callback_def)

lemma feed_xxh128:
  "consumer_algorithm st = ALGORITHM_XXH128 \<Longrightarrow>
    feed (consumer_callback api) st chunks = (True, st\<lparr>xxh_state := fold (\<lambda>c s. xxh128_update api s c) chunks (xxh_state st)\<rparr>)"
  by (induction chunks arbitrary: st) (simp_all add: consumer_callback_def)

lemma feed_sha256:
  "consumer_algorithm st = ALGORITHM_SHA256 \<Longrightarrow> feed (sha256_update api) (sha256_context st) chunks = (True, c) \<Longrightarrow>
    feed (consumer_callback api) st chunks = (True, st\<lparr>sha256_context := c\<rparr>)"
  by (induction chunks arbitrary: st) (auto simp: consumer_callback_def split: prod.splits if_splits)

text \<open>A consumer that was reset and fed yields the digest of what it was fed.\<close>

lemma consumer_digest:
  assumes "hash_contract api ds"
  shows "\<exists>st'. feed (consumer_callback api) (snd (consumer_reset api alg stale)) chunks = (True, st') \<and> \<not> failed st' \<and>
    consumer_finalize api st' = (st', full_digest ds alg (concat chunks))"
proof (cases alg)
  case ALGORITHM_XXH3
  then show ?thesis using assms
    by (simp add: consumer_reset_def feed_xxh64 consumer_finalize_def hash_contract_def full_digest_def
        worker_digest_size_def put_segment_def digest_size_defs)
next
  case ALGORITHM_XXH128
  then show ?thesis using assms
    by (simp add: consumer_reset_def feed_xxh128 consumer_finalize_def hash_contract_def full_digest_def
        worker_digest_size_def put_segment_def digest_size_defs split: prod.split)
next
  case ALGORITHM_SHA256
  obtain c0 c1 where sha: "sha256_init api (snd stale) = (True, c0)" "feed (sha256_update api) c0 chunks = (True, c1)"
      "sha256_finalize api c1 = (True, digest_sha256 ds (concat chunks))"
    and len: "length (digest_sha256 ds (concat chunks)) = SHA256_DIGEST_SIZE"
    using assms unfolding hash_contract_def by metis
  let ?st = "snd (consumer_reset api alg stale)"
  have "feed (consumer_callback api) ?st chunks = (True, ?st\<lparr>sha256_context := c1\<rparr>)"
    using sha by (intro feed_sha256) (simp_all add: consumer_reset_def ALGORITHM_SHA256)
  then show ?thesis using sha len ALGORITHM_SHA256
    by (simp add: consumer_reset_def consumer_finalize_def full_digest_def worker_digest_size_def
        put_segment_def digest_size_defs)
qed

section \<open>What a batch does to the entries\<close>

lemma store_result_delivered:
  assumes "hash_contract api ds"
    and "delivered_to (consumer_callback api) content (batch_item_of api alg stale e) item"
  shows "store_result api item entry =
    entry\<lparr>full_hash := full_digest ds alg content, full_hash_computed := True, full_hash_errno := 0\<rparr>"
proof -
  obtain chunks where chunks: "concat chunks = content"
    and item: "item = item_outcome (consumer_callback api) chunks (batch_item_of api alg stale e)"
    using assms(2) by (auto simp: delivered_to_def)
  obtain st' where "feed (consumer_callback api) (snd (consumer_reset api alg stale)) chunks = (True, st')"
      "\<not> failed st'" "consumer_finalize api st' = (st', full_digest ds alg (concat chunks))"
    using consumer_digest [OF assms(1)] by blast
  then show ?thesis
    by (simp add: store_result_def item item_outcome_def batch_item_of_def chunks)
qed

lemma store_results_nth:
  assumes "length items = length js" and "distinct js" and "\<forall>j \<in> set js. j < length es"
  shows "length (store_results api js items es) = length es \<and>
    (\<forall>k < length js. store_results api js items es ! (js ! k) = store_result api (items ! k) (es ! (js ! k))) \<and>
    (\<forall>j < length es. j \<notin> set js \<longrightarrow> store_results api js items es ! j = es ! j)"
  using assms
proof (induction api js items es rule: store_results.induct)
  case (1 api j js item items es)
  let ?es = "es[j := store_result api item (es ! j)]"
  have IH: "length (store_results api js items ?es) = length ?es \<and>
    (\<forall>k < length js. store_results api js items ?es ! (js ! k) = store_result api (items ! k) (?es ! (js ! k))) \<and>
    (\<forall>j < length ?es. j \<notin> set js \<longrightarrow> store_results api js items ?es ! j = ?es ! j)"
    using "1.prems" by (intro "1.IH") auto
  have other: "?es ! (js ! k) = es ! (js ! k)" if "k < length js" for k
    using "1.prems"(2) that by (metis distinct.simps(2) nth_list_update_neq nth_mem)
  show ?case
  proof (intro conjI allI impI)
    fix k assume "k < length (j # js)"
    then show "store_results api (j # js) (item # items) es ! ((j # js) ! k) =
        store_result api ((item # items) ! k) (es ! ((j # js) ! k))"
      using IH other "1.prems" by (cases k) auto
  qed (use IH "1.prems" in auto)
qed auto

text \<open>A file that cannot be opened keeps the digest it had.\<close>

lemma store_result_unopened:
  "0 < err \<Longrightarrow> store_result api (fail_item err item) entry = entry\<lparr>full_hash_computed := True, full_hash_errno := err\<rparr>"
  by (simp add: store_result_def fail_item_def)

lemma process_batch_hashes:
  assumes contract: "hash_contract api ds" and kernel: "honest_kernel disk urings" and idle: "ring_idle r"
    and served: "\<forall>j \<in> set batch. yields io (absolute_path (es ! j)) (disk (absolute_path (es ! j))) \<and>
      has_length (disk (absolute_path (es ! j))) (unat (file_size (es ! j)))"
    and batch: "distinct batch" "\<forall>j \<in> set batch. j < length es"
  shows "\<exists>r' es'. process_batch io urings api alg stale batch r es = Some (r', es') \<and> ring_idle r' \<and> length es' = length es \<and>
    (\<forall>j < length es. es' ! j = (if j \<in> set batch then full_hash_entry ds alg disk (es ! j) else es ! j))"
proof -
  define items where "items = map (\<lambda>(offset, j). batch_item_of api alg (stale offset) (es ! j)) (enumerate 0 batch)"
  have len: "length items = length batch" by (simp add: items_def)
  have item: "items ! k = batch_item_of api alg (stale k) (es ! (batch ! k))" if "k < length batch" for k
    using that by (simp add: items_def nth_enumerate_eq)
  have path: "item_path (items ! k) = absolute_path (es ! (batch ! k))"
    "item_size (items ! k) = file_size (es ! (batch ! k))" if "k < length batch" for k
    using item [OF that] by (simp_all add: batch_item_of_def)
  have served_items: "\<forall>k < length items. yields io (item_path (items ! k)) (disk (item_path (items ! k)))"
    using served path len by simp
  obtain r' items' where run: "reader_consume_batch io urings (consumer_callback api) r items = Some (r', items')"
    and len': "length items' = length items"
    and settled: "\<And>k. k < length items \<Longrightarrow> settled (consumer_callback api) (disk (item_path (items ! k))) (items ! k) (items' ! k)"
    using batch_settled [OF honest_kernelD [OF kernel] _ _ served_items, of r "consumer_callback api"] idle
    by (auto simp: ring_idle_def)
  have result: "store_result api (items' ! k) (es ! (batch ! k)) = full_hash_entry ds alg disk (es ! (batch ! k))"
    if k: "k < length batch" for k
  proof (cases "disk (absolute_path (es ! (batch ! k)))")
    case (Inl err)
    then have "items' ! k = fail_item err (items ! k)" and "0 < err"
      using settled [of k] served k len by (auto simp: settled_def path) (metis Inl nth_mem yields_simps(1))
    then show ?thesis using Inl store_result_unopened [of err] by (simp add: full_hash_entry_def)
  next
    case (Inr content)
    have "batch ! k \<in> set batch" using k by simp
    then have "unat (item_size (items ! k)) = length content"
      using served k Inr by (metis path(2) yields_simps(4))
    then have "delivered_to (consumer_callback api) content
        (batch_item_of api alg (stale k) (es ! (batch ! k))) (items' ! k)"
      using settled [of k] k len Inr by (simp add: settled_def item [OF k] batch_item_of_def)
    from store_result_delivered [OF contract this] show ?thesis by (simp add: full_hash_entry_def Inr)
  qed
  have store: "length (store_results api batch items' es) = length es \<and>
    (\<forall>k < length batch. store_results api batch items' es ! (batch ! k) = store_result api (items' ! k) (es ! (batch ! k))) \<and>
    (\<forall>j < length es. j \<notin> set batch \<longrightarrow> store_results api batch items' es ! j = es ! j)"
    using batch len len' by (intro store_results_nth) auto
  have "ring_idle r'"
    using consume_chunks_idle [of io urings "consumer_callback api" "length items" 0 r "map reset_item items" r' items'] run idle kernel
    by (simp add: reader_consume_batch_def honest_kernel_def)
  moreover have "process_batch io urings api alg stale batch r es = Some (r', store_results api batch items' es)"
    using run by (simp add: process_batch_def items_def [symmetric])
  moreover have "store_results api batch items' es ! j = (if j \<in> set batch then full_hash_entry ds alg disk (es ! j) else es ! j)"
    if "j < length es" for j
    using store result that by (auto simp: in_set_conv_nth)
  ultimately show ?thesis using store by blast
qed

section \<open>What an iteration does\<close>

definition full_env_ok :: "('x, 'c) full_env \<Rightarrow> (string \<Rightarrow> file_answer) \<Rightarrow> bool" where
  "full_env_ok env disk \<longleftrightarrow>
    (\<forall>i. \<not> stop_asked env i \<and> slot_present env i \<and> 0 \<le> fst (ring_statuses env i) \<and> 0 \<le> snd (ring_statuses env i) \<and>
      (\<forall>k. state_created env i k) \<and> honest_kernel disk (ring_answers env i))"

text \<open>The candidates hold still: each yields what its path holds, a content of the recorded length or an error.\<close>

definition keeps_still :: "file_io \<Rightarrow> (string \<Rightarrow> file_answer) \<Rightarrow> file_entry \<Rightarrow> bool" where
  "keeps_still io disk e \<longleftrightarrow>
    yields io (absolute_path e) (disk (absolute_path e)) \<and> has_length (disk (absolute_path e)) (unat (file_size e))"

definition slot_ready :: "full_slot \<Rightarrow> bool" where
  "slot_ready slot \<longleftrightarrow> (ring_initialised slot \<longrightarrow> (\<exists>r. slot_ring slot = Some r \<and> ring_idle r))"

lemma create_states_all: "(\<And>k. created k) \<Longrightarrow> create_states created n"
  by (induction n) simp_all

lemma ensure_slot_ok:
  assumes "grants m = (\<lambda>_. True)" and "slot_ready slot" and "0 \<le> fst statuses" and "0 \<le> snd statuses" and "\<And>k. created k"
  shows "\<exists>slot' m'. ensure_slot True statuses created m slot = (True, slot', m') \<and> grants m' = (\<lambda>_. True) \<and>
    slot_ready slot' \<and> ring_initialised slot'"
proof (cases "ring_initialised slot")
  case True
  then show ?thesis using assms create_states_all [of created]
    by (simp add: ensure_slot_def ensure_ring_def slot_ready_def)
next
  case False
  obtain b m1 where "pool_allocate m = (Some b, m1)" "grants m1 = (\<lambda>_. True)"
    using pool_allocate_granted [OF assms(1)] assms(1) by metis
  then show ?thesis using False assms create_states_all [of created]
    by (simp add: ensure_slot_def ensure_ring_def slot_ready_def ring_init_def ring_idle_def Let_def)
qed

lemma in_batch_of:
  assumes "i * READER_RING_SLOT_COUNT < length ixs"
  shows "j \<in> set (batch_of ixs i) \<longleftrightarrow> (\<exists>p < length ixs. p div READER_RING_SLOT_COUNT = i \<and> ixs ! p = j)"
proof -
  let ?c = READER_RING_SLOT_COUNT and ?n = "min (length ixs - i * READER_RING_SLOT_COUNT) READER_RING_SLOT_COUNT"
  have pos: "0 < ?c" by (simp add: READER_RING_SLOT_COUNT_def)
  have fits: "i * ?c + ?n \<le> length ixs" using assms by auto
  have "j \<in> set (batch_of ixs i) \<longleftrightarrow> (\<exists>k < ?n. ixs ! (i * ?c + k) = j)"
    unfolding batch_of_def Let_def in_set_conv_nth length_segment [OF fits]
    using nth_segment [OF _ fits] by metis
  also have "\<dots> \<longleftrightarrow> (\<exists>p < length ixs. p div ?c = i \<and> ixs ! p = j)"
  proof
    assume "\<exists>k < ?n. ixs ! (i * ?c + k) = j"
    then obtain k where "k < ?n" "ixs ! (i * ?c + k) = j" by blast
    then show "\<exists>p < length ixs. p div ?c = i \<and> ixs ! p = j"
      using pos by (intro exI [of _ "i * ?c + k"]) (auto simp: less_diff_conv)
  next
    assume "\<exists>p < length ixs. p div ?c = i \<and> ixs ! p = j"
    then obtain p where p: "p < length ixs" "p div ?c = i" "ixs ! p = j" by blast
    have "i * ?c + p mod ?c = p" using p(2) by (metis div_mult_mod_eq)
    moreover have "p mod ?c < ?c" using pos by simp
    ultimately show "\<exists>k < ?n. ixs ! (i * ?c + k) = j"
      using p by (intro exI [of _ "p mod ?c"]) auto
  qed
  finally show ?thesis .
qed

lemma distinct_batch_of: "distinct ixs \<Longrightarrow> distinct (batch_of ixs i)"
  by (simp add: batch_of_def segment_def Let_def)

lemma set_batch_of: "set (batch_of ixs i) \<subseteq> set ixs"
  unfolding batch_of_def Let_def by (rule set_segment)

definition full_good ::
  "file_io \<Rightarrow> ('x, 'c) full_env \<Rightarrow> ('x, 'c) hash_api \<Rightarrow> digests \<Rightarrow> (string \<Rightarrow> file_answer) \<Rightarrow> nat list \<Rightarrow> full_state \<Rightarrow> bool" where
  "full_good io env api ds disk ixs st \<longleftrightarrow>
    hash_contract api ds \<and> full_env_ok env disk \<and> distinct ixs \<and>
    (\<forall>j \<in> set ixs. j < length (state_entries st) \<and> keeps_still io disk (state_entries st ! j)) \<and>
    (\<forall>w. slot_ready (worker_slots st w) \<and> grants (worker_pools st w) = (\<lambda>_. True)) \<and> \<not> blocked st"

lemma keeps_still_full_hash [simp]: "keeps_still io disk (full_hash_entry ds alg disk' e) = keeps_still io disk e"
  by (simp add: keeps_still_def)

lemma full_iter_hashes:
  assumes good: "full_good io env api ds disk ixs st" and i: "i * READER_RING_SLOT_COUNT < length ixs"
  shows "full_good io env api ds disk ixs (full_iter io env api alg ixs i st)"
    and "length (state_entries (full_iter io env api alg ixs i st)) = length (state_entries st)"
    and "j < length (state_entries st) \<Longrightarrow> state_entries (full_iter io env api alg ixs i st) ! j =
      (if j \<in> set (batch_of ixs i) then full_hash_entry ds alg disk (state_entries st ! j) else state_entries st ! j)"
proof -
  let ?w = "worker_of env i" and ?es = "state_entries st"
  have env: "\<not> stop_asked env i" "slot_present env i" "0 \<le> fst (ring_statuses env i)" "0 \<le> snd (ring_statuses env i)"
      "\<And>k. state_created env i k" "honest_kernel disk (ring_answers env i)"
    using good by (auto simp: full_good_def full_env_ok_def)
  have worker: "grants (worker_pools st ?w) = (\<lambda>_. True)" "slot_ready (worker_slots st ?w)"
    using good by (auto simp: full_good_def)
  obtain slot m where ensure: "ensure_slot True (ring_statuses env i) (state_created env i) (worker_pools st ?w) (worker_slots st ?w) = (True, slot, m)"
    and m: "grants m = (\<lambda>_. True)" and ready: "slot_ready slot" "ring_initialised slot"
    using ensure_slot_ok [OF worker env(3,4), of "state_created env i"] env(5) by blast
  obtain r where r: "slot_ring slot = Some r" "ring_idle r" using ready by (auto simp: slot_ready_def)
  have still: "\<forall>j \<in> set (batch_of ixs i). yields io (absolute_path (?es ! j)) (disk (absolute_path (?es ! j))) \<and>
      has_length (disk (absolute_path (?es ! j))) (unat (file_size (?es ! j)))"
    and bound: "\<forall>j \<in> set (batch_of ixs i). j < length ?es"
    using good set_batch_of [of ixs i] by (auto simp: full_good_def keeps_still_def)
  have dist: "distinct (batch_of ixs i)" using good by (simp add: full_good_def distinct_batch_of)
  obtain r' es' where run: "process_batch io (ring_answers env i) api alg (stale_contexts env i) (batch_of ixs i) r ?es = Some (r', es')"
    and r': "ring_idle r'" and es': "length es' = length ?es"
      "\<And>j. j < length ?es \<Longrightarrow> es' ! j = (if j \<in> set (batch_of ixs i) then full_hash_entry ds alg disk (?es ! j) else ?es ! j)"
    using process_batch_hashes [OF _ env(6) r(2) still dist bound, of api ds alg "stale_contexts env i"] good
    by (auto simp: full_good_def)
  have step: "full_iter io env api alg ixs i st =
      st\<lparr>state_entries := es', worker_slots := (worker_slots st)(?w := slot\<lparr>slot_ring := Some r'\<rparr>), worker_pools := (worker_pools st)(?w := m)\<rparr>"
    using i by (simp add: full_iter_def env(1,2) ensure r(1) run Let_def)
  show "length (state_entries (full_iter io env api alg ixs i st)) = length ?es"
    and "j < length ?es \<Longrightarrow> state_entries (full_iter io env api alg ixs i st) ! j =
      (if j \<in> set (batch_of ixs i) then full_hash_entry ds alg disk (?es ! j) else ?es ! j)"
    by (simp_all add: step es')
  show "full_good io env api ds disk ixs (full_iter io env api alg ixs i st)"
    using good r' m es' unfolding full_good_def step by (auto simp: slot_ready_def)
qed

interpretation full_cells: owned_state
  "full_iter io env api alg ixs" state_entries "full_good io env api ds disk ixs"
  "\<lambda>i. i * READER_RING_SLOT_COUNT < length ixs" "\<lambda>i. set (batch_of ixs i)" "\<lambda>i j e. full_hash_entry ds alg disk e"
  for io env api alg ixs ds disk
  by unfold_locales (simp_all add: full_iter_hashes)

section \<open>The whole pass\<close>

text \<open>
  The setting in which the pass succeeds: the sort, the loop and the hash functions keep
  their contracts, every set-up step succeeds, nobody asks to stop, and the candidates keep
  still. Which worker runs which batch, in which order, and how the kernel interleaves its
  completions is left open.
\<close>

definition full_setting ::
  "nat sorter \<Rightarrow> par_for \<Rightarrow> file_io \<Rightarrow> ('x, 'c) full_env \<Rightarrow> ('x, 'c) hash_api \<Rightarrow> digests \<Rightarrow> (nat \<Rightarrow> bool) \<Rightarrow> (nat \<Rightarrow> pool)
    \<Rightarrow> (string \<Rightarrow> file_answer) \<Rightarrow> bool" where
  "full_setting srt par io env api ds stop_before pools disk \<longleftrightarrow>
    sort_contract srt \<and> par_contract par \<and> hash_contract api ds \<and> full_env_ok env disk \<and>
    (\<forall>i. \<not> stop_before i) \<and> (\<forall>w. grants (pools w) = (\<lambda>_. True))"

lemma worker_full_pass_order:
  assumes "full_setting srt par io env api ds stop_before pools disk"
    and "(if single then (takeWhile (\<lambda>i. \<not> stop_before i) [0 ..< n], True) else par n) = (ord, True)"
  shows "distinct ord" and "set ord = {0 ..< n}"
proof -
  have "distinct ord \<and> set ord = {0 ..< n}"
  proof (cases single)
    case True
    then have "ord = [0 ..< n]" using assms by (auto simp: full_setting_def takeWhile_eq_all_conv)
    then show ?thesis by simp
  next
    case False
    then show ?thesis using assms par_contract_run [of par n ord] by (auto simp: full_setting_def)
  qed
  then show "distinct ord" and "set ord = {0 ..< n}" by blast+
qed

lemma batch_count_bound:
  "i < (n + READER_RING_SLOT_COUNT - 1) div READER_RING_SLOT_COUNT \<longleftrightarrow> i * READER_RING_SLOT_COUNT < n"
proof -
  have "i < (n + 31) div 32 \<longleftrightarrow> Suc i * 32 \<le> n + 31"
    by (simp only: Suc_le_eq [symmetric] less_eq_div_iff_mult_less_eq zero_less_numeral)
  then show ?thesis by (auto simp: READER_RING_SLOT_COUNT_def add.commute)
qed

lemma full_pass_fold:
  assumes setting: "full_setting srt par io env api ds stop_before pools disk"
    and ixs: "distinct ixs" "\<forall>j \<in> set ixs. j < length es \<and> keeps_still io disk (es ! j)"
    and ord: "distinct ord" "set ord = {0 ..< (length ixs + READER_RING_SLOT_COUNT - 1) div READER_RING_SLOT_COUNT}"
    and st: "st = \<lparr>state_entries = es, worker_slots = (\<lambda>_. zeroed_slot), worker_pools = pools, blocked = False\<rparr>"
  shows "\<not> blocked (fold (full_iter io env api alg ixs) ord st)"
    and "length (state_entries (fold (full_iter io env api alg ixs) ord st)) = length es"
    and "j < length es \<Longrightarrow> state_entries (fold (full_iter io env api alg ixs) ord st) ! j =
      (if j \<in> set ixs then full_hash_entry ds alg disk (es ! j) else es ! j)"
proof -
  let ?final = "fold (full_iter io env api alg ixs) ord st"
  have good: "full_good io env api ds disk ixs st"
    using setting ixs by (auto simp: full_good_def full_setting_def st slot_ready_def zeroed_slot_def)
  have adm: "\<forall>i \<in> set ord. i * READER_RING_SLOT_COUNT < length ixs"
    using ord(2) batch_count_bound by auto
  show "\<not> blocked ?final"
    using full_cells.fold_good [OF good adm, of alg] by (simp add: full_good_def)
  show "length (state_entries ?final) = length es"
    using full_cells.fold_length [OF good adm, of alg] by (simp add: st)
  show "state_entries ?final ! j = (if j \<in> set ixs then full_hash_entry ds alg disk (es ! j) else es ! j)"
    if j: "j < length es"
  proof (cases "j \<in> set ixs")
    case True
    then obtain p where p: "p < length ixs" "ixs ! p = j" by (metis in_set_conv_nth)
    let ?i = "p div READER_RING_SLOT_COUNT"
    have i: "?i * READER_RING_SLOT_COUNT < length ixs" using p(1) div_times_less_eq_dividend [of p READER_RING_SLOT_COUNT] by linarith
    have mem: "?i \<in> set ord" using ord(2) i batch_count_bound by simp
    have own: "j \<in> set (batch_of ixs ?i)" using in_batch_of [OF i] p by blast
    have alone: "\<forall>k \<in> set ord. k \<noteq> ?i \<longrightarrow> j \<notin> set (batch_of ixs k)"
      using in_batch_of adm p ixs(1) by (metis nth_eq_iff_index_eq)
    show ?thesis
      using full_cells.fold_inside [OF good adm ord(1) mem own _ alone, of alg] j True by (simp add: st)
  next
    case False
    then have "\<forall>i \<in> set ord. j \<notin> set (batch_of ixs i)" using set_batch_of [of ixs] by blast
    then show ?thesis using full_cells.fold_outside [OF good adm, of j alg] j False by (simp add: st)
  qed
qed

lemma worker_full_pass_nth:
  assumes setting: "full_setting srt par io env api ds stop_before pools disk"
    and laid: "groups_laid_out (length es) gs"
    and still: "\<forall>j \<in> set (candidate_indices gs). keeps_still io disk (es ! j)"
    and run: "worker_full_pass srt par io env api registered stop_before pools m alg es gs single = Some (True, es', k, m')"
  shows "length es' = length es" and "k = total_candidates gs" and "holds m {#} m'"
    and "j < length es \<Longrightarrow> es' ! j = (if j \<in> set (candidate_indices gs) then full_hash_entry ds alg disk (es ! j) else es ! j)"
proof -
  let ?ixs = "sort_indices_by_size_desc srt es (candidate_indices gs)" and ?t = "total_candidates gs"
  have perm: "mset ?ixs = mset (candidate_indices gs)"
    using setting by (intro mset_sort_indices) (simp add: full_setting_def)
  then have len: "length ?ixs = ?t" by (metis length_candidate_indices size_mset)
  have ixs: "distinct ?ixs" "set ?ixs = set (candidate_indices gs)"
    using candidate_indices_distinct(1) [OF laid] perm by (metis mset_eq_imp_distinct_iff, metis set_mset_mset)
  have still: "\<forall>j \<in> set ?ixs. j < length es \<and> keeps_still io disk (es ! j)"
    using still candidate_indices_distinct(2) [OF laid] by (simp add: ixs(2))
  have "length es' = length es \<and> k = ?t \<and> holds m {#} m' \<and>
      (\<forall>j < length es. es' ! j = (if j \<in> set (candidate_indices gs) then full_hash_entry ds alg disk (es ! j) else es ! j))"
  proof (cases "?t = 0")
    case True
    then have "candidate_indices gs = []" using length_candidate_indices [of gs] by simp
    then show ?thesis using run True by (simp add: worker_full_pass_def)
  next
    case False
    let ?st = "\<lparr>state_entries = es, worker_slots = (\<lambda>_. zeroed_slot), worker_pools = pools, blocked = False\<rparr>"
    let ?n = "(?t + READER_RING_SLOT_COUNT - 1) div READER_RING_SLOT_COUNT"
    let ?loop = "if single then (takeWhile (\<lambda>i. \<not> stop_before i) [0 ..< ?n], True) else par ?n"
    obtain answer m1 where alloc: "pool_allocate m = (answer, m1)" by (cases "pool_allocate m")
    obtain b where b: "answer = Some b" using run False alloc by (cases answer) (simp_all add: worker_full_pass_def)
    have reg: registered using run False alloc b by (cases registered) (simp_all add: worker_full_pass_def)
    obtain ord ok where loop: "?loop = (ord, ok)" by (cases ?loop)
    let ?final = "fold (full_iter io env api alg ?ixs) ord ?st"
    have pass: "worker_full_pass srt par io env api registered stop_before pools m alg es gs single =
        (if blocked ?final then None else if \<not> ok then Some (False, state_entries ?final, 0, pool_free b m1)
         else Some (True, state_entries ?final, ?t, pool_free b m1))"
      unfolding worker_full_pass_def Let_def loop using False alloc b reg by simp
    have ord: "?loop = (ord, True)" and es': "es' = state_entries ?final" and k: "k = ?t" and m': "m' = pool_free b m1"
      using run loop unfolding pass by (simp_all split: if_splits)
    note all = worker_full_pass_order [OF setting ord]
    have "holds m {#} m'" using alloc b m' by (auto dest: pool_allocate_holds intro: pool_free_holds)
    moreover note fold = full_pass_fold [where alg = alg, OF setting ixs(1) still all(1) all(2) [folded len] refl]
    ultimately show ?thesis using fold by (simp add: es' k ixs(2))
  qed
  then show "length es' = length es" and "k = ?t" and "holds m {#} m'"
    and "j < length es \<Longrightarrow> es' ! j = (if j \<in> set (candidate_indices gs) then full_hash_entry ds alg disk (es ! j) else es ! j)"
    by blast+
qed

lemma worker_full_pass_returns:
  assumes setting: "full_setting srt par io env api ds stop_before pools disk"
    and laid: "groups_laid_out (length es) gs"
    and still: "\<forall>j \<in> set (candidate_indices gs). keeps_still io disk (es ! j)"
    and "grants m = (\<lambda>_. True)" and "single \<or> (\<forall>n. snd (par n))"
  shows "\<exists>es' m'. worker_full_pass srt par io env api True stop_before pools m alg es gs single =
    Some (True, es', total_candidates gs, m') \<and> grants m' = (\<lambda>_. True)"
proof (cases "total_candidates gs = 0")
  case True
  then show ?thesis using assms(4) by (simp add: worker_full_pass_def)
next
  case False
  let ?ixs = "sort_indices_by_size_desc srt es (candidate_indices gs)" and ?t = "total_candidates gs"
  let ?st = "\<lparr>state_entries = es, worker_slots = (\<lambda>_. zeroed_slot), worker_pools = pools, blocked = False\<rparr>"
  have perm: "mset ?ixs = mset (candidate_indices gs)"
    using setting by (intro mset_sort_indices) (simp add: full_setting_def)
  then have len: "length ?ixs = ?t" by (metis length_candidate_indices size_mset)
  have ixs: "distinct ?ixs" "set ?ixs = set (candidate_indices gs)"
    using candidate_indices_distinct(1) [OF laid] perm by (metis mset_eq_imp_distinct_iff, metis set_mset_mset)
  have still: "\<forall>j \<in> set ?ixs. j < length es \<and> keeps_still io disk (es ! j)"
    using still candidate_indices_distinct(2) [OF laid] by (simp add: ixs(2))
  let ?n = "(?t + READER_RING_SLOT_COUNT - 1) div READER_RING_SLOT_COUNT"
  let ?loop = "if single then (takeWhile (\<lambda>i. \<not> stop_before i) [0 ..< ?n], True) else par ?n"
  have "snd ?loop" using assms(5) by auto
  then obtain ord where loop: "?loop = (ord, True)" by (metis prod.collapse)
  note all = worker_full_pass_order [OF setting loop]
  obtain b m1 where alloc: "pool_allocate m = (Some b, m1)" "grants m1 = (\<lambda>_. True)"
    using pool_allocate_granted [OF assms(4)] assms(4) by metis
  have "\<not> blocked (fold (full_iter io env api alg ?ixs) ord ?st)"
    by (rule full_pass_fold(1) [OF setting ixs(1) still all(1) all(2) [folded len] refl])
  then show ?thesis unfolding worker_full_pass_def Let_def loop using False alloc by simp
qed

lemma worker_full_pass_members:
  assumes "full_setting srt par io env api ds stop_before pools disk"
    and "groups_laid_out (length es) gs"
    and "\<forall>j \<in> set (candidate_indices gs). keeps_still io disk (es ! j)"
    and "worker_full_pass srt par io env api registered stop_before pools m alg es gs single = Some (True, es', k, m')"
  shows "map (members es') gs = map (map (full_hash_entry ds alg disk)) (map (members es) gs)"
  using worker_full_pass_nth [OF assms] assms(2)
  by (auto intro!: members_map_cells)

lemma worker_full_pass_holds:
  assumes "worker_full_pass srt par io env api registered stop_before pools m alg es gs single = Some (ok, es', k, m')"
  shows "holds m {#} m'"
proof (cases "total_candidates gs = 0")
  case True
  then show ?thesis using assms by (simp add: worker_full_pass_def)
next
  case False
  obtain answer m1 where alloc: "pool_allocate m = (answer, m1)" by (cases "pool_allocate m")
  show ?thesis
  proof (cases answer)
    case None
    then show ?thesis using assms False alloc by (auto simp: worker_full_pass_def dest: pool_allocate_holds)
  next
    case (Some b)
    then have "m' = pool_free b m1"
      using assms False alloc by (auto simp: worker_full_pass_def Let_def split: prod.splits if_splits)
    then show ?thesis using alloc Some by (auto dest: pool_allocate_holds intro: pool_free_holds)
  qed
qed

text \<open>A batch is skipped without a trace when a signal has arrived or its worker cannot be set up.\<close>

definition batch_skipped :: "('x, 'c) full_env \<Rightarrow> nat \<Rightarrow> bool" where
  "batch_skipped env i \<longleftrightarrow> stop_asked env i \<or> fst (ring_statuses env i) < 0"

lemma full_iter_skips:
  assumes "\<And>w. \<not> ring_initialised (worker_slots st w)" and "batch_skipped env i"
  shows "state_entries (full_iter io env api alg ixs i st) = state_entries st"
    and "blocked (full_iter io env api alg ixs i st) = blocked st"
    and "\<not> ring_initialised (worker_slots (full_iter io env api alg ixs i st) w)"
  using assms
  by (auto simp: batch_skipped_def full_iter_def ensure_slot_def ensure_ring_def ring_init_def Let_def split: prod.splits option.splits if_splits)

text \<open>When every batch is skipped the pass still reports success, and it changes nothing.\<close>

lemma worker_full_pass_skipped:
  assumes "\<And>i. batch_skipped env i" and "grants m = (\<lambda>_. True)" and "\<And>n. snd (par n)"
  shows "\<exists>m'. worker_full_pass srt par io env api True stop_before pools m alg es gs single =
    Some (True, es, total_candidates gs, m') \<and> grants m' = (\<lambda>_. True)"
proof (cases "total_candidates gs = 0")
  case True
  then show ?thesis using assms(2) by (simp add: worker_full_pass_def)
next
  case False
  let ?step = "full_iter io env api alg (sort_indices_by_size_desc srt es (candidate_indices gs))"
  let ?batches = "(total_candidates gs + READER_RING_SLOT_COUNT - 1) div READER_RING_SLOT_COUNT"
  have fold: "state_entries (fold ?step ord st) = state_entries st \<and> blocked (fold ?step ord st) = blocked st"
    if "\<And>w. \<not> ring_initialised (worker_slots st w)" for ord st
    using that by (induction ord arbitrary: st) (simp_all add: full_iter_skips [OF _ assms(1)])
  obtain b m1 where alloc: "pool_allocate m = (Some b, m1)" "grants m1 = (\<lambda>_. True)"
    using pool_allocate_granted [OF assms(2)] assms(2) by metis
  have "snd (if single then (takeWhile (\<lambda>i. \<not> stop_before i) [0 ..< ?batches], True) else par ?batches)"
    by (cases single) (simp_all only: if_True if_False snd_conv assms(3))
  then obtain ord where loop: "(if single then (takeWhile (\<lambda>i. \<not> stop_before i) [0 ..< ?batches], True) else par ?batches) = (ord, True)"
    by (metis prod.collapse)
  show ?thesis using False alloc
    by (simp only: worker_full_pass_def loop Let_def) (simp add: fold zeroed_slot_def)
qed

section \<open>Properties\<close>

text \<open>C5
  When the candidates keep still and the set-up succeeds, the full pass returns success; every
  member of every group then holds the digest of its file's content under the chosen
  algorithm, padded with zeros to 32 bytes, or, when it cannot be opened, its old digest and
  the error. No other entry changes, and the pass holds no memory.
\<close>

theorem full_pass_digests_every_candidate:
  assumes "full_setting srt par io env api ds stop_before pools disk"
    and "groups_laid_out (length es) gs"
    and "\<forall>j \<in> set (candidate_indices gs). keeps_still io disk (es ! j)"
    and "grants m = (\<lambda>_. True)" and "single \<or> (\<forall>n. snd (par n))"
  shows "\<exists>es' m'. worker_full_pass srt par io env api True stop_before pools m alg es gs single =
      Some (True, es', total_candidates gs, m') \<and>
    map (members es') gs = map (map (full_hash_entry ds alg disk)) (map (members es) gs) \<and>
    length es' = length es \<and> (\<forall>j < length es. j \<notin> set (candidate_indices gs) \<longrightarrow> es' ! j = es ! j) \<and> holds m {#} m'"
proof -
  obtain es' m' where run: "worker_full_pass srt par io env api True stop_before pools m alg es gs single =
      Some (True, es', total_candidates gs, m')"
    using worker_full_pass_returns [OF assms] by blast
  show ?thesis using run worker_full_pass_members [OF assms(1-3) run] worker_full_pass_nth [OF assms(1-3) run] by auto
qed


section \<open>Witnesses\<close>

text \<open>A toy hash interface: the contexts collect the bytes they are fed.\<close>

definition sample_digests :: digests where
  "sample_digests = \<lparr>digest_xxh64 = sample_hash, digest_xxh128 = (\<lambda>bs. (of_nat (length bs), sample_hash bs)),
    digest_sha256 = (\<lambda>bs. put_segment (replicate 32 0) 0 (take 32 bs))\<rparr>"

definition sample_api :: "(u8 list, u8 list) hash_api" where
  "sample_api = \<lparr>xxh64_reset = (\<lambda>_. []), xxh64_update = (\<lambda>s c. s @ c), xxh64_digest = sample_hash,
    xxh128_reset = (\<lambda>_. []), xxh128_update = (\<lambda>s c. s @ c), xxh128_digest = (\<lambda>s. (of_nat (length s), sample_hash s)),
    sha256_init = (\<lambda>_. (True, [])), sha256_update = (\<lambda>s c. (True, s @ c)),
    sha256_finalize = (\<lambda>s. (True, digest_sha256 sample_digests s))\<rparr>"

lemma sample_api_contract: "hash_contract sample_api sample_digests"
proof -
  have fold: "fold (\<lambda>c s. s @ c) chunks acc = acc @ concat chunks" for chunks :: "u8 list list" and acc
    by (induction chunks arbitrary: acc) simp_all
  have feed: "feed (\<lambda>s c. (True, s @ c)) acc chunks = (True, acc @ concat chunks)" for chunks :: "u8 list list" and acc
    by (induction chunks arbitrary: acc) simp_all
  show ?thesis
    by (simp add: hash_contract_def sample_api_def sample_digests_def fold feed put_segment_def SHA256_DIGEST_SIZE_def)
qed

definition sample_env :: "(u8 list, u8 list) full_env" where
  "sample_env = \<lparr>worker_of = (\<lambda>_. 0), slot_present = (\<lambda>_. True), ring_statuses = (\<lambda>_. (0, 0)),
    state_created = (\<lambda>_ _. True), stale_contexts = (\<lambda>_ _. ([], [])),
    ring_answers = (\<lambda>_ _. in_order_kernel (\<lambda>_. Inr [5, 7])), stop_asked = (\<lambda>_. False)\<rparr>"

lemma sample_full_setting:
  assumes "par_contract par"
  shows "full_setting insertion_sort par (sample_io [5, 7]) sample_env sample_api sample_digests (\<lambda>_. False)
    (\<lambda>_. granting_pool) (\<lambda>_. Inr [5, 7])"
  using assms sort_contract_insertion_sort sample_api_contract in_order_kernel_honest [of "\<lambda>_. Inr [5, 7]"]
  by (simp add: full_setting_def full_env_ok_def sample_env_def granting_pool_grants)

lemma sample_pair_still:
  "\<forall>j \<in> set (candidate_indices [pair_group]). keeps_still (sample_io [5, 7]) (\<lambda>_. Inr [5, 7]) (sample_pair ! j)"
  using sample_io_serves [of "[5, 7]"]
  by (auto simp: pair_group_def keeps_still_def sample_pair_def new_entry_def less_2_cases_iff)

theorem full_pass_digests_every_candidate_witness:
  "\<exists>es' m'. worker_full_pass insertion_sort run_in_order (sample_io [5, 7]) sample_env sample_api True (\<lambda>_. False)
      (\<lambda>_. granting_pool) granting_pool ALGORITHM_XXH3 sample_pair [pair_group] False = Some (True, es', 2, m') \<and>
    map (\<lambda>e. take 8 (full_hash e)) (members es' pair_group) = [[12, 0, 0, 0, 0, 0, 0, 0], [12, 0, 0, 0, 0, 0, 0, 0]]"
proof -
  obtain es' m' where run: "worker_full_pass insertion_sort run_in_order (sample_io [5, 7]) sample_env sample_api True (\<lambda>_. False)
      (\<lambda>_. granting_pool) granting_pool ALGORITHM_XXH3 sample_pair [pair_group] False =
      Some (True, es', total_candidates [pair_group], m')"
    and mem: "map (members es') [pair_group] =
      map (map (full_hash_entry sample_digests ALGORITHM_XXH3 (\<lambda>_. Inr [5, 7]))) (map (members sample_pair) [pair_group])"
    using full_pass_digests_every_candidate [OF sample_full_setting [OF par_contract_examples(1)] pair_group_laid_out
        sample_pair_still granting_pool_grants, of False ALGORITHM_XXH3] run_in_order_ok by auto
  have bytes: "le_bytes 12 = [12, 0, 0, 0, 0, 0, 0, 0]"
    by (simp add: le_bytes_def upt_rec)
  have "map (\<lambda>e. take 8 (full_hash e)) (members es' pair_group) = [[12, 0, 0, 0, 0, 0, 0, 0], [12, 0, 0, 0, 0, 0, 0, 0]]"
    using mem by (simp add: pair_group_def sample_pair_def members_def segment_def full_hash_entry_def full_digest_def
        sample_digests_def sample_hash_def bytes)
  then show ?thesis using run by (simp add: total_candidates_def pair_group_def)
qed


end
