(* ===== verification/Output.thy ===== *)
theory Output
  imports Dup_Types "HOL-Library.Sublist"
begin

text \<open>
  \<^verbatim>\<open>src/output/\<close>: the reports. The buffered writer of the base library is a parameter: whether
  its \<open>k\<close>-th call succeeds is up to the environment, a call that succeeds appends its text, and
  the conversions of integers to text are functions with stated contracts.
\<close>

section \<open>The writer\<close>

record writer =
  accepts :: "nat \<Rightarrow> bool"
  calls :: nat
  written :: string

record number_format =
  decimal :: "u64 \<Rightarrow> string"
  hexadecimal_padded :: "u64 \<Rightarrow> nat \<Rightarrow> string"

type_synonym write_fn = "writer \<Rightarrow> bool \<times> writer"

definition puts :: "string \<Rightarrow> write_fn" where
  "puts s w =
    (if accepts w (calls w) then (True, w\<lparr>calls := Suc (calls w), written := written w @ s\<rparr>)
     else (False, w\<lparr>calls := Suc (calls w)\<rparr>))"

text \<open>A sequence of writes stops at the first that fails.\<close>

fun write_all :: "write_fn list \<Rightarrow> write_fn" where
  "write_all [] w = (True, w)"
| "write_all (f # fs) w = (case f w of (ok, w') \<Rightarrow> if \<not> ok then (False, w') else write_all fs w')"

section \<open>JSON\<close>

definition escape_writes :: "number_format \<Rightarrow> char \<Rightarrow> write_fn list" where
  "escape_writes fmt byte =
    (if byte = CHR 0x22 then [puts [CHR 0x5C, CHR 0x22]]
     else if byte = CHR 0x5C then [puts [CHR 0x5C, CHR 0x5C]]
     else if byte = CHR 0x08 then [puts [CHR 0x5C, CHR ''b'']]
     else if byte = CHR 0x0C then [puts [CHR 0x5C, CHR ''f'']]
     else if byte = CHR 0x0A then [puts [CHR 0x5C, CHR ''n'']]
     else if byte = CHR 0x0D then [puts [CHR 0x5C, CHR ''r'']]
     else if byte = CHR 0x09 then [puts [CHR 0x5C, CHR ''t'']]
     else if (of_char byte :: nat) < 0x20
     then [puts [CHR 0x5C, CHR ''u''], puts (hexadecimal_padded fmt (of_nat (of_char byte)) 4)]
     else [puts [byte]])"

fun escape_loop :: "number_format \<Rightarrow> string \<Rightarrow> write_fn" where
  "escape_loop fmt [] w = (True, w)"
| "escape_loop fmt (byte # rest) w =
    (case write_all (escape_writes fmt byte) w of (ok, w') \<Rightarrow> if \<not> ok then (False, w') else escape_loop fmt rest w')"

definition json_write_escaped :: "number_format \<Rightarrow> string \<Rightarrow> write_fn" where
  "json_write_escaped fmt input = write_all [puts [CHR 0x22], escape_loop fmt input, puts [CHR 0x22]]"

definition json_algorithm_name :: "algorithm \<Rightarrow> string" where
  "json_algorithm_name alg =
    (case alg of ALGORITHM_XXH3 \<Rightarrow> ''xxh3'' | ALGORITHM_XXH128 \<Rightarrow> ''xxh128'' | ALGORITHM_SHA256 \<Rightarrow> ''sha256'')"

definition write_stat_key_value :: "number_format \<Rightarrow> string \<Rightarrow> u64 \<Rightarrow> write_fn" where
  "write_stat_key_value fmt key value =
    write_all [puts [CHR 0x22], puts key, puts [CHR 0x22, CHR '':''], puts (decimal fmt value)]"

definition json_write_stats :: "number_format \<Rightarrow> statistics \<Rightarrow> write_fn" where
  "json_write_stats fmt st = write_all [
    puts ([CHR 0x22] @ ''stats'' @ [CHR 0x22] @ '':{''),
    write_stat_key_value fmt ''files_scanned'' (files_scanned st), puts '','',
    write_stat_key_value fmt ''directories_scanned'' (directories_scanned st), puts '','',
    write_stat_key_value fmt ''files_skipped'' (files_skipped st), puts '','',
    write_stat_key_value fmt ''hardlinks_collapsed'' (hardlinks_collapsed st), puts '','',
    write_stat_key_value fmt ''size_candidates'' (size_candidate_count st), puts '','',
    write_stat_key_value fmt ''files_hashed_fast'' (files_hashed_fast st), puts '','',
    write_stat_key_value fmt ''files_hashed_full'' (files_hashed_full st), puts '','',
    write_stat_key_value fmt ''duplicate_groups'' (duplicate_group_count st), puts '','',
    write_stat_key_value fmt ''duplicate_files'' (duplicate_file_count st), puts '','',
    write_stat_key_value fmt ''wasted_bytes'' (wasted_bytes st), puts '','',
    write_stat_key_value fmt ''wall_ms'' (wall_ms st), puts ''}'']"

fun json_files_loop :: "number_format \<Rightarrow> file_entry list \<Rightarrow> nat \<Rightarrow> nat list \<Rightarrow> write_fn" where
  "json_files_loop fmt entries start [] w = (True, w)"
| "json_files_loop fmt entries start (entry_offset # rest) w =
    (case write_all ((if entry_offset > 0 then [puts '','' ] else []) @
            [json_write_escaped fmt (absolute_path (entries ! (start + entry_offset)))]) w of
       (ok, w') \<Rightarrow> if \<not> ok then (False, w') else json_files_loop fmt entries start rest w')"

fun json_groups_loop :: "number_format \<Rightarrow> file_entry list \<Rightarrow> group list \<Rightarrow> nat list \<Rightarrow> write_fn" where
  "json_groups_loop fmt entries groups [] w = (True, w)"
| "json_groups_loop fmt entries groups (group_index # rest) w =
    (let g = groups ! group_index in
     case write_all ((if group_index > 0 then [puts '',''] else []) @
            [puts (''{'' @ [CHR 0x22] @ ''size'' @ [CHR 0x22] @ '':''),
             puts (decimal fmt (group_file_size g)),
             puts ('','' @ [CHR 0x22] @ ''files'' @ [CHR 0x22] @ '':[''),
             json_files_loop fmt entries (start_index g) [0 ..< entry_count g],
             puts '']}'']) w of
       (ok, w') \<Rightarrow> if \<not> ok then (False, w') else json_groups_loop fmt entries groups rest w')"

definition quoted :: "string \<Rightarrow> string" where
  "quoted s = [CHR 0x22] @ s @ [CHR 0x22]"

definition output_json_write ::
  "number_format \<Rightarrow> algorithm \<Rightarrow> file_entry list \<Rightarrow> group list \<Rightarrow> statistics \<Rightarrow> write_fn" where
  "output_json_write fmt alg entries groups st = write_all [
    puts (''{'' @ quoted ''version'' @ '':'' @ quoted ''1.0.0'' @ '','' @ quoted ''tool'' @ '':'' @
      quoted ''bc-duplicate'' @ '','' @ quoted ''algorithm'' @ '':'' @ [CHR 0x22]),
    puts (json_algorithm_name alg),
    puts [CHR 0x22, CHR '',''],
    json_write_stats fmt st,
    puts ('','' @ quoted ''groups'' @ '':[''),
    json_groups_loop fmt entries groups [0 ..< length groups],
    puts ('']}'' @ [NEWLINE])]"

section \<open>Simple and summary output\<close>

fun simple_files_loop :: "file_entry list \<Rightarrow> nat \<Rightarrow> nat list \<Rightarrow> write_fn" where
  "simple_files_loop entries start [] w = (True, w)"
| "simple_files_loop entries start (entry_offset # rest) w =
    (case write_all [puts (absolute_path (entries ! (start + entry_offset))), puts [NEWLINE]] w of
       (ok, w') \<Rightarrow> if \<not> ok then (False, w') else simple_files_loop entries start rest w')"

fun simple_groups_loop :: "file_entry list \<Rightarrow> group list \<Rightarrow> nat list \<Rightarrow> write_fn" where
  "simple_groups_loop entries groups [] w = (True, w)"
| "simple_groups_loop entries groups (group_index # rest) w =
    (let g = groups ! group_index in
     case write_all ([simple_files_loop entries (start_index g) [0 ..< entry_count g]] @
            (if group_index + 1 < length groups then [puts [NEWLINE]] else [])) w of
       (ok, w') \<Rightarrow> if \<not> ok then (False, w') else simple_groups_loop entries groups rest w')"

definition output_simple_write :: "file_entry list \<Rightarrow> group list \<Rightarrow> write_fn" where
  "output_simple_write entries groups = simple_groups_loop entries groups [0 ..< length groups]"

definition write_labeled_uint :: "number_format \<Rightarrow> string \<Rightarrow> u64 \<Rightarrow> write_fn" where
  "write_labeled_uint fmt label value = write_all [puts label, puts (decimal fmt value), puts [NEWLINE]]"

definition output_summary_write :: "number_format \<Rightarrow> statistics \<Rightarrow> write_fn" where
  "output_summary_write fmt st = write_all [
    write_labeled_uint fmt ''Files scanned:        '' (files_scanned st),
    write_labeled_uint fmt ''Directories scanned:  '' (directories_scanned st),
    write_labeled_uint fmt ''Files skipped:        '' (files_skipped st),
    write_labeled_uint fmt ''Hardlinks collapsed:  '' (hardlinks_collapsed st),
    write_labeled_uint fmt ''Size candidates:      '' (size_candidate_count st),
    write_labeled_uint fmt ''Files hashed (fast):  '' (files_hashed_fast st),
    write_labeled_uint fmt ''Files hashed (full):  '' (files_hashed_full st),
    write_labeled_uint fmt ''Duplicate groups:     '' (duplicate_group_count st),
    write_labeled_uint fmt ''Duplicate files:      '' (duplicate_file_count st),
    write_labeled_uint fmt ''Wasted bytes:         '' (wasted_bytes st),
    write_labeled_uint fmt ''Wall ms:              '' (wall_ms st)]"

section \<open>What a write emits\<close>

text \<open>
  A write emits a text when its success means that the text was appended, a failure leaves a
  prefix of it, and it succeeds when every call of the writer does.
\<close>

definition emits :: "write_fn \<Rightarrow> string \<Rightarrow> bool" where
  "emits f text \<longleftrightarrow>
    (\<forall>w. accepts (snd (f w)) = accepts w \<and>
      (fst (f w) \<longrightarrow> written (snd (f w)) = written w @ text) \<and>
      (\<exists>p. prefix p text \<and> written (snd (f w)) = written w @ p) \<and>
      ((\<forall>k. accepts w k) \<longrightarrow> fst (f w)))"

named_theorems emit_intros \<open>what the writing functions emit\<close>

lemma emits_puts [emit_intros]: "emits (puts s) s"
  by (auto simp: emits_def puts_def)

lemma emits_Nil [emit_intros]: "emits (write_all []) []"
  by (simp add: emits_def)

lemma emits_Cons [emit_intros]:
  assumes "emits f s" and "emits (write_all fs) t"
  shows "emits (write_all (f # fs)) (s @ t)"
  unfolding emits_def
proof (intro allI)
  fix w
  obtain ok w' where f: "f w = (ok, w')" by (cases "f w")
  obtain ok' w'' where fs: "write_all fs w' = (ok', w'')" by (cases "write_all fs w'")
  have 1: "accepts w' = accepts w" "ok \<longrightarrow> written w' = written w @ s"
      "\<exists>p. prefix p s \<and> written w' = written w @ p" "(\<forall>k. accepts w k) \<longrightarrow> ok"
    using assms(1) f unfolding emits_def by (metis fst_conv snd_conv)+
  have 2: "accepts w'' = accepts w'" "ok' \<longrightarrow> written w'' = written w' @ t"
      "\<exists>p. prefix p t \<and> written w'' = written w' @ p" "(\<forall>k. accepts w' k) \<longrightarrow> ok'"
    using assms(2) fs unfolding emits_def by (metis fst_conv snd_conv)+
  show "accepts (snd (write_all (f # fs) w)) = accepts w \<and>
      (fst (write_all (f # fs) w) \<longrightarrow> written (snd (write_all (f # fs) w)) = written w @ s @ t) \<and>
      (\<exists>p. prefix p (s @ t) \<and> written (snd (write_all (f # fs) w)) = written w @ p) \<and>
      ((\<forall>k. accepts w k) \<longrightarrow> fst (write_all (f # fs) w))"
  proof (cases ok)
    case True
    then show ?thesis using 1 2 f fs by (auto simp: prefix_append)
  next
    case False
    then show ?thesis using 1 f by (auto simp: prefix_append)
  qed
qed

lemma emits_write_all: "list_all2 emits fs ts \<Longrightarrow> emits (write_all fs) (concat ts)"
proof (induction rule: list_all2_induct)
  case Nil
  show ?case by (simp only: concat.simps emits_Nil)
next
  case (Cons f fs t ts)
  then show ?case by (simp only: concat.simps emits_Cons)
qed

text \<open>A loop that writes its rounds one after the other is the sequence of its rounds.\<close>

lemma write_all_map_Cons: "write_all (f # fs) = (\<lambda>w. case f w of (ok, w') \<Rightarrow> if \<not> ok then (False, w') else write_all fs w')"
  by (rule ext) simp

lemma escape_loop_eq: "escape_loop fmt s = write_all (map (\<lambda>c. write_all (escape_writes fmt c)) s)"
  by (induction s) (auto simp: fun_eq_iff split: prod.split)

lemma json_files_loop_eq: "json_files_loop fmt entries start offs =
    write_all (map (\<lambda>k. write_all ((if k > 0 then [puts '',''] else []) @
      [json_write_escaped fmt (absolute_path (entries ! (start + k)))])) offs)"
  by (induction offs) (auto simp: fun_eq_iff split: prod.split)

lemma json_groups_loop_eq: "json_groups_loop fmt entries groups idxs =
    write_all (map (\<lambda>k. write_all ((if k > 0 then [puts '',''] else []) @
      [puts (''{'' @ [CHR 0x22] @ ''size'' @ [CHR 0x22] @ '':''),
       puts (decimal fmt (group_file_size (groups ! k))),
       puts ('','' @ [CHR 0x22] @ ''files'' @ [CHR 0x22] @ '':[''),
       json_files_loop fmt entries (start_index (groups ! k)) [0 ..< entry_count (groups ! k)],
       puts '']}''])) idxs)"
  by (induction idxs) (auto simp: fun_eq_iff Let_def split: prod.split)

lemma simple_files_loop_eq: "simple_files_loop entries start offs =
    write_all (map (\<lambda>k. write_all [puts (absolute_path (entries ! (start + k))), puts [NEWLINE]]) offs)"
  by (induction offs) (auto simp: fun_eq_iff split: prod.split)

lemma simple_groups_loop_eq: "simple_groups_loop entries groups idxs =
    write_all (map (\<lambda>k. write_all ([simple_files_loop entries (start_index (groups ! k)) [0 ..< entry_count (groups ! k)]] @
      (if k + 1 < length groups then [puts [NEWLINE]] else []))) idxs)"
  by (induction idxs) (auto simp: fun_eq_iff Let_def split: prod.split)

lemma emits_map: "(\<And>x. x \<in> set xs \<Longrightarrow> emits (f x) (t x)) \<Longrightarrow> emits (write_all (map f xs)) (concat (map t xs))"
  by (rule emits_write_all) (simp add: list_all2_conv_all_nth)

section \<open>The reference: JSON values and their text\<close>

datatype json = JStr string | JNum u64 | JArr "json list" | JObj "(string \<times> json) list"

fun separated :: "string \<Rightarrow> string list \<Rightarrow> string" where
  "separated sep [] = []"
| "separated sep [x] = x"
| "separated sep (x # y # ys) = x @ sep @ separated sep (y # ys)"

definition escape_char :: "number_format \<Rightarrow> char \<Rightarrow> string" where
  "escape_char fmt c =
    (if c = CHR 0x22 then [CHR 0x5C, CHR 0x22]
     else if c = CHR 0x5C then [CHR 0x5C, CHR 0x5C]
     else if c = CHR 0x08 then [CHR 0x5C, CHR ''b'']
     else if c = CHR 0x0C then [CHR 0x5C, CHR ''f'']
     else if c = CHR 0x0A then [CHR 0x5C, CHR ''n'']
     else if c = CHR 0x0D then [CHR 0x5C, CHR ''r'']
     else if c = CHR 0x09 then [CHR 0x5C, CHR ''t'']
     else if (of_char c :: nat) < 0x20 then [CHR 0x5C, CHR ''u''] @ hexadecimal_padded fmt (of_nat (of_char c)) 4
     else [c])"

definition json_escape :: "number_format \<Rightarrow> string \<Rightarrow> string" where
  "json_escape fmt s = concat (map (escape_char fmt) s)"

fun render_json :: "number_format \<Rightarrow> json \<Rightarrow> string" where
  "render_json fmt (JStr s) = quoted (json_escape fmt s)"
| "render_json fmt (JNum n) = decimal fmt n"
| "render_json fmt (JArr xs) = ''['' @ separated '','' (map (render_json fmt) xs) @ '']''"
| "render_json fmt (JObj kvs) = ''{'' @ separated '','' (map (\<lambda>(k, v). quoted k @ '':'' @ render_json fmt v) kvs) @ ''}''"

definition group_json :: "file_entry list \<Rightarrow> group \<Rightarrow> json" where
  "group_json entries g =
    JObj [(''size'', JNum (group_file_size g)), (''files'', JArr (map (\<lambda>e. JStr (absolute_path e)) (members entries g)))]"

definition report_json :: "algorithm \<Rightarrow> file_entry list \<Rightarrow> group list \<Rightarrow> statistics \<Rightarrow> json" where
  "report_json alg entries gs st = JObj [
    (''version'', JStr ''1.0.0''), (''tool'', JStr ''bc-duplicate''), (''algorithm'', JStr (json_algorithm_name alg)),
    (''stats'', JObj [
      (''files_scanned'', JNum (files_scanned st)), (''directories_scanned'', JNum (directories_scanned st)),
      (''files_skipped'', JNum (files_skipped st)), (''hardlinks_collapsed'', JNum (hardlinks_collapsed st)),
      (''size_candidates'', JNum (size_candidate_count st)), (''files_hashed_fast'', JNum (files_hashed_fast st)),
      (''files_hashed_full'', JNum (files_hashed_full st)), (''duplicate_groups'', JNum (duplicate_group_count st)),
      (''duplicate_files'', JNum (duplicate_file_count st)), (''wasted_bytes'', JNum (wasted_bytes st)),
      (''wall_ms'', JNum (wall_ms st))]),
    (''groups'', JArr (map (group_json entries) gs))]"

lemma separated_Cons: "xs \<noteq> [] \<Longrightarrow> separated sep (x # xs) = x @ sep @ separated sep xs"
  by (cases xs) simp_all

lemma separated_indexed:
  "concat (map (\<lambda>k. (if k > 0 then sep else []) @ f k) [0 ..< n]) = separated sep (map f [0 ..< n])"
proof (cases n)
  case (Suc m)
  have tail: "concat (map (\<lambda>k. sep @ f k) ks) = (if ks = [] then [] else sep @ separated sep (map f ks))" for ks
    by (induction ks) (auto simp: separated_Cons)
  have ks: "[0 ..< n] = 0 # map Suc [0 ..< m]" by (simp add: Suc upt_conv_Cons map_Suc_upt del: upt_Suc)
  show ?thesis unfolding ks using tail [of "map Suc [0 ..< m]"] by (auto simp: comp_def separated_Cons)
qed simp

lemma emits_escape: "emits (write_all (escape_writes fmt c)) (escape_char fmt c)"
proof -
  have one: "emits (write_all [puts s]) s" for s
    using emits_Cons [OF emits_puts emits_Nil, of s] by (simp only: append_Nil2)
  have two: "emits (write_all [puts s, puts t]) (s @ t)" for s t
    using emits_Cons [OF emits_puts one, of s t] .
  show ?thesis
    using one two [of "[CHR 0x5C, CHR ''u'']" "hexadecimal_padded fmt (of_nat (of_char c)) 4"]
    by (simp add: escape_writes_def escape_char_def del: write_all.simps)
qed

lemma emits_escaped: "emits (json_write_escaped fmt s) (render_json fmt (JStr s))"
proof -
  have "emits (escape_loop fmt s) (json_escape fmt s)"
    unfolding escape_loop_eq json_escape_def by (intro emits_map emits_escape)
  then have "emits (json_write_escaped fmt s) (concat [[CHR 0x22], json_escape fmt s, [CHR 0x22]])"
    unfolding json_write_escaped_def by (intro emits_write_all) (simp add: emits_puts)
  then show ?thesis by (simp add: quoted_def)
qed

lemma emits_stat: "emits (write_stat_key_value fmt key v) (quoted key @ '':'' @ decimal fmt v)"
proof -
  have "emits (write_stat_key_value fmt key v) (concat [[CHR 0x22], key, [CHR 0x22, CHR '':''], decimal fmt v])"
    unfolding write_stat_key_value_def by (intro emits_write_all) (simp add: emits_puts)
  then show ?thesis by (simp add: quoted_def)
qed

lemma members_indexed:
  "start_index g + entry_count g \<le> length entries \<Longrightarrow>
    members entries g = map (\<lambda>k. entries ! (start_index g + k)) [0 ..< entry_count g]"
  unfolding members_def by (rule nth_equalityI) (simp_all add: nth_segment)

lemma emits_files:
  assumes "start_index g + entry_count g \<le> length entries"
  shows "emits (json_files_loop fmt entries (start_index g) [0 ..< entry_count g])
    (separated '','' (map (\<lambda>e. render_json fmt (JStr (absolute_path e))) (members entries g)))"
proof -
  let ?f = "\<lambda>k. render_json fmt (JStr (absolute_path (entries ! (start_index g + k))))"
  have round: "emits (write_all ((if k > 0 then [puts '','' ] else []) @
      [json_write_escaped fmt (absolute_path (entries ! (start_index g + k)))])) ((if k > 0 then '','' else []) @ ?f k)" for k
    using emits_write_all [of "(if k > 0 then [puts '','' ] else []) @
        [json_write_escaped fmt (absolute_path (entries ! (start_index g + k)))]" "(if k > 0 then ['','' ] else []) @ [?f k]"]
    by (cases "k > 0") (simp_all add: emits_puts emits_escaped del: write_all.simps render_json.simps)
  have "emits (json_files_loop fmt entries (start_index g) [0 ..< entry_count g])
      (concat (map (\<lambda>k. (if k > 0 then '','' else []) @ ?f k) [0 ..< entry_count g]))"
    unfolding json_files_loop_eq by (intro emits_map round)
  then show ?thesis by (simp only: separated_indexed members_indexed [OF assms] map_map comp_def)
qed

lemma emits_groups:
  assumes "\<forall>g \<in> set gs. start_index g + entry_count g \<le> length entries"
  shows "emits (json_groups_loop fmt entries gs [0 ..< length gs])
    (separated '','' (map (\<lambda>g. render_json fmt (group_json entries g)) gs))"
proof -
  let ?f = "\<lambda>k. render_json fmt (group_json entries (gs ! k))"
  let ?round = "\<lambda>k. (if k > 0 then [puts '',''] else []) @
      [puts (''{'' @ [CHR 0x22] @ ''size'' @ [CHR 0x22] @ '':''), puts (decimal fmt (group_file_size (gs ! k))),
       puts ('','' @ [CHR 0x22] @ ''files'' @ [CHR 0x22] @ '':[''),
       json_files_loop fmt entries (start_index (gs ! k)) [0 ..< entry_count (gs ! k)], puts '']}'']"
  have round: "emits (write_all (?round k)) ((if k > 0 then '','' else []) @ ?f k)" if "k < length gs" for k
  proof -
    let ?files = "separated '','' (map (\<lambda>e. render_json fmt (JStr (absolute_path e))) (members entries (gs ! k)))"
    have files: "emits (json_files_loop fmt entries (start_index (gs ! k)) [0 ..< entry_count (gs ! k)]) ?files"
      using assms that by (intro emits_files) simp
    have "emits (write_all (?round k)) (concat ((if k > 0 then ['','' ] else []) @
        [''{'' @ [CHR 0x22] @ ''size'' @ [CHR 0x22] @ '':'', decimal fmt (group_file_size (gs ! k)),
         '','' @ [CHR 0x22] @ ''files'' @ [CHR 0x22] @ '':['', ?files, '']}'']))"
      using files by (intro emits_write_all) (cases "k > 0"; simp add: emits_puts del: render_json.simps)
    moreover have "?f k = (''{'' @ [CHR 0x22] @ ''size'' @ [CHR 0x22] @ '':'') @ decimal fmt (group_file_size (gs ! k)) @
        ('','' @ [CHR 0x22] @ ''files'' @ [CHR 0x22] @ '':['') @ ?files @ '']}''"
      by (simp add: group_json_def quoted_def comp_def)
    ultimately show ?thesis by (cases "k > 0") simp_all
  qed
  have "emits (json_groups_loop fmt entries gs [0 ..< length gs])
      (concat (map (\<lambda>k. (if k > 0 then '','' else []) @ ?f k) [0 ..< length gs]))"
    unfolding json_groups_loop_eq by (intro emits_map) (rule round, simp)
  moreover have "map ?f [0 ..< length gs] = map (\<lambda>g. render_json fmt (group_json entries g)) gs"
    by (rule nth_equalityI) simp_all
  ultimately show ?thesis by (simp only: separated_indexed)
qed

lemma emits_stats: "emits (json_write_stats fmt st) (quoted ''stats'' @ '':'' @
    render_json fmt (JObj [
      (''files_scanned'', JNum (files_scanned st)), (''directories_scanned'', JNum (directories_scanned st)),
      (''files_skipped'', JNum (files_skipped st)), (''hardlinks_collapsed'', JNum (hardlinks_collapsed st)),
      (''size_candidates'', JNum (size_candidate_count st)), (''files_hashed_fast'', JNum (files_hashed_fast st)),
      (''files_hashed_full'', JNum (files_hashed_full st)), (''duplicate_groups'', JNum (duplicate_group_count st)),
      (''duplicate_files'', JNum (duplicate_file_count st)), (''wasted_bytes'', JNum (wasted_bytes st)),
      (''wall_ms'', JNum (wall_ms st))]))"
proof -
  let ?stat = "\<lambda>key v. quoted key @ '':'' @ decimal fmt v"
  have "emits (json_write_stats fmt st) (concat [
      [CHR 0x22] @ ''stats'' @ [CHR 0x22] @ '':{'',
      ?stat ''files_scanned'' (files_scanned st), '','', ?stat ''directories_scanned'' (directories_scanned st), '','',
      ?stat ''files_skipped'' (files_skipped st), '','', ?stat ''hardlinks_collapsed'' (hardlinks_collapsed st), '','',
      ?stat ''size_candidates'' (size_candidate_count st), '','', ?stat ''files_hashed_fast'' (files_hashed_fast st), '','',
      ?stat ''files_hashed_full'' (files_hashed_full st), '','', ?stat ''duplicate_groups'' (duplicate_group_count st), '','',
      ?stat ''duplicate_files'' (duplicate_file_count st), '','', ?stat ''wasted_bytes'' (wasted_bytes st), '','',
      ?stat ''wall_ms'' (wall_ms st), ''}''])"
    unfolding json_write_stats_def by (intro emits_write_all) (simp add: emits_puts emits_stat [simplified])
  then show ?thesis by (simp add: quoted_def)
qed

section \<open>Reading the reports back\<close>

text \<open>A reader of JSON strings, from behind the opening quote: the string and what follows it.\<close>

definition hex_digit :: "char \<Rightarrow> nat option" where
  "hex_digit c =
    (let n = of_char c :: nat in
     if 48 \<le> n \<and> n \<le> 57 then Some (n - 48)
     else if 97 \<le> n \<and> n \<le> 102 then Some (n - 87)
     else if 65 \<le> n \<and> n \<le> 70 then Some (n - 55)
     else None)"

fun hex_value :: "nat \<Rightarrow> string \<Rightarrow> nat option" where
  "hex_value acc [] = Some acc"
| "hex_value acc (c # cs) = (case hex_digit c of None \<Rightarrow> None | Some d \<Rightarrow> hex_value (16 * acc + d) cs)"

definition short_escape :: "char \<Rightarrow> char option" where
  "short_escape c = map_of [(CHR 0x22, CHR 0x22), (CHR 0x5C, CHR 0x5C), (CHR ''/'', CHR ''/''), (CHR ''b'', CHR 0x08),
    (CHR ''f'', CHR 0x0C), (CHR ''n'', CHR 0x0A), (CHR ''r'', CHR 0x0D), (CHR ''t'', CHR 0x09)] c"

fun read_json_string :: "nat \<Rightarrow> string \<Rightarrow> (string \<times> string) option" where
  "read_json_string 0 _ = None"
| "read_json_string (Suc fuel) [] = None"
| "read_json_string (Suc fuel) (c # cs) =
    (if c = CHR 0x22 then Some ([], cs)
     else if c = CHR 0x5C then
       (case cs of
          [] \<Rightarrow> None
        | e # rest \<Rightarrow>
            if e = CHR ''u'' then
              (case hex_value 0 (take 4 rest) of
                 None \<Rightarrow> None
               | Some n \<Rightarrow> if n < 256 then map_option (\<lambda>(s, t). (char_of n # s, t)) (read_json_string fuel (drop 4 rest)) else None)
            else (case short_escape e of
                    None \<Rightarrow> None
                  | Some d \<Rightarrow> map_option (\<lambda>(s, t). (d # s, t)) (read_json_string fuel rest)))
     else if (of_char c :: nat) < 0x20 then None
     else map_option (\<lambda>(s, t). (c # s, t)) (read_json_string fuel cs))"

text \<open>The padded hexadecimal of a control character is four digits with its value.\<close>

definition hexadecimal_contract :: "number_format \<Rightarrow> bool" where
  "hexadecimal_contract fmt \<longleftrightarrow>
    (\<forall>n. n < 0x20 \<longrightarrow> length (hexadecimal_padded fmt (of_nat n) 4) = 4 \<and> hex_value 0 (hexadecimal_padded fmt (of_nat n) 4) = Some n)"

lemma read_escaped_char:
  assumes "hexadecimal_contract fmt"
  shows "read_json_string (Suc fuel) (escape_char fmt c @ t) = map_option (\<lambda>(s, r). (c # s, r)) (read_json_string fuel t)"
proof (cases "c \<in> {CHR 0x22, CHR 0x5C, CHR 0x08, CHR 0x0C, CHR 0x0A, CHR 0x0D, CHR 0x09}")
  case True
  then show ?thesis by (auto simp: escape_char_def short_escape_def)
next
  case False
  show ?thesis
  proof (cases "(of_char c :: nat) < 0x20")
    case True
    then have "length (hexadecimal_padded fmt (of_nat (of_char c)) 4) = 4"
        "hex_value 0 (hexadecimal_padded fmt (of_nat (of_char c)) 4) = Some (of_char c)"
      using assms by (simp_all add: hexadecimal_contract_def)
    then show ?thesis using True False by (simp add: escape_char_def)
  next
    case no: False
    then show ?thesis using False by (simp add: escape_char_def)
  qed
qed

lemma read_escaped:
  assumes "hexadecimal_contract fmt"
  shows "read_json_string (Suc (length s + fuel)) (json_escape fmt s @ [CHR 0x22] @ t) = Some (s, t)"
proof (induction s)
  case Nil
  show ?case by (simp add: json_escape_def)
next
  case (Cons c s)
  have "read_json_string (Suc (Suc (length s + fuel))) (escape_char fmt c @ json_escape fmt s @ [CHR 0x22] @ t) = Some (c # s, t)"
    unfolding read_escaped_char [OF assms] Cons.IH by simp
  then show ?case by (simp add: json_escape_def del: read_json_string.simps)
qed

text \<open>A reader of the simple report: blocks of non-empty lines.\<close>

function line_blocks :: "string list \<Rightarrow> string list list" where
  "line_blocks ls =
    (case dropWhile (\<lambda>l. l = []) ls of
       [] \<Rightarrow> []
     | l # rest \<Rightarrow> (l # takeWhile (\<lambda>l. l \<noteq> []) rest) # line_blocks (dropWhile (\<lambda>l. l \<noteq> []) rest))"
  by pat_completeness auto
termination
proof (relation "measure length")
  fix ls rest :: "string list" and l :: string
  assume "dropWhile (\<lambda>l. l = []) ls = l # rest"
  then have "Suc (length rest) \<le> length ls" by (metis length_Cons length_dropWhile_le)
  then show "(dropWhile (\<lambda>l. l \<noteq> []) rest, ls) \<in> measure length"
    using length_dropWhile_le [of "\<lambda>l. l \<noteq> []" rest] by simp
qed simp

declare line_blocks.simps [simp del]

lemma line_blocks_block:
  assumes "ls \<noteq> []" and "[] \<notin> set ls"
  shows "line_blocks (ls @ [] # rest) = ls # line_blocks rest"
proof -
  obtain l ms where ls: "ls = l # ms" using assms(1) by (cases ls) auto
  have "\<forall>l \<in> set ms. l \<noteq> []" using assms(2) ls by auto
  then have "takeWhile (\<lambda>l. l \<noteq> []) (ms @ [] # rest) = ms \<and> dropWhile (\<lambda>l. l \<noteq> []) (ms @ [] # rest) = [] # rest"
    by (induction ms) auto
  moreover have "line_blocks ([] # rest) = line_blocks rest"
    by (subst (1 2) line_blocks.simps) simp
  moreover have "l \<noteq> []" using assms(2) ls by auto
  ultimately show ?thesis by (subst line_blocks.simps) (simp add: ls)
qed

definition simple_report :: "file_entry list \<Rightarrow> group list \<Rightarrow> string" where
  "simple_report entries gs =
    separated [NEWLINE] (map (\<lambda>g. concat (map (\<lambda>e. absolute_path e @ [NEWLINE]) (members entries g))) gs)"

lemma emits_simple_files:
  assumes "start_index g + entry_count g \<le> length entries"
  shows "emits (simple_files_loop entries (start_index g) [0 ..< entry_count g])
    (concat (map (\<lambda>e. absolute_path e @ [NEWLINE]) (members entries g)))"
proof -
  have round: "emits (write_all [puts (absolute_path e), puts [NEWLINE]]) (absolute_path e @ [NEWLINE])" for e
    using emits_write_all [of "[puts (absolute_path e), puts [NEWLINE]]" "[absolute_path e, [NEWLINE]]"]
    by (simp add: emits_puts del: write_all.simps)
  show ?thesis
    unfolding simple_files_loop_eq members_indexed [OF assms] map_map comp_def by (intro emits_map round)
qed

lemma separated_before_last:
  "concat (map (\<lambda>k. f k @ (if k + 1 < n then sep else [])) [0 ..< n]) = separated sep (map f [0 ..< n])"
proof -
  have "concat (map (\<lambda>k. f k @ (if k + 1 < j + n then sep else [])) [j ..< j + n]) = separated sep (map f [j ..< j + n])" for j
  proof (induction n arbitrary: j)
    case (Suc n)
    have "concat (map (\<lambda>k. f k @ (if k + 1 < Suc j + n then sep else [])) [Suc j ..< Suc j + n]) = separated sep (map f [Suc j ..< Suc j + n])"
      by (rule Suc.IH)
    then show ?case by (cases n) (simp_all add: upt_conv_Cons separated_Cons del: upt_Suc)
  qed simp
  from this [of 0] show ?thesis by simp
qed

lemma emits_simple:
  assumes "\<forall>g \<in> set gs. start_index g + entry_count g \<le> length entries"
  shows "emits (output_simple_write entries gs) (simple_report entries gs)"
proof -
  let ?f = "\<lambda>k. concat (map (\<lambda>e. absolute_path e @ [NEWLINE]) (members entries (gs ! k)))"
  let ?round = "\<lambda>k. [simple_files_loop entries (start_index (gs ! k)) [0 ..< entry_count (gs ! k)]] @
      (if k + 1 < length gs then [puts [NEWLINE]] else [])"
  have round: "emits (write_all (?round k)) (?f k @ (if k + 1 < length gs then [NEWLINE] else []))" if "k < length gs" for k
  proof -
    have "emits (simple_files_loop entries (start_index (gs ! k)) [0 ..< entry_count (gs ! k)]) (?f k)"
      using assms that by (intro emits_simple_files) simp
    then have "emits (write_all (?round k)) (concat ([?f k] @ (if k + 1 < length gs then [[NEWLINE]] else [])))"
      by (intro emits_write_all) (simp add: emits_puts)
    then show ?thesis by (cases "k + 1 < length gs") simp_all
  qed
  have "emits (output_simple_write entries gs)
      (concat (map (\<lambda>k. ?f k @ (if k + 1 < length gs then [NEWLINE] else [])) [0 ..< length gs]))"
    unfolding output_simple_write_def simple_groups_loop_eq by (intro emits_map) (rule round, simp)
  moreover have "map ?f [0 ..< length gs] = map (\<lambda>g. concat (map (\<lambda>e. absolute_path e @ [NEWLINE]) (members entries g))) gs"
    by (rule nth_equalityI) simp_all
  ultimately show ?thesis by (simp only: separated_before_last simple_report_def)
qed

text \<open>The lines of a block of paths, and the blocks of a report.\<close>

lemma text_lines_paths:
  "\<forall>p \<in> set ps. NEWLINE \<notin> set p \<Longrightarrow> text_lines (concat (map (\<lambda>p. p @ [NEWLINE]) ps) @ t) = ps @ text_lines t"
  by (induction ps) (auto simp: text_lines_line)

lemma line_blocks_report:
  assumes "\<forall>ps \<in> set pss. ps \<noteq> [] \<and> (\<forall>p \<in> set ps. p \<noteq> [] \<and> NEWLINE \<notin> set p)"
  shows "line_blocks (text_lines (separated [NEWLINE] (map (\<lambda>ps. concat (map (\<lambda>p. p @ [NEWLINE]) ps)) pss))) = pss"
  using assms
proof (induction pss)
  case Nil
  then show ?case by (simp add: line_blocks.simps)
next
  case (Cons ps pss)
  have ps: "ps \<noteq> []" "[] \<notin> set ps" "\<forall>p \<in> set ps. NEWLINE \<notin> set p" using Cons.prems by auto
  have none: "line_blocks [] = []" by (simp add: line_blocks.simps)
  show ?case
  proof (cases pss)
    case Nil
    then show ?thesis
      using text_lines_paths [OF ps(3), of "[]"] line_blocks_block [OF ps(1,2), of "[]"] none by simp
  next
    case (Cons qs qss)
    let ?rest = "separated [NEWLINE] (map (\<lambda>ps. concat (map (\<lambda>p. p @ [NEWLINE]) ps)) pss)"
    have "text_lines (separated [NEWLINE] (map (\<lambda>ps. concat (map (\<lambda>p. p @ [NEWLINE]) ps)) (ps # pss))) =
        text_lines (concat (map (\<lambda>p. p @ [NEWLINE]) ps) @ [NEWLINE] @ ?rest)"
      using Cons by (simp add: separated_Cons)
    also have "\<dots> = ps @ [] # text_lines ?rest" using text_lines_paths [OF ps(3)] by simp
    finally show ?thesis
      using line_blocks_block [OF ps(1,2)] Cons.IH Cons.prems by simp
  qed
qed

lemma emits_json:
  assumes "groups_laid_out (length entries) gs"
  shows "emits (output_json_write fmt alg entries gs st) (render_json fmt (report_json alg entries gs st) @ [NEWLINE])"
proof -
  have in_range: "\<forall>g \<in> set gs. start_index g + entry_count g \<le> length entries"
    using groups_laid_out_in [OF assms] by blast
  let ?stats = "render_json fmt (JObj [
      (''files_scanned'', JNum (files_scanned st)), (''directories_scanned'', JNum (directories_scanned st)),
      (''files_skipped'', JNum (files_skipped st)), (''hardlinks_collapsed'', JNum (hardlinks_collapsed st)),
      (''size_candidates'', JNum (size_candidate_count st)), (''files_hashed_fast'', JNum (files_hashed_fast st)),
      (''files_hashed_full'', JNum (files_hashed_full st)), (''duplicate_groups'', JNum (duplicate_group_count st)),
      (''duplicate_files'', JNum (duplicate_file_count st)), (''wasted_bytes'', JNum (wasted_bytes st)),
      (''wall_ms'', JNum (wall_ms st))])"
  let ?groups = "separated '','' (map (\<lambda>g. render_json fmt (group_json entries g)) gs)"
  let ?head = "''{'' @ quoted ''version'' @ '':'' @ quoted ''1.0.0'' @ '','' @ quoted ''tool'' @ '':'' @
      quoted ''bc-duplicate'' @ '','' @ quoted ''algorithm'' @ '':'' @ [CHR 0x22]"
  have "emits (output_json_write fmt alg entries gs st) (concat [
      ?head, json_algorithm_name alg, [CHR 0x22, CHR '',''], quoted ''stats'' @ '':'' @ ?stats,
      '','' @ quoted ''groups'' @ '':['', ?groups, '']}'' @ [NEWLINE]])"
    unfolding output_json_write_def
    by (intro emits_write_all list_all2_Cons [THEN iffD2] conjI emits_puts emits_stats emits_groups [OF in_range] list_all2_Nil [THEN iffD2] refl)
  moreover have "json_escape fmt (json_algorithm_name alg) = json_algorithm_name alg"
      "json_escape fmt ''1.0.0'' = ''1.0.0''" "json_escape fmt ''bc-duplicate'' = ''bc-duplicate''"
    by (cases alg; simp add: json_escape_def json_algorithm_name_def escape_char_def)
       (simp_all add: json_escape_def escape_char_def)
  ultimately show ?thesis by (simp add: report_json_def quoted_def comp_def del: render_json.simps(4)) (simp add: quoted_def comp_def)
qed

text \<open>The summary, one labelled number a line.\<close>

definition summary_text :: "number_format \<Rightarrow> statistics \<Rightarrow> string" where
  "summary_text fmt st = concat (map (\<lambda>(label, value). label @ decimal fmt value @ [NEWLINE])
    [(''Files scanned:        '', files_scanned st), (''Directories scanned:  '', directories_scanned st),
     (''Files skipped:        '', files_skipped st), (''Hardlinks collapsed:  '', hardlinks_collapsed st),
     (''Size candidates:      '', size_candidate_count st), (''Files hashed (fast):  '', files_hashed_fast st),
     (''Files hashed (full):  '', files_hashed_full st), (''Duplicate groups:     '', duplicate_group_count st),
     (''Duplicate files:      '', duplicate_file_count st), (''Wasted bytes:         '', wasted_bytes st),
     (''Wall ms:              '', wall_ms st)])"

lemma emits_labeled: "emits (write_labeled_uint fmt label value) (label @ decimal fmt value @ [NEWLINE])"
  using emits_write_all [of "[puts label, puts (decimal fmt value), puts [NEWLINE]]" "[label, decimal fmt value, [NEWLINE]]"]
  by (simp add: write_labeled_uint_def emits_puts)

lemma emits_summary: "emits (output_summary_write fmt st) (summary_text fmt st)"
proof -
  have "emits (write_all (map (\<lambda>(label, value). write_labeled_uint fmt label value) ls))
      (concat (map (\<lambda>(label, value). label @ decimal fmt value @ [NEWLINE]) ls))" for ls
    by (rule emits_write_all) (auto simp: list.rel_map list_all2_same emits_labeled split: prod.split)
  from this [of "[(''Files scanned:        '', files_scanned st), (''Directories scanned:  '', directories_scanned st),
     (''Files skipped:        '', files_skipped st), (''Hardlinks collapsed:  '', hardlinks_collapsed st),
     (''Size candidates:      '', size_candidate_count st), (''Files hashed (fast):  '', files_hashed_fast st),
     (''Files hashed (full):  '', files_hashed_full st), (''Duplicate groups:     '', duplicate_group_count st),
     (''Duplicate files:      '', duplicate_file_count st), (''Wasted bytes:         '', wasted_bytes st),
     (''Wall ms:              '', wall_ms st)]"]
  show ?thesis unfolding summary_text_def by (simp add: output_summary_write_def del: concat.simps)
qed

section \<open>Properties\<close>

text \<open>C29
  The JSON report is the rendering of one JSON document: the version, tool and algorithm,
  the eleven statistics and, for every group, its size and the paths of its members. A
  report that fails half-way has written a prefix of it.
\<close>

theorem json_report_is_rendered_document:
  assumes "groups_laid_out (length entries) gs"
  shows "emits (output_json_write fmt alg entries gs st) (render_json fmt (report_json alg entries gs st) @ [NEWLINE])"
  by (rule emits_json) (rule assms)

text \<open>C30
  What the JSON report writes between the quotes for a path, a JSON reader turns back into
  that very path and stops at its end, whatever bytes the path is made of.
\<close>

theorem json_string_roundtrip:
  assumes "hexadecimal_contract fmt"
  shows "render_json fmt (JStr s) @ t = [CHR 0x22] @ json_escape fmt s @ [CHR 0x22] @ t \<and>
    emits (json_write_escaped fmt s) (render_json fmt (JStr s)) \<and>
    read_json_string (Suc (length s + fuel)) (json_escape fmt s @ [CHR 0x22] @ t) = Some (s, t)"
  using emits_escaped [of fmt s] read_escaped [OF assms] by (simp add: quoted_def)

text \<open>C31
  The simple report lists the groups as blocks of lines divided by blank lines; when no path
  is empty or holds a newline, the groups can be read back from it.
\<close>

theorem simple_report_roundtrip:
  assumes "groups_laid_out (length entries) gs"
    and "\<forall>g \<in> set gs. entry_count g \<noteq> 0"
    and "\<forall>g \<in> set gs. \<forall>e \<in> set (members entries g). absolute_path e \<noteq> [] \<and> NEWLINE \<notin> set (absolute_path e)"
  shows "emits (output_simple_write entries gs) (simple_report entries gs) \<and>
    line_blocks (text_lines (simple_report entries gs)) = map (\<lambda>g. map absolute_path (members entries g)) gs"
proof
  show "emits (output_simple_write entries gs) (simple_report entries gs)"
    using groups_laid_out_in [OF assms(1)] by (intro emits_simple) blast
  have ne: "members entries g \<noteq> []" if "g \<in> set gs" for g
    using length_members [OF assms(1) that] assms(2) that by auto
  have "simple_report entries gs = separated [NEWLINE] (map (\<lambda>ps. concat (map (\<lambda>p. p @ [NEWLINE]) ps))
      (map (\<lambda>g. map absolute_path (members entries g)) gs))"
    by (simp add: simple_report_def comp_def)
  then show "line_blocks (text_lines (simple_report entries gs)) = map (\<lambda>g. map absolute_path (members entries g)) gs"
    using line_blocks_report [of "map (\<lambda>g. map absolute_path (members entries g)) gs"] ne assms(3) by auto
qed

section \<open>Witnesses\<close>

definition digit :: "nat \<Rightarrow> char" where
  "digit n = char_of (if n < 10 then 48 + n else 87 + n)"

definition sample_format :: number_format where
  "sample_format = \<lparr>decimal = (\<lambda>w. [digit (unat w mod 10)]),
    hexadecimal_padded = (\<lambda>w n. [digit 0, digit 0, digit (unat w div 16), digit (unat w mod 16)])\<rparr>"

lemma sample_format_contract: "hexadecimal_contract sample_format"
proof -
  have "hex_digit (digit n) = Some n" if "n < 16" for n
    using that by (auto simp: hex_digit_def digit_def Let_def of_char_of)
  moreover have "unat (of_nat n :: u64) = n" if "n < 0x20" for n
    using that by (simp add: unsigned_of_nat take_bit_nat_eq_self)
  ultimately show ?thesis by (simp add: hexadecimal_contract_def sample_format_def)
qed

definition report_entries :: "file_entry list" where
  "report_entries = [new_entry ''/a'' 2 1 100, new_entry ''/b'' 2 1 101]"

definition report_group :: group where
  "report_group = \<lparr>start_index = 0, entry_count = 2, group_file_size = 2\<rparr>"

definition zero_statistics :: statistics where
  "zero_statistics = \<lparr>files_scanned = 0, directories_scanned = 0, files_skipped = 0, hardlinks_collapsed = 0,
    size_candidate_count = 0, files_hashed_fast = 0, files_hashed_full = 0, duplicate_group_count = 0,
    duplicate_file_count = 0, wasted_bytes = 0, wall_ms = 0\<rparr>"

lemma report_group_laid_out: "groups_laid_out (length report_entries) [report_group]"
  by (simp add: groups_laid_out_def report_group_def report_entries_def span_def)

theorem json_report_is_rendered_document_witness:
  "let w = \<lparr>accepts = \<lambda>_. True, calls = 0, written = []\<rparr>;
       (ok, w') = output_json_write sample_format ALGORITHM_XXH3 report_entries [report_group] zero_statistics w in
    ok \<and> written w' = render_json sample_format (report_json ALGORITHM_XXH3 report_entries [report_group] zero_statistics) @ [NEWLINE]"
  using json_report_is_rendered_document [OF report_group_laid_out, of sample_format ALGORITHM_XXH3 zero_statistics]
  unfolding emits_def Let_def
  by (auto dest!: spec [where x = "\<lparr>accepts = \<lambda>_. True, calls = 0, written = []\<rparr>"] split: prod.split)

theorem json_string_roundtrip_witness:
  "read_json_string 3 (json_escape sample_format [CHR 0x22, CHR 0x01] @ [CHR 0x22] @ ''x'') = Some ([CHR 0x22, CHR 0x01], ''x'')"
  using json_string_roundtrip [OF sample_format_contract, of "[CHR 0x22, CHR 0x01]" "''x''" 0]
  by (simp add: numeral_3_eq_3 del: read_json_string.simps)

theorem simple_report_roundtrip_witness:
  "line_blocks (text_lines (simple_report report_entries [report_group])) = [[''/a'', ''/b'']]"
proof -
  have mem: "members report_entries report_group = report_entries"
    by (simp add: members_def segment_def report_entries_def report_group_def)
  have paths: "\<forall>e \<in> set report_entries. absolute_path e \<noteq> [] \<and> NEWLINE \<notin> set (absolute_path e)"
    by (simp add: report_entries_def new_entry_def NEWLINE_def)
  have "line_blocks (text_lines (simple_report report_entries [report_group])) =
      map (\<lambda>g. map absolute_path (members report_entries g)) [report_group]"
    by (rule simple_report_roundtrip [OF report_group_laid_out, THEN conjunct2])
      (use mem paths in \<open>simp_all add: report_group_def\<close>)
  then show ?thesis by (simp add: mem) (simp add: report_entries_def new_entry_def)
qed

end
