(* ===== verification/Path_Filter.thy ===== *)
theory Path_Filter
  imports Dup_Pool
begin

text \<open>
  \<^verbatim>\<open>src/filter/bc_duplicate_filter.c\<close> and \<^verbatim>\<open>src/discovery/bc_duplicate_discovery_glob.c\<close>: the
  include and exclude patterns, split in place in a copy of the option's text, and the tests
  on path arguments. \<^verbatim>\<open>fnmatch\<close> and \<^verbatim>\<open>statfs\<close> are parameters.
\<close>

section \<open>Patterns\<close>

definition NUL :: char where "NUL = CHR 0x00"

text \<open>The C string at an offset of a buffer.\<close>

definition cstring_at :: "string \<Rightarrow> nat \<Rightarrow> string" where
  "cstring_at buffer offset = takeWhile (\<lambda>c. c \<noteq> NUL) (drop offset buffer)"

text \<open>One half of the filter: the blocks it owns, the buffer, and the patterns as offsets into it.\<close>

record pattern_list =
  text_block :: "nat option"
  text_bytes :: string
  patterns_block :: "nat option"
  pattern_offsets :: "nat list"

definition no_patterns :: pattern_list where
  "no_patterns = \<lparr>text_block = None, text_bytes = [], patterns_block = None, pattern_offsets = []\<rparr>"

record path_filter =
  filter_block :: nat
  include_patterns :: pattern_list
  exclude_patterns :: pattern_list

fun split_loop :: "nat \<Rightarrow> nat list \<Rightarrow> string \<times> nat list \<Rightarrow> string \<times> nat list" where
  "split_loop cnt [] acc = acc"
| "split_loop cnt (index # rest) (buffer, offsets) =
    split_loop cnt rest
      (if buffer ! index = NEWLINE
       then (buffer[index := NUL], if length offsets < cnt then offsets @ [index + 1] else offsets)
       else (buffer, offsets))"

definition count_and_split :: "pool \<Rightarrow> string option \<Rightarrow> pattern_list option \<times> pool" where
  "count_and_split m list =
    (case list of
       None \<Rightarrow> (Some no_patterns, m)
     | Some s \<Rightarrow>
         if s = [] then (Some no_patterns, m)
         else
           (case pool_allocate m of
              (None, m1) \<Rightarrow> (None, m1)
            | (Some b, m1) \<Rightarrow>
                (let list_length = length s;
                     buffer = s @ [NUL];
                     cnt = 1 + length (filter (\<lambda>index. buffer ! index = NEWLINE) [0 ..< list_length]) in
                 case pool_allocate m1 of
                   (None, m2) \<Rightarrow> (None, pool_free b m2)
                 | (Some p, m2) \<Rightarrow>
                     (case split_loop cnt [0 ..< list_length] (buffer, [0]) of (buffer', offsets) \<Rightarrow>
                        (Some \<lparr>text_block = Some b, text_bytes = buffer', patterns_block = Some p, pattern_offsets = offsets\<rparr>, m2)))))"

definition filter_create :: "pool \<Rightarrow> string option \<Rightarrow> string option \<Rightarrow> path_filter option \<times> pool" where
  "filter_create m inc_list exc_list =
    (case pool_allocate m of
       (None, m1) \<Rightarrow> (None, m1)
     | (Some b, m1) \<Rightarrow>
         (case count_and_split m1 inc_list of
            (None, m2) \<Rightarrow> (None, pool_free b m2)
          | (Some inc, m2) \<Rightarrow>
              (case count_and_split m2 exc_list of
                 (None, m3) \<Rightarrow>
                   (None, pool_free b (free_if_set (text_block inc) (free_if_set (patterns_block inc) m3)))
               | (Some exc, m3) \<Rightarrow>
                   (Some \<lparr>filter_block = b, include_patterns = inc, exclude_patterns = exc\<rparr>, m3))))"

definition filter_destroy :: "path_filter \<Rightarrow> pool \<Rightarrow> pool" where
  "filter_destroy f m =
    pool_free (filter_block f)
      (free_if_set (text_block (include_patterns f)) (free_if_set (patterns_block (include_patterns f))
        (free_if_set (text_block (exclude_patterns f)) (free_if_set (patterns_block (exclude_patterns f)) m))))"

text \<open>\<open>fnm pattern name\<close> is \<^verbatim>\<open>fnmatch(pattern, name, 0) == 0\<close>.\<close>

definition basename_matches_any :: "(string \<Rightarrow> string \<Rightarrow> bool) \<Rightarrow> pattern_list \<Rightarrow> string \<Rightarrow> bool" where
  "basename_matches_any fnm pl basename =
    list_ex (\<lambda>offset. fnm (cstring_at (text_bytes pl) offset) basename) (pattern_offsets pl)"

definition filter_accepts_file :: "(string \<Rightarrow> string \<Rightarrow> bool) \<Rightarrow> path_filter option \<Rightarrow> string \<Rightarrow> bool" where
  "filter_accepts_file fnm f basename =
    (case f of
       None \<Rightarrow> True
     | Some f \<Rightarrow>
         if length (pattern_offsets (exclude_patterns f)) > 0 \<and> basename_matches_any fnm (exclude_patterns f) basename
         then False
         else if length (pattern_offsets (include_patterns f)) > 0 \<and> \<not> basename_matches_any fnm (include_patterns f) basename
         then False
         else True)"

definition filter_accepts_directory :: "(string \<Rightarrow> string \<Rightarrow> bool) \<Rightarrow> path_filter option \<Rightarrow> string \<Rightarrow> bool" where
  "filter_accepts_directory fnm f basename =
    (case f of
       None \<Rightarrow> True
     | Some f \<Rightarrow>
         \<not> (length (pattern_offsets (exclude_patterns f)) > 0 \<and> basename_matches_any fnm (exclude_patterns f) basename))"

section \<open>Path arguments\<close>

definition BACKSLASH :: char where "BACKSLASH = CHR 0x5C"

definition glob_special :: "char \<Rightarrow> bool" where
  "glob_special c \<longleftrightarrow> c = CHR ''*'' \<or> c = CHR ''?'' \<or> c = CHR ''[''"

fun glob_scan :: "bool \<Rightarrow> string \<Rightarrow> bool" where
  "glob_scan escaped [] = False"
| "glob_scan escaped (c # cs) =
    (if escaped then glob_scan False cs
     else if c = BACKSLASH then glob_scan True cs
     else if glob_special c then True
     else glob_scan False cs)"

definition glob_contains_metacharacter :: "string \<Rightarrow> bool" where
  "glob_contains_metacharacter pattern = glob_scan False pattern"

definition pseudo_magics :: "u64 list" where
  "pseudo_magics = [0x9fa0, 0x62656572, 0x1cd1, 0x27e0eb, 0x63677270, 0xcafe4a11, 0x74726163, 0x64626720,
    0x73636673, 0x6165676C, 0xf97cff8c, 0x19800202, 0x42494e4d, 0x0187]"

text \<open>\<open>statfs path\<close> is the type of the file system, or \<open>None\<close> when the call fails.\<close>

definition path_is_pseudo_filesystem :: "(string \<Rightarrow> u64 option) \<Rightarrow> string \<Rightarrow> bool \<times> bool" where
  "path_is_pseudo_filesystem statfs path =
    (case statfs path of None \<Rightarrow> (False, False) | Some f_type \<Rightarrow> (True, f_type \<in> set pseudo_magics))"

section \<open>What the split computes\<close>

definition option_patterns :: "string option \<Rightarrow> string list" where
  "option_patterns list = (case list of None \<Rightarrow> [] | Some s \<Rightarrow> if s = [] then [] else text_lines s)"

definition pattern_strings :: "pattern_list \<Rightarrow> string list" where
  "pattern_strings pl = map (cstring_at (text_bytes pl)) (pattern_offsets pl)"

definition blank_newlines :: "string \<Rightarrow> string" where
  "blank_newlines = map (\<lambda>c. if c = NEWLINE then NUL else c)"

lemma NEWLINE_neq_NUL [simp]: "NEWLINE \<noteq> NUL" "NUL \<noteq> NEWLINE"
  by (simp_all add: NEWLINE_def NUL_def)

lemma nth_newline_count:
  "length (filter (\<lambda>index. (s @ t) ! index = NEWLINE) [0 ..< length s]) = length (filter (\<lambda>c. c = NEWLINE) s)"
proof -
  have "filter (\<lambda>c. c = NEWLINE) s = map ((!) s) (filter (\<lambda>index. s ! index = NEWLINE) [0 ..< length s])"
    using filter_map [of "\<lambda>c. c = NEWLINE" "(!) s" "[0 ..< length s]"] by (simp add: map_nth comp_def)
  moreover have "filter (\<lambda>index. (s @ t) ! index = NEWLINE) [0 ..< length s] = filter (\<lambda>index. s ! index = NEWLINE) [0 ..< length s]"
    by (rule filter_cong) (auto simp: nth_append)
  ultimately show ?thesis by simp
qed

text \<open>The loop blanks the newlines from its position on and appends the offsets behind them.\<close>

lemma split_loop_eq:
  assumes "length offsets + length (filter (\<lambda>c. c = NEWLINE) s) \<le> cnt"
  shows "split_loop cnt [length p ..< length p + length s] (p @ s @ t, offsets) =
    (p @ blank_newlines s @ t,
     offsets @ map (\<lambda>k. length p + Suc k) (filter (\<lambda>k. s ! k = NEWLINE) [0 ..< length s]))"
  using assms
proof (induction s arbitrary: p offsets)
  case Nil
  then show ?case by (simp add: blank_newlines_def)
next
  case (Cons c s)
  have upt: "[length p ..< length p + length (c # s)] = length p # [length (p @ [d]) ..< length (p @ [d]) + length s]" for d :: char
    by (subst upt_conv_Cons) simp_all
  have ks: "filter (\<lambda>k. (c # s) ! k = NEWLINE) [0 ..< length (c # s)] =
      (if c = NEWLINE then [0] else []) @ map Suc (filter (\<lambda>k. s ! k = NEWLINE) [0 ..< length s])"
    by (simp add: upt_conv_Cons map_Suc_upt [symmetric] filter_map comp_def del: upt_Suc)
  show ?case
  proof (cases "c = NEWLINE")
    case True
    then have "split_loop cnt [length p ..< length p + length (c # s)] (p @ (c # s) @ t, offsets) =
        split_loop cnt [length (p @ [NUL]) ..< length (p @ [NUL]) + length s] ((p @ [NUL]) @ s @ t, offsets @ [length p + 1])"
      using Cons.prems by (subst upt [of NUL]) (simp add: nth_append list_update_append)
    also have "\<dots> = ((p @ [NUL]) @ blank_newlines s @ t, (offsets @ [length p + 1]) @
        map (\<lambda>k. length (p @ [NUL]) + Suc k) (filter (\<lambda>k. s ! k = NEWLINE) [0 ..< length s]))"
      using Cons.prems True by (intro Cons.IH) simp
    finally show ?thesis using True unfolding ks by (simp add: blank_newlines_def comp_def)
  next
    case False
    then have "split_loop cnt [length p ..< length p + length (c # s)] (p @ (c # s) @ t, offsets) =
        split_loop cnt [length (p @ [c]) ..< length (p @ [c]) + length s] ((p @ [c]) @ s @ t, offsets)"
      by (subst upt [of c]) (simp add: nth_append)
    also have "\<dots> = ((p @ [c]) @ blank_newlines s @ t, offsets @
        map (\<lambda>k. length (p @ [c]) + Suc k) (filter (\<lambda>k. s ! k = NEWLINE) [0 ..< length s]))"
      using Cons.prems False by (intro Cons.IH) simp
    finally show ?thesis using False unfolding ks by (simp add: blank_newlines_def comp_def)
  qed
qed

text \<open>The C strings at these offsets are the lines.\<close>

lemma cstring_prefix [simp]: "cstring_at (p @ s) (length p + k) = cstring_at s k"
  by (simp add: cstring_at_def)

lemma cstring_lines:
  assumes "NUL \<notin> set s"
  shows "map (cstring_at (blank_newlines s @ [NUL])) (0 # map Suc (filter (\<lambda>k. s ! k = NEWLINE) [0 ..< length s])) = text_lines s"
  using assms
proof (induction s)
  case Nil
  then show ?case by (simp add: blank_newlines_def cstring_at_def)
next
  case (Cons c s)
  let ?rest = "filter (\<lambda>k. s ! k = NEWLINE) [0 ..< length s]"
  have ks: "filter (\<lambda>k. (c # s) ! k = NEWLINE) [0 ..< length (c # s)] = (if c = NEWLINE then [0] else []) @ map Suc ?rest"
    by (simp add: upt_conv_Cons map_Suc_upt [symmetric] filter_map comp_def del: upt_Suc)
  have IH: "map (cstring_at (blank_newlines s @ [NUL])) (0 # map Suc ?rest) = text_lines s"
    using Cons by simp
  have shift: "cstring_at (blank_newlines (d # s) @ [NUL]) (Suc k) = cstring_at (blank_newlines s @ [NUL]) k" for d k
    by (simp add: cstring_at_def blank_newlines_def)
  show ?case
  proof (cases "c = NEWLINE")
    case True
    then have "cstring_at (blank_newlines (c # s) @ [NUL]) 0 = []"
      by (simp add: cstring_at_def blank_newlines_def)
    then show ?thesis unfolding ks using True IH by (simp add: shift comp_def)
  next
    case False
    then have "cstring_at (blank_newlines (c # s) @ [NUL]) 0 = c # cstring_at (blank_newlines s @ [NUL]) 0"
      using Cons.prems by (auto simp: cstring_at_def blank_newlines_def)
    then show ?thesis unfolding ks using False IH by (auto simp: shift comp_def simp flip: IH)
  qed
qed

lemma count_and_split_strings:
  assumes "count_and_split m list = (Some pl, m')" and "\<forall>s. list = Some s \<longrightarrow> NUL \<notin> set s"
  shows "pattern_strings pl = option_patterns list"
proof (cases list)
  case None
  then show ?thesis using assms by (auto simp: count_and_split_def pattern_strings_def no_patterns_def option_patterns_def)
next
  case (Some s)
  show ?thesis
  proof (cases "s = []")
    case True
    then show ?thesis using assms Some by (auto simp: count_and_split_def pattern_strings_def no_patterns_def option_patterns_def)
  next
    case False
    let ?cnt = "1 + length (filter (\<lambda>c. c = NEWLINE) s)"
    have loop: "split_loop ?cnt [0 ..< length s] (s @ [NUL], [0]) =
        (blank_newlines s @ [NUL], 0 # map Suc (filter (\<lambda>k. s ! k = NEWLINE) [0 ..< length s]))"
      using split_loop_eq [of "[0]" s ?cnt "[]" "[NUL]"] by simp
    have "pattern_strings pl = map (cstring_at (blank_newlines s @ [NUL])) (0 # map Suc (filter (\<lambda>k. s ! k = NEWLINE) [0 ..< length s]))"
      using assms(1) Some False loop
      by (auto simp: count_and_split_def pattern_strings_def nth_newline_count Let_def split: prod.splits option.splits)
    also have "\<dots> = text_lines s" using assms(2) Some by (intro cstring_lines) simp
    finally show ?thesis using Some False by (simp add: option_patterns_def)
  qed
qed

definition option_blocks :: "nat option \<Rightarrow> nat multiset" where
  "option_blocks b = (case b of None \<Rightarrow> {#} | Some k \<Rightarrow> {#k#})"

definition list_blocks :: "pattern_list \<Rightarrow> nat multiset" where
  "list_blocks pl = option_blocks (text_block pl) + option_blocks (patterns_block pl)"

lemma holds_free_if_set: "holds m (bs + option_blocks b) m' \<Longrightarrow> holds m bs (free_if_set b m')"
  by (auto simp: free_if_set_def option_blocks_def split: option.splits intro: pool_free_holds)

lemma count_and_split_holds:
  assumes "holds m bs m1" and "count_and_split m1 list = (res, m2)"
  shows "res = Some pl \<Longrightarrow> holds m (bs + list_blocks pl) m2" and "res = None \<Longrightarrow> holds m bs m2"
proof -
  have "(\<forall>pl. res = Some pl \<longrightarrow> holds m (bs + list_blocks pl) m2) \<and> (res = None \<longrightarrow> holds m bs m2)"
  proof (cases "list = None \<or> list = Some []")
    case True
    then show ?thesis using assms by (auto simp: count_and_split_def no_patterns_def list_blocks_def option_blocks_def)
  next
    case False
    then obtain s where s: "list = Some s" "s \<noteq> []" by auto
    show ?thesis
    proof (cases "pool_allocate m1")
      case (Pair answer m3)
      show ?thesis
      proof (cases answer)
        case None
        then show ?thesis using assms s Pair holds_allocate(2) by (auto simp: count_and_split_def)
      next
        case (Some b)
        then have b: "holds m (add_mset b bs) m3" using assms(1) Pair holds_allocate(1) by blast
        show ?thesis
        proof (cases "pool_allocate m3")
          case second: (Pair answer' m4)
          then show ?thesis
            using assms(2) s Pair Some b holds_allocate(1) [OF b] holds_allocate(2) [OF b] pool_free_holds
            by (cases answer') (auto simp: count_and_split_def Let_def list_blocks_def option_blocks_def
                add_mset_commute split: prod.splits)
        qed
      qed
    qed
  qed
  then show "res = Some pl \<Longrightarrow> holds m (bs + list_blocks pl) m2" and "res = None \<Longrightarrow> holds m bs m2" by blast+
qed

lemma filter_create_holds:
  assumes "filter_create m inc_list exc_list = (res, m')"
  shows "res = None \<Longrightarrow> holds m {#} m'"
    and "res = Some f \<Longrightarrow> holds m (add_mset (filter_block f) (list_blocks (include_patterns f) + list_blocks (exclude_patterns f))) m'"
proof -
  have "(res = None \<longrightarrow> holds m {#} m') \<and> (\<forall>f. res = Some f \<longrightarrow>
      holds m (add_mset (filter_block f) (list_blocks (include_patterns f) + list_blocks (exclude_patterns f))) m')"
  proof (cases "pool_allocate m")
    case (Pair answer m1)
    show ?thesis
    proof (cases answer)
      case None
      then show ?thesis using assms Pair by (auto simp: filter_create_def dest: pool_allocate_holds)
    next
      case (Some b)
      then have b: "holds m {#b#} m1" using Pair pool_allocate_holds(1) by blast
      obtain inc m2 where inc: "count_and_split m1 inc_list = (inc, m2)" by (cases "count_and_split m1 inc_list")
      show ?thesis
      proof (cases inc)
        case None
        then have "holds m {#b#} m2" using count_and_split_holds(2) [OF b inc] by simp
        then show ?thesis using assms Pair Some inc None by (auto simp: filter_create_def intro: pool_free_holds)
      next
        case pl: (Some pl)
        then have pl2: "holds m ({#b#} + list_blocks pl) m2" using count_and_split_holds(1) [OF b inc] by simp
        obtain exc m3 where exc: "count_and_split m2 exc_list = (exc, m3)" by (cases "count_and_split m2 exc_list")
        show ?thesis
        proof (cases exc)
          case None
          then have "holds m ({#b#} + list_blocks pl) m3" using count_and_split_holds(2) [OF pl2 exc] by simp
          then have "holds m (({#b#} + option_blocks (text_block pl)) + option_blocks (patterns_block pl)) m3"
            by (simp add: list_blocks_def)
          then have "holds m {#} (pool_free b (free_if_set (text_block pl) (free_if_set (patterns_block pl) m3)))"
            by (intro pool_free_holds holds_free_if_set) simp
          then show ?thesis using assms Pair Some inc pl exc None by (auto simp: filter_create_def)
        next
          case ql: (Some ql)
          then have "holds m ({#b#} + list_blocks pl + list_blocks ql) m3" using count_and_split_holds(1) [OF pl2 exc] by simp
          then show ?thesis using assms Pair Some inc pl exc ql by (auto simp: filter_create_def)
        qed
      qed
    qed
  qed
  then show "res = None \<Longrightarrow> holds m {#} m'"
    and "res = Some f \<Longrightarrow> holds m (add_mset (filter_block f) (list_blocks (include_patterns f) + list_blocks (exclude_patterns f))) m'"
    by blast+
qed

lemma filter_destroy_holds:
  assumes "holds m (bs + add_mset (filter_block f) (list_blocks (include_patterns f) + list_blocks (exclude_patterns f))) m'"
  shows "holds m bs (filter_destroy f m')"
  unfolding filter_destroy_def
  by (intro pool_free_holds holds_free_if_set) (use assms in \<open>simp add: list_blocks_def ac_simps\<close>)

lemma filter_create_patterns:
  assumes "filter_create m inc_list exc_list = (Some f, m')"
    and "\<forall>s. inc_list = Some s \<longrightarrow> NUL \<notin> set s" and "\<forall>s. exc_list = Some s \<longrightarrow> NUL \<notin> set s"
  shows "pattern_strings (include_patterns f) = option_patterns inc_list"
    and "pattern_strings (exclude_patterns f) = option_patterns exc_list"
proof -
  obtain m1 m2 m3 where "count_and_split m1 inc_list = (Some (include_patterns f), m2)"
      "count_and_split m2 exc_list = (Some (exclude_patterns f), m3)"
    using assms(1) by (auto simp: filter_create_def split: prod.splits option.splits)
  then show "pattern_strings (include_patterns f) = option_patterns inc_list"
    and "pattern_strings (exclude_patterns f) = option_patterns exc_list"
    using assms(2,3) count_and_split_strings by blast+
qed

text \<open>With a pool that grants everything a filter is always built.\<close>

lemma count_and_split_granted:
  assumes "grants m = (\<lambda>_. True)"
  shows "\<exists>pl m'. count_and_split m list = (Some pl, m') \<and> grants m' = (\<lambda>_. True)"
proof -
  obtain b m1 where m1: "pool_allocate m = (Some b, m1)" "grants m1 = (\<lambda>_. True)"
    using pool_allocate_granted [OF assms] assms by auto
  obtain p m2 where "pool_allocate m1 = (Some p, m2)" "grants m2 = (\<lambda>_. True)"
    using pool_allocate_granted [OF m1(2)] m1(2) by auto
  then show ?thesis using m1 assms by (simp add: count_and_split_def Let_def split: option.split prod.split)
qed

lemma filter_create_granted:
  assumes "grants m = (\<lambda>_. True)"
  shows "\<exists>f m'. filter_create m inc_list exc_list = (Some f, m')"
proof -
  obtain b m1 where m1: "pool_allocate m = (Some b, m1)" "grants m1 = (\<lambda>_. True)"
    using pool_allocate_granted [OF assms] assms by auto
  obtain inc m2 where inc: "count_and_split m1 inc_list = (Some inc, m2)" "grants m2 = (\<lambda>_. True)"
    using count_and_split_granted [OF m1(2)] by blast
  obtain exc m3 where "count_and_split m2 exc_list = (Some exc, m3)" using count_and_split_granted [OF inc(2)] by blast
  then show ?thesis using m1 inc by (simp add: filter_create_def)
qed

lemma matches_any_strings: "basename_matches_any fnm pl name \<longleftrightarrow> (\<exists>p \<in> set (pattern_strings pl). fnm p name)"
  by (auto simp: basename_matches_any_def pattern_strings_def list_ex_iff)

lemma filter_accepts_lines:
  assumes "filter_create m inc_list exc_list = (Some f, m')"
    and "\<forall>s. inc_list = Some s \<longrightarrow> NUL \<notin> set s" and "\<forall>s. exc_list = Some s \<longrightarrow> NUL \<notin> set s"
  shows "(filter_accepts_file fnm (Some f) name \<longleftrightarrow>
      (\<forall>p \<in> set (option_patterns exc_list). \<not> fnm p name) \<and>
      (option_patterns inc_list = [] \<or> (\<exists>p \<in> set (option_patterns inc_list). fnm p name))) \<and>
    (filter_accepts_directory fnm (Some f) name \<longleftrightarrow> (\<forall>p \<in> set (option_patterns exc_list). \<not> fnm p name))"
proof -
  note strings = filter_create_patterns [OF assms]
  have "length (pattern_offsets (include_patterns f)) = length (option_patterns inc_list)"
    and "length (pattern_offsets (exclude_patterns f)) = length (option_patterns exc_list)"
    unfolding strings [symmetric] by (simp_all add: pattern_strings_def)
  then show ?thesis
    by (auto simp: filter_accepts_file_def filter_accepts_directory_def matches_any_strings strings)
qed

text \<open>
  Building a filter and destroying it leaves the pool as it was, a filter that cannot be
  built leaves nothing behind, and neither frees a block it does not hold.
\<close>

lemma filter_lifecycle_balances_the_pool:
  "case filter_create m inc_list exc_list of
     (None, m') \<Rightarrow> holds m {#} m'
   | (Some f, m') \<Rightarrow> holds m {#} (filter_destroy f m')"
proof (cases "filter_create m inc_list exc_list")
  case (Pair res m')
  then show ?thesis
    using filter_create_holds(1) [OF Pair] filter_create_holds(2) [OF Pair] filter_destroy_holds [of m "{#}"]
    by (cases res) auto
qed

section \<open>Escapes in patterns\<close>

text \<open>A character of a pattern is escaped when an odd number of backslashes stands right before it.\<close>

definition trailing_backslashes :: "string \<Rightarrow> nat" where
  "trailing_backslashes s = length (takeWhile (\<lambda>c. c = BACKSLASH) (rev s))"

definition unescaped_special :: "string \<Rightarrow> nat \<Rightarrow> bool" where
  "unescaped_special p i \<longleftrightarrow> glob_special (p ! i) \<and> even (trailing_backslashes (take i p))"

lemma trailing_backslashes_snoc:
  "trailing_backslashes (s @ [c]) = (if c = BACKSLASH then Suc (trailing_backslashes s) else 0)"
  by (simp add: trailing_backslashes_def)

lemma BACKSLASH_not_special [simp]: "\<not> glob_special BACKSLASH"
  by (simp add: BACKSLASH_def glob_special_def)

lemma glob_scan_special:
  "glob_scan (odd (trailing_backslashes q)) p \<longleftrightarrow>
    (\<exists>i < length p. glob_special (p ! i) \<and> even (trailing_backslashes (q @ take i p)))"
proof (induction p arbitrary: q)
  case (Cons c p)
  have split: "(\<exists>i < length (c # p). glob_special ((c # p) ! i) \<and> even (trailing_backslashes (q @ take i (c # p)))) \<longleftrightarrow>
      (glob_special c \<and> even (trailing_backslashes q)) \<or>
      (\<exists>i < length p. glob_special (p ! i) \<and> even (trailing_backslashes ((q @ [c]) @ take i p)))"
    by (auto simp: less_Suc_eq_0_disj)
  show ?case unfolding split Cons.IH [symmetric]
    by (auto simp: trailing_backslashes_snoc)
qed simp

section \<open>Properties\<close>

text \<open>C27
  A filter built from the texts of the two options accepts a file exactly when no line of
  the exclude text matches its name and, if there is an include text, some line of it does;
  it accepts a directory exactly when no line of the exclude text matches.
\<close>

theorem filter_decides_by_lines:
  assumes "filter_create m inc_list exc_list = (Some f, m')"
    and "\<forall>s. inc_list = Some s \<longrightarrow> NUL \<notin> set s" and "\<forall>s. exc_list = Some s \<longrightarrow> NUL \<notin> set s"
  shows "(filter_accepts_file fnm (Some f) name \<longleftrightarrow>
      (\<forall>p \<in> set (option_patterns exc_list). \<not> fnm p name) \<and>
      (option_patterns inc_list = [] \<or> (\<exists>p \<in> set (option_patterns inc_list). fnm p name))) \<and>
    (filter_accepts_directory fnm (Some f) name \<longleftrightarrow> (\<forall>p \<in> set (option_patterns exc_list). \<not> fnm p name))"
  by (rule filter_accepts_lines [OF assms])

text \<open>C21
  An argument is treated as a glob pattern exactly when one of \<^verbatim>\<open>*\<close>, \<^verbatim>\<open>?\<close>, \<^verbatim>\<open>[\<close> occurs in it
  after an even number of backslashes.
\<close>

theorem glob_detects_unescaped_specials:
  "glob_contains_metacharacter p \<longleftrightarrow> (\<exists>i \<in> {0 ..< length p}. unescaped_special p i)"
  using glob_scan_special [of "[]" p]
  by (auto simp: glob_contains_metacharacter_def unescaped_special_def trailing_backslashes_def)

theorem filter_decides_by_lines_witness:
  "\<exists>f m'. filter_create granting_pool (Some (''a'' @ [NEWLINE] @ ''b'')) (Some ''c'') = (Some f, m') \<and>
    filter_accepts_file (=) (Some f) ''b'' \<and> \<not> filter_accepts_file (=) (Some f) ''c'' \<and> \<not> filter_accepts_file (=) (Some f) ''d''"
proof -
  have "\<exists>f m'. filter_create granting_pool (Some (''a'' @ [NEWLINE] @ ''b'')) (Some ''c'') = (Some f, m')"
    by (auto simp: filter_create_def count_and_split_def granting_pool_def fresh_pool_def pool_allocate_def Let_def
        split: prod.split)
  then obtain f m' where f: "filter_create granting_pool (Some (''a'' @ [NEWLINE] @ ''b'')) (Some ''c'') = (Some f, m')"
    by blast
  have "filter_accepts_file (=) (Some f) name \<longleftrightarrow> name \<in> {''a'', ''b''} \<and> name \<noteq> ''c''" for name
    using filter_decides_by_lines [OF f, of "(=)" name]
    by (auto simp: option_patterns_def NUL_def NEWLINE_def)
  then show ?thesis using f by (intro exI [of _ f] exI [of _ m']) simp
qed

end
