(* ===== verification/Discovery_Walk.thy ===== *)
theory Discovery_Walk
  imports Path_Filter
begin

text \<open>
  \<^verbatim>\<open>src/discovery/bc_duplicate_discovery_walk.c\<close>: the sequential walk over the input paths. The
  file system is a parameter. Directories are walked recursively and each inode is entered
  once; the recursion of the model is bounded by fuel, and a bound on the directory inodes
  is enough fuel.
\<close>

section \<open>The file system\<close>

datatype file_kind = Regular | Directory | Symlink | Special

record stat_buf =
  st_kind :: file_kind
  st_size :: u64
  st_dev :: u64
  st_ino :: u64

text \<open>
  The calls, with their errors as \<^verbatim>\<open>errno\<close> values; the first argument of a lookup says whether
  symbolic links are followed. \<open>fs_readdir\<close> gives the names and the error that ends the
  stream (zero at its end), \<open>fs_join\<close> fails when the path does not fit in the buffer.
\<close>

record file_system =
  fs_stat :: "bool \<Rightarrow> string \<Rightarrow> int + stat_buf"
  fs_open_dir :: "bool \<Rightarrow> string \<Rightarrow> int + nat"
  fs_statat :: "nat \<Rightarrow> bool \<Rightarrow> string \<Rightarrow> int + stat_buf"
  fs_openat_dir :: "nat \<Rightarrow> bool \<Rightarrow> string \<Rightarrow> int + nat"
  fs_dup :: "nat \<Rightarrow> int option"
  fs_fdopendir :: "nat \<Rightarrow> int option"
  fs_readdir :: "nat \<Rightarrow> string list \<times> int"
  fs_statfs :: "string \<Rightarrow> u64 option"
  fs_glob :: "string \<Rightarrow> string list option"
  fs_join :: "string \<Rightarrow> string \<Rightarrow> string option"

record discovery_options =
  walk_hidden :: bool
  walk_follow :: bool
  walk_one_fs :: bool
  walk_minimum :: u64

text \<open>
  The environment of a walk: beside the file system, whether the vector takes an entry
  and the inode set an inode (by their number so far), and the answers of the signal handler.
\<close>

record walk_env =
  env_fs :: file_system
  env_fnmatch :: "string \<Rightarrow> string \<Rightarrow> bool"
  env_filter :: "path_filter option"
  env_options :: discovery_options
  env_push_ok :: "nat \<Rightarrow> bool"
  env_insert_ok :: "nat \<Rightarrow> bool"
  env_stop :: "nat \<Rightarrow> bool"

record walk_state =
  walk_memory :: pool
  found :: "file_entry list"
  path_blocks :: "nat list"
  walk_errors :: "(string \<times> string \<times> int) list"
  visited :: "(u64 \<times> u64) list"
  root_device :: "u64 option"
  polls :: nat

definition ENOENT :: int where "ENOENT = 2"
definition ENOMEM :: int where "ENOMEM = 12"
definition EINVAL :: int where "EINVAL = 22"
definition ENAMETOOLONG :: int where "ENAMETOOLONG = 36"
definition ELOOP :: int where "ELOOP = 40"

definition collect_error :: "string \<Rightarrow> string \<Rightarrow> int \<Rightarrow> walk_state \<Rightarrow> walk_state" where
  "collect_error path stage err st = st\<lparr>walk_errors := walk_errors st @ [(path, stage, err)]\<rparr>"

definition walk_should_stop :: "walk_env \<Rightarrow> walk_state \<Rightarrow> bool \<times> walk_state" where
  "walk_should_stop env st = (env_stop env (polls st), st\<lparr>polls := Suc (polls st)\<rparr>)"

section \<open>Entries and directories\<close>

definition walk_append_entry ::
  "walk_env \<Rightarrow> string \<Rightarrow> u64 \<Rightarrow> u64 \<Rightarrow> u64 \<Rightarrow> walk_state \<Rightarrow> bool \<times> walk_state" where
  "walk_append_entry env path sz dev ino st =
    (if sz < walk_minimum (env_options env) then (True, st)
     else
       (case pool_allocate (walk_memory st) of
          (None, m) \<Rightarrow> (False, collect_error path ''allocate'' ENOMEM (st\<lparr>walk_memory := m\<rparr>))
        | (Some b, m) \<Rightarrow>
            if \<not> env_push_ok env (length (found st))
            then (False, collect_error path ''enqueue'' ENOMEM (st\<lparr>walk_memory := pool_free b m\<rparr>))
            else (True, st\<lparr>walk_memory := m, found := found st @ [new_entry path sz dev ino],
                          path_blocks := path_blocks st @ [b]\<rparr>)))"

text \<open>\<open>None\<close> is a failed insertion, otherwise whether the inode was already there.\<close>

definition inode_set_insert :: "walk_env \<Rightarrow> u64 \<times> u64 \<Rightarrow> walk_state \<Rightarrow> bool option \<times> walk_state" where
  "inode_set_insert env inode st =
    (if inode \<in> set (visited st) then (Some True, st)
     else if \<not> env_insert_ok env (length (visited st)) then (None, st)
     else (Some False, st\<lparr>visited := visited st @ [inode]\<rparr>))"

text \<open>The callee \<open>walk\<close> is the walk of a directory, given its descriptor, path and path length.\<close>

type_synonym dir_walk = "nat \<Rightarrow> string \<Rightarrow> nat \<Rightarrow> walk_state \<Rightarrow> (bool \<times> walk_state) option"

definition is_pseudo :: "walk_env \<Rightarrow> string \<Rightarrow> bool" where
  "is_pseudo env path =
    (case path_is_pseudo_filesystem (fs_statfs (env_fs env)) path of (ok, pseudo) \<Rightarrow> ok \<and> pseudo)"

definition walk_descend_child ::
  "walk_env \<Rightarrow> dir_walk \<Rightarrow> nat \<Rightarrow> string \<Rightarrow> string \<Rightarrow> walk_state \<Rightarrow> (bool \<times> walk_state) option" where
  "walk_descend_child env walk parent_fd child_name child_path st =
    (case fs_statat (env_fs env) parent_fd (walk_follow (env_options env)) child_name of
       Inl err \<Rightarrow> Some (False, collect_error child_path ''stat'' err st)
     | Inr sb \<Rightarrow>
         if walk_one_fs (env_options env) \<and> root_device st \<noteq> None \<and> st_dev sb \<noteq> the (root_device st) then Some (True, st)
         else
           (case inode_set_insert env (st_dev sb, st_ino sb) st of
              (None, st1) \<Rightarrow> Some (False, collect_error child_path ''dedup'' ENOMEM st1)
            | (Some True, st1) \<Rightarrow> Some (True, st1)
            | (Some False, st1) \<Rightarrow>
                if is_pseudo env child_path then Some (True, st1)
                else
                  (case fs_openat_dir (env_fs env) parent_fd (walk_follow (env_options env)) child_name of
                     Inl err \<Rightarrow> Some (False, collect_error child_path ''open'' err st1)
                   | Inr fd \<Rightarrow> walk fd child_path (length child_path) st1)))"

definition walk_handle_entry ::
  "walk_env \<Rightarrow> dir_walk \<Rightarrow> nat \<Rightarrow> string \<Rightarrow> nat \<Rightarrow> string \<Rightarrow> walk_state \<Rightarrow> (bool \<times> walk_state) option" where
  "walk_handle_entry env walk fd path path_length name st =
    (if \<not> walk_hidden (env_options env) \<and> take 1 name = ''.'' then Some (True, st)
     else
       (case fs_join (env_fs env) (take path_length path) name of
          None \<Rightarrow> Some (False, collect_error path ''path-too-long'' ENAMETOOLONG st)
        | Some child_path \<Rightarrow>
            (case fs_statat (env_fs env) fd (walk_follow (env_options env)) name of
               Inl err \<Rightarrow> Some (True, collect_error child_path ''stat'' err st)
             | Inr sb \<Rightarrow>
                 (case st_kind sb of
                    Regular \<Rightarrow>
                      if \<not> filter_accepts_file (env_fnmatch env) (env_filter env) name then Some (True, st)
                      else Some (True, snd (walk_append_entry env child_path (st_size sb) (st_dev sb) (st_ino sb) st))
                  | Directory \<Rightarrow>
                      if \<not> filter_accepts_directory (env_fnmatch env) (env_filter env) name then Some (True, st)
                      else map_option (\<lambda>(_, st'). (True, st')) (walk_descend_child env walk fd name child_path st)
                  | _ \<Rightarrow> Some (True, st)))))"

text \<open>The loop over the names; the flag says whether it ran to the end of the stream.\<close>

fun walk_names ::
  "walk_env \<Rightarrow> dir_walk \<Rightarrow> nat \<Rightarrow> string \<Rightarrow> nat \<Rightarrow> string list \<Rightarrow> walk_state \<Rightarrow> (bool \<times> walk_state) option" where
  "walk_names env walk fd path path_length [] st = Some (True, st)"
| "walk_names env walk fd path path_length (name # names) st =
    (case walk_should_stop env st of (stop, st1) \<Rightarrow>
       if stop then Some (False, st1)
       else if name = ''.'' \<or> name = ''..'' then walk_names env walk fd path path_length names st1
       else
         (case walk_handle_entry env walk fd path path_length name st1 of
            None \<Rightarrow> None
          | Some (_, st2) \<Rightarrow> walk_names env walk fd path path_length names st2))"

primrec walk_directory :: "nat \<Rightarrow> walk_env \<Rightarrow> dir_walk" where
  "walk_directory 0 env = (\<lambda>fd path path_length st. None)"
| "walk_directory (Suc fuel) env = (\<lambda>fd path path_length st.
    case fs_dup (env_fs env) fd of
      Some err \<Rightarrow> Some (False, collect_error path ''dup'' err st)
    | None \<Rightarrow>
        (case fs_fdopendir (env_fs env) fd of
           Some err \<Rightarrow> Some (False, collect_error path ''fdopendir'' err st)
         | None \<Rightarrow>
             (case fs_readdir (env_fs env) fd of (names, final_errno) \<Rightarrow>
                map_option
                  (\<lambda>(ended, st'). (True, if ended \<and> final_errno \<noteq> 0 then collect_error path ''readdir'' final_errno st' else st'))
                  (walk_names env (walk_directory fuel env) fd path path_length names st))))"

section \<open>Inputs\<close>

text \<open>The length of a path without its trailing slashes, at least one.\<close>

fun trimmed_length :: "string \<Rightarrow> nat \<Rightarrow> nat" where
  "trimmed_length path 0 = 0"
| "trimmed_length path (Suc n) = (if Suc n > 1 \<and> path ! n = CHR ''/'' then trimmed_length path n else Suc n)"

definition walk_process_input_path :: "nat \<Rightarrow> walk_env \<Rightarrow> string \<Rightarrow> walk_state \<Rightarrow> (bool \<times> walk_state) option" where
  "walk_process_input_path fuel env input_path st =
    (case fs_stat (env_fs env) (walk_follow (env_options env)) input_path of
       Inl err \<Rightarrow> Some (False, collect_error input_path ''stat'' err st)
     | Inr sb \<Rightarrow>
         (case st_kind sb of
            Symlink \<Rightarrow> Some (False, collect_error input_path ''skip-symlink'' ELOOP st)
          | Regular \<Rightarrow> Some (walk_append_entry env input_path (st_size sb) (st_dev sb) (st_ino sb) st)
          | Directory \<Rightarrow>
              if is_pseudo env input_path then Some (True, st)
              else
                (let st1 = (if root_device st = None then st\<lparr>root_device := Some (st_dev sb)\<rparr> else st) in
                 case inode_set_insert env (st_dev sb, st_ino sb) st1 of
                   (None, st2) \<Rightarrow> Some (False, collect_error input_path ''dedup'' ENOMEM st2)
                 | (Some True, st2) \<Rightarrow> Some (True, st2)
                 | (Some False, st2) \<Rightarrow>
                     (case fs_open_dir (env_fs env) (walk_follow (env_options env)) input_path of
                        Inl err \<Rightarrow> Some (False, collect_error input_path ''open'' err st2)
                      | Inr fd \<Rightarrow> walk_directory fuel env fd input_path (trimmed_length input_path (length input_path)) st2))
          | Special \<Rightarrow> Some (False, collect_error input_path ''skip-other'' EINVAL st)))"

fun expand_matches ::
  "nat \<Rightarrow> walk_env \<Rightarrow> string \<Rightarrow> nat \<Rightarrow> string list \<Rightarrow> bool \<Rightarrow> walk_state \<Rightarrow> (bool \<times> walk_state) option" where
  "expand_matches fuel env pattern path_count [] any_match st = Some (any_match, st)"
| "expand_matches fuel env pattern path_count (matched_path # rest) any_match st =
    (if matched_path = pattern \<and> glob_contains_metacharacter pattern \<and> path_count = 1
     then Some (any_match, collect_error pattern ''glob-no-match'' ENOENT st)
     else
       (case walk_process_input_path fuel env matched_path st of
          None \<Rightarrow> None
        | Some (_, st') \<Rightarrow> expand_matches fuel env pattern path_count rest True st'))"

definition walk_expand_glob :: "nat \<Rightarrow> walk_env \<Rightarrow> string \<Rightarrow> walk_state \<Rightarrow> (bool \<times> walk_state) option" where
  "walk_expand_glob fuel env pattern st =
    (case fs_glob (env_fs env) pattern of
       None \<Rightarrow> Some (False, collect_error pattern ''glob'' EINVAL st)
     | Some paths \<Rightarrow> expand_matches fuel env pattern (length paths) paths False st)"

fun expand_inputs :: "nat \<Rightarrow> walk_env \<Rightarrow> string list \<Rightarrow> walk_state \<Rightarrow> walk_state option" where
  "expand_inputs fuel env [] st = Some st"
| "expand_inputs fuel env (input_path # rest) st =
    (case walk_should_stop env st of (stop, st1) \<Rightarrow>
       if stop then Some st1
       else
         (case (if glob_contains_metacharacter input_path then walk_expand_glob fuel env input_path st1
                else walk_process_input_path fuel env input_path st1) of
            None \<Rightarrow> None
          | Some (_, st2) \<Rightarrow> expand_inputs fuel env rest st2))"

definition start_state :: "pool \<Rightarrow> walk_state" where
  "start_state m = \<lparr>walk_memory = m, found = [], path_blocks = [], walk_errors = [], visited = [], root_device = None, polls = 0\<rparr>"

text \<open>
  The entries vector, like the collected errors, starts empty. The outer option is not
  returning, the boolean the result of the C function.
\<close>

definition discovery_expand :: "nat \<Rightarrow> walk_env \<Rightarrow> bool \<Rightarrow> pool \<Rightarrow> string list \<Rightarrow> (bool \<times> walk_state) option" where
  "discovery_expand fuel env set_created m input_paths =
    (if \<not> set_created then Some (False, start_state m)
     else map_option (\<lambda>st. (True, st)) (expand_inputs fuel env input_paths (start_state m)))"

section \<open>Reachable directories and discoverable files\<close>

text \<open>A name of an open directory that the walk looks at, with its path and its status.\<close>

definition listed :: "walk_env \<Rightarrow> nat \<Rightarrow> string \<Rightarrow> nat \<Rightarrow> string \<Rightarrow> string \<Rightarrow> stat_buf \<Rightarrow> bool" where
  "listed env fd path path_length name child_path sb \<longleftrightarrow>
    name \<in> set (fst (fs_readdir (env_fs env) fd)) \<and> name \<noteq> ''.'' \<and> name \<noteq> ''..'' \<and>
    (walk_hidden (env_options env) \<or> take 1 name \<noteq> ''.'') \<and>
    fs_join (env_fs env) (take path_length path) name = Some child_path \<and>
    fs_statat (env_fs env) fd (walk_follow (env_options env)) name = Inr sb"

inductive reachable :: "walk_env \<Rightarrow> string set \<Rightarrow> nat \<Rightarrow> string \<Rightarrow> nat \<Rightarrow> bool" for env inputs where
  reachable_input: "p \<in> inputs \<Longrightarrow> fs_stat (env_fs env) (walk_follow (env_options env)) p = Inr sb \<Longrightarrow>
    st_kind sb = Directory \<Longrightarrow> \<not> is_pseudo env p \<Longrightarrow> fs_open_dir (env_fs env) (walk_follow (env_options env)) p = Inr fd \<Longrightarrow>
    reachable env inputs fd p (trimmed_length p (length p))"
| reachable_child: "reachable env inputs fd path n \<Longrightarrow> listed env fd path n name child_path sb \<Longrightarrow>
    st_kind sb = Directory \<Longrightarrow> filter_accepts_directory (env_fnmatch env) (env_filter env) name \<Longrightarrow> \<not> is_pseudo env child_path \<Longrightarrow>
    fs_openat_dir (env_fs env) fd (walk_follow (env_options env)) name = Inr fd' \<Longrightarrow>
    reachable env inputs fd' child_path (length child_path)"

inductive discoverable :: "walk_env \<Rightarrow> string set \<Rightarrow> file_entry \<Rightarrow> bool" for env inputs where
  discoverable_input: "p \<in> inputs \<Longrightarrow> fs_stat (env_fs env) (walk_follow (env_options env)) p = Inr sb \<Longrightarrow>
    st_kind sb = Regular \<Longrightarrow> discoverable env inputs (new_entry p (st_size sb) (st_dev sb) (st_ino sb))"
| discoverable_member: "reachable env inputs fd path n \<Longrightarrow> listed env fd path n name child_path sb \<Longrightarrow>
    st_kind sb = Regular \<Longrightarrow> filter_accepts_file (env_fnmatch env) (env_filter env) name \<Longrightarrow>
    discoverable env inputs (new_entry child_path (st_size sb) (st_dev sb) (st_ino sb))"

section \<open>Invariants of the walk\<close>

text \<open>
  A predicate on the state that the elementary steps keep is kept by the whole walk. The
  locale states what the steps must keep; \<open>dir_ok\<close> is what is known of an open directory.
\<close>

locale walk_invariant =
  fixes env :: walk_env
    and inputs :: "string set"
    and holds_in :: "walk_state \<Rightarrow> bool"
  assumes keep_error: "holds_in st \<Longrightarrow> holds_in (collect_error p stage err st)"
    and keep_poll: "holds_in st \<Longrightarrow> holds_in (st\<lparr>polls := n\<rparr>)"
    and keep_root: "holds_in st \<Longrightarrow> holds_in (st\<lparr>root_device := d\<rparr>)"
    and keep_insert: "holds_in st \<Longrightarrow> holds_in (snd (inode_set_insert env inode st))"
    and keep_append: "holds_in st \<Longrightarrow> discoverable env inputs (new_entry p sz dev ino) \<Longrightarrow>
      holds_in (snd (walk_append_entry env p sz dev ino st))"
begin

definition keeps :: "dir_walk \<Rightarrow> bool" where
  "keeps walk \<longleftrightarrow> (\<forall>fd path n st r st'. reachable env inputs fd path n \<longrightarrow> holds_in st \<longrightarrow>
    walk fd path n st = Some (r, st') \<longrightarrow> holds_in st')"

lemma keep_insert': "inode_set_insert env inode st = (res, st') \<Longrightarrow> holds_in st \<Longrightarrow> holds_in st'"
  using keep_insert [of st inode] by simp

lemma descend_child_keeps:
  assumes walk: "keeps walk" and reach: "reachable env inputs fd path n" and listed: "listed env fd path n name child_path sb"
    and dir: "st_kind sb = Directory" "filter_accepts_directory (env_fnmatch env) (env_filter env) name"
    and inv: "holds_in st" and run: "walk_descend_child env walk fd name child_path st = Some (r, st')"
  shows "holds_in st'"
proof (cases "walk_one_fs (env_options env) \<and> root_device st \<noteq> None \<and> st_dev sb \<noteq> the (root_device st)")
  case True
  then show ?thesis using run listed inv by (simp add: walk_descend_child_def listed_def)
next
  case False
  obtain answer st1 where insert: "inode_set_insert env (st_dev sb, st_ino sb) st = (answer, st1)"
    by (cases "inode_set_insert env (st_dev sb, st_ino sb) st")
  have inv1: "holds_in st1" using keep_insert' [OF insert inv] .
  have sb: "fs_statat (env_fs env) fd (walk_follow (env_options env)) name = Inr sb" using listed by (simp add: listed_def)
  show ?thesis
  proof (cases "answer = Some False \<and> \<not> is_pseudo env child_path")
    case go: True
    show ?thesis
    proof (cases "fs_openat_dir (env_fs env) fd (walk_follow (env_options env)) name")
      case (Inl err)
      then show ?thesis using run insert go sb False inv1 keep_error by (auto simp: walk_descend_child_def)
    next
      case (Inr fd')
      then have "reachable env inputs fd' child_path (length child_path)"
        using reachable_child [OF reach listed dir] go by blast
      moreover have "walk fd' child_path (length child_path) st1 = Some (r, st')"
        using run insert go sb False Inr by (auto simp: walk_descend_child_def)
      ultimately show ?thesis using walk inv1 unfolding keeps_def by blast
    qed
  next
    case no: False
    then show ?thesis using run insert sb False inv1 keep_error
      by (auto simp: walk_descend_child_def split: option.splits bool.splits if_splits)
  qed
qed

lemma handle_entry_keeps:
  assumes walk: "keeps walk" and reach: "reachable env inputs fd path n"
    and name: "name \<in> set (fst (fs_readdir (env_fs env) fd))" "name \<noteq> ''.''" "name \<noteq> ''..''"
    and inv: "holds_in st" and run: "walk_handle_entry env walk fd path n name st = Some (r, st')"
  shows "holds_in st'"
proof (cases "\<not> walk_hidden (env_options env) \<and> take 1 name = ''.''")
  case True
  then show ?thesis using run inv by (simp add: walk_handle_entry_def)
next
  case visible: False
  show ?thesis
  proof (cases "fs_join (env_fs env) (take n path) name")
    case None
    then show ?thesis using run visible inv keep_error by (auto simp: walk_handle_entry_def)
  next
    case (Some child_path)
    show ?thesis
    proof (cases "fs_statat (env_fs env) fd (walk_follow (env_options env)) name")
      case (Inl err)
      then show ?thesis using run visible Some inv keep_error by (auto simp: walk_handle_entry_def)
    next
      case (Inr sb)
      have listed: "listed env fd path n name child_path sb"
        using name visible Some Inr by (auto simp: listed_def)
      show ?thesis
      proof (cases "st_kind sb")
        case Regular
        then show ?thesis
          using run visible Some Inr inv keep_append discoverable_member [OF reach listed]
          by (auto simp: walk_handle_entry_def split: if_splits)
      next
        case Directory
        then show ?thesis
          using run visible Some Inr inv descend_child_keeps [OF walk reach listed]
          by (auto simp: walk_handle_entry_def split: if_splits)
      qed (use run visible Some Inr inv in \<open>auto simp: walk_handle_entry_def\<close>)
    qed
  qed
qed

lemma walk_names_keeps:
  assumes walk: "keeps walk" and reach: "reachable env inputs fd path n"
    and "set names \<subseteq> set (fst (fs_readdir (env_fs env) fd))" and "holds_in st"
    and "walk_names env walk fd path n names st = Some (r, st')"
  shows "holds_in st'"
  using assms(3-5)
proof (induction names arbitrary: st)
  case (Cons name names)
  let ?st1 = "st\<lparr>polls := Suc (polls st)\<rparr>"
  have inv1: "holds_in ?st1" using Cons.prems(2) keep_poll by blast
  show ?case
  proof (cases "env_stop env (polls st)")
    case True
    then show ?thesis using Cons.prems inv1 by (auto simp: walk_should_stop_def)
  next
    case False
    show ?thesis
    proof (cases "name = ''.'' \<or> name = ''..''")
      case True
      then show ?thesis using Cons False inv1 by (auto simp: walk_should_stop_def)
    next
      case no: False
      then obtain r2 st2 where handle: "walk_handle_entry env walk fd path n name ?st1 = Some (r2, st2)"
        and rest: "walk_names env walk fd path n names st2 = Some (r, st')"
        using Cons.prems(3) False by (auto simp: walk_should_stop_def split: option.splits)
      have "holds_in st2" using handle_entry_keeps [OF walk reach _ _ _ inv1 handle] Cons.prems(1) no by auto
      then show ?thesis using Cons.IH rest Cons.prems(1) by simp
    qed
  qed
qed simp

lemma walk_directory_keeps: "keeps (walk_directory fuel env)"
proof (induction fuel)
  case 0
  show ?case by (simp add: keeps_def)
next
  case (Suc fuel)
  show ?case unfolding keeps_def
  proof (intro allI impI)
    fix fd path n st r st'
    assume reach: "reachable env inputs fd path n" and inv: "holds_in st"
      and run: "walk_directory (Suc fuel) env fd path n st = Some (r, st')"
    obtain names final where dir: "fs_readdir (env_fs env) fd = (names, final)" by (cases "fs_readdir (env_fs env) fd")
    show "holds_in st'"
    proof (cases "fs_dup (env_fs env) fd = None \<and> fs_fdopendir (env_fs env) fd = None")
      case True
      then obtain ended st1 where names: "walk_names env (walk_directory fuel env) fd path n names st = Some (ended, st1)"
        and st': "st' = (if ended \<and> final \<noteq> 0 then collect_error path ''readdir'' final st1 else st1)"
        using run dir by auto
      have "holds_in st1" using walk_names_keeps [OF Suc.IH reach _ inv names] dir by simp
      then show ?thesis using st' keep_error by simp
    next
      case False
      then show ?thesis using run inv keep_error by (auto split: option.splits)
    qed
  qed
qed

lemma process_input_keeps:
  assumes "p \<in> inputs" and inv: "holds_in st" and run: "walk_process_input_path fuel env p st = Some (r, st')"
  shows "holds_in st'"
proof (cases "fs_stat (env_fs env) (walk_follow (env_options env)) p")
  case (Inl err)
  then show ?thesis using run inv keep_error by (auto simp: walk_process_input_path_def)
next
  case (Inr sb)
  show ?thesis
  proof (cases "st_kind sb")
    case Regular
    then have "st' = snd (walk_append_entry env p (st_size sb) (st_dev sb) (st_ino sb) st)"
      using run Inr by (auto simp: walk_process_input_path_def)
    then show ?thesis using keep_append [OF inv] discoverable_input [OF assms(1) Inr Regular] by simp
  next
    case Directory
    define st1 where "st1 = (if root_device st = None then st\<lparr>root_device := Some (st_dev sb)\<rparr> else st)"
    have inv1: "holds_in st1" using inv keep_root by (simp add: st1_def)
    obtain answer st2 where insert: "inode_set_insert env (st_dev sb, st_ino sb) st1 = (answer, st2)"
      by (cases "inode_set_insert env (st_dev sb, st_ino sb) st1")
    have inv2: "holds_in st2" using keep_insert' [OF insert inv1] .
    show ?thesis
    proof (cases "\<not> is_pseudo env p \<and> answer = Some False")
      case True
      show ?thesis
      proof (cases "fs_open_dir (env_fs env) (walk_follow (env_options env)) p")
        case (Inl err)
        then show ?thesis using run Inr Directory True insert inv2 keep_error
          by (auto simp: walk_process_input_path_def Let_def st1_def [symmetric])
      next
        case opened: (Inr fd)
        have "reachable env inputs fd p (trimmed_length p (length p))"
          using reachable_input [OF assms(1) Inr Directory] True opened by blast
        moreover have "walk_directory fuel env fd p (trimmed_length p (length p)) st2 = Some (r, st')"
          using run Inr Directory True insert opened by (auto simp: walk_process_input_path_def Let_def st1_def [symmetric])
        ultimately show ?thesis using walk_directory_keeps inv2 unfolding keeps_def by blast
      qed
    next
      case False
      then show ?thesis using run Inr Directory insert inv inv2 keep_error
        by (auto simp: walk_process_input_path_def Let_def st1_def [symmetric] split: option.splits bool.splits if_splits)
    qed
  qed (use run Inr inv keep_error in \<open>auto simp: walk_process_input_path_def\<close>)
qed

lemma expand_matches_keeps:
  "set paths \<subseteq> inputs \<Longrightarrow> holds_in st \<Longrightarrow> expand_matches fuel env pattern k paths any st = Some (r, st') \<Longrightarrow> holds_in st'"
proof (induction paths arbitrary: any st)
  case (Cons p paths)
  show ?case
  proof (cases "p = pattern \<and> glob_contains_metacharacter pattern \<and> k = 1")
    case True
    then show ?thesis using Cons.prems keep_error by auto
  next
    case False
    then obtain r1 st1 where one: "walk_process_input_path fuel env p st = Some (r1, st1)"
      and rest: "expand_matches fuel env pattern k paths True st1 = Some (r, st')"
      using Cons.prems(3) by (auto split: option.splits)
    have "holds_in st1" using process_input_keeps [OF _ Cons.prems(2) one] Cons.prems(1) by simp
    then show ?thesis using Cons.IH rest Cons.prems(1) by simp
  qed
qed simp

lemma expand_inputs_keeps:
  assumes "\<forall>p \<in> set ps. p \<in> inputs \<and> (\<forall>paths. fs_glob (env_fs env) p = Some paths \<longrightarrow> set paths \<subseteq> inputs)"
    and "holds_in st" and "expand_inputs fuel env ps st = Some st'"
  shows "holds_in st'"
  using assms
proof (induction ps arbitrary: st)
  case (Cons p ps)
  let ?st1 = "st\<lparr>polls := Suc (polls st)\<rparr>"
  have inv1: "holds_in ?st1" using Cons.prems(2) keep_poll by blast
  show ?case
  proof (cases "env_stop env (polls st)")
    case True
    then show ?thesis using Cons.prems inv1 by (auto simp: walk_should_stop_def)
  next
    case False
    then obtain r2 st2 where one: "(if glob_contains_metacharacter p then walk_expand_glob fuel env p ?st1
          else walk_process_input_path fuel env p ?st1) = Some (r2, st2)"
      and rest: "expand_inputs fuel env ps st2 = Some st'"
      using Cons.prems(3) by (auto simp: walk_should_stop_def split: option.splits)
    have "holds_in st2"
    proof (cases "glob_contains_metacharacter p")
      case True
      then show ?thesis using one Cons.prems(1) inv1 keep_error expand_matches_keeps
        by (cases "fs_glob (env_fs env) p") (auto simp: walk_expand_glob_def)
    next
      case False
      then have "walk_process_input_path fuel env p ?st1 = Some (r2, st2)" using one by simp
      from process_input_keeps [OF _ inv1 this] show ?thesis using Cons.prems(1) by simp
    qed
    then show ?thesis using Cons.IH rest Cons.prems(1) by simp
  qed
qed simp

end

section \<open>Enough fuel\<close>

text \<open>
  The recursion enters a directory only after its inode was new to the set. With finitely
  many directory inodes, as many units of fuel as inodes not yet visited, and one more, let
  the walk return.
\<close>

definition directory_inodes :: "walk_env \<Rightarrow> (u64 \<times> u64) set" where
  "directory_inodes env = {(st_dev sb, st_ino sb) | fd follow name sb.
    fs_statat (env_fs env) fd follow name = Inr sb \<and> st_kind sb = Directory}"

definition returns :: "walk_env \<Rightarrow> nat \<Rightarrow> dir_walk \<Rightarrow> bool" where
  "returns env bound walk \<longleftrightarrow> (\<forall>fd path n st. card (directory_inodes env - set (visited st)) < bound \<longrightarrow>
    (\<exists>r st'. walk fd path n st = Some (r, st') \<and> set (visited st) \<subseteq> set (visited st')))"

lemma some_bool [simp]: "\<exists>r. r" "\<exists>r. \<not> r"
  by blast+

lemma visited_collect_error [simp]: "visited (collect_error p stage err st) = visited st"
  by (simp add: collect_error_def)

lemma visited_append [simp]: "visited (snd (walk_append_entry env p sz dev ino st)) = visited st"
  by (simp add: walk_append_entry_def collect_error_def split: prod.split option.split)

lemma handle_entry_returns:
  assumes fin: "finite (directory_inodes env)" and walk: "returns env bound walk"
    and room: "card (directory_inodes env - set (visited st)) \<le> bound"
  shows "\<exists>r st'. walk_handle_entry env walk fd path n name st = Some (r, st') \<and> set (visited st) \<subseteq> set (visited st')"
proof -
  have descend: "\<exists>r st'. walk_descend_child env walk fd name cp st = Some (r, st') \<and> set (visited st) \<subseteq> set (visited st')"
    if sb: "fs_statat (env_fs env) fd (walk_follow (env_options env)) name = Inr sb" "st_kind sb = Directory" for cp sb
  proof -
    let ?inode = "(st_dev sb, st_ino sb)"
    have dir: "?inode \<in> directory_inodes env" using sb unfolding directory_inodes_def by blast
    show ?thesis
    proof (cases "?inode \<in> set (visited st)")
      case True
      then show ?thesis using sb by (simp add: walk_descend_child_def inode_set_insert_def)
    next
      case new: False
      let ?st1 = "st\<lparr>visited := visited st @ [?inode]\<rparr>"
      have "directory_inodes env - set (visited ?st1) = (directory_inodes env - set (visited st)) - {?inode}" by auto
      then have "card (directory_inodes env - set (visited ?st1)) < card (directory_inodes env - set (visited st))"
        using dir new fin by (metis DiffI card_Diff1_less finite_Diff)
      then have "card (directory_inodes env - set (visited ?st1)) < bound" using room by simp
      then have go: "\<exists>r st'. walk fd' cp (length cp) ?st1 = Some (r, st') \<and> set (visited ?st1) \<subseteq> set (visited st')" for fd'
        using walk unfolding returns_def by blast
      then have go: "\<exists>r st'. walk fd' cp (length cp) ?st1 = Some (r, st') \<and> set (visited st) \<subseteq> set (visited st')" for fd'
        by fastforce
      show ?thesis using sb new go
        by (auto simp: walk_descend_child_def inode_set_insert_def split: sum.split)
    qed
  qed
  show ?thesis
  proof (cases "\<not> walk_hidden (env_options env) \<and> take 1 name = ''.''")
    case True
    then show ?thesis by (simp add: walk_handle_entry_def)
  next
    case visible: False
    show ?thesis
    proof (cases "fs_join (env_fs env) (take n path) name")
      case None
      then show ?thesis using visible by (auto simp: walk_handle_entry_def)
    next
      case (Some cp)
      show ?thesis
      proof (cases "fs_statat (env_fs env) fd (walk_follow (env_options env)) name")
        case (Inl err)
        then show ?thesis using visible Some by (auto simp: walk_handle_entry_def)
      next
        case (Inr sb)
        show ?thesis
        proof (cases "st_kind sb")
          case Directory
          obtain r st' where "walk_descend_child env walk fd name cp st = Some (r, st')" "set (visited st) \<subseteq> set (visited st')"
            using descend [OF Inr Directory] by blast
          then show ?thesis using visible Some Inr Directory by (auto simp: walk_handle_entry_def)
        qed (use visible Some Inr in \<open>auto simp: walk_handle_entry_def\<close>)
      qed
    qed
  qed
qed

lemma walk_names_returns:
  assumes fin: "finite (directory_inodes env)" and walk: "returns env bound walk"
    and "card (directory_inodes env - set (visited st)) \<le> bound"
  shows "\<exists>r st'. walk_names env walk fd path n names st = Some (r, st') \<and> set (visited st) \<subseteq> set (visited st')"
  using assms(3)
proof (induction names arbitrary: st)
  case (Cons name names)
  let ?st1 = "st\<lparr>polls := Suc (polls st)\<rparr>"
  show ?case
  proof (cases "env_stop env (polls st)")
    case True
    then show ?thesis by (simp add: walk_should_stop_def)
  next
    case False
    show ?thesis
    proof (cases "name = ''.'' \<or> name = ''..''")
      case True
      then show ?thesis using False Cons.IH [of ?st1] Cons.prems by (auto simp: walk_should_stop_def)
    next
      case no: False
      have "card (directory_inodes env - set (visited ?st1)) \<le> bound" using Cons.prems by simp
      from handle_entry_returns [OF fin walk this]
      obtain r2 st2 where handle: "walk_handle_entry env walk fd path n name ?st1 = Some (r2, st2)"
        and grow: "set (visited ?st1) \<subseteq> set (visited st2)" by blast
      have "card (directory_inodes env - set (visited st2)) \<le> card (directory_inodes env - set (visited st))"
        using grow fin by (intro card_mono) auto
      then have "card (directory_inodes env - set (visited st2)) \<le> bound" using Cons.prems by simp
      from Cons.IH [OF this] show ?thesis
        using False no handle grow by (fastforce simp: walk_should_stop_def)
    qed
  qed
qed simp

lemma walk_directory_returns:
  assumes "finite (directory_inodes env)"
  shows "returns env fuel (walk_directory fuel env)"
proof (induction fuel)
  case 0
  show ?case by (simp add: returns_def)
next
  case (Suc fuel)
  show ?case unfolding returns_def
  proof (intro allI impI)
    fix fd path n and st :: walk_state
    assume "card (directory_inodes env - set (visited st)) < Suc fuel"
    then have "card (directory_inodes env - set (visited st)) \<le> fuel" by simp
    from walk_names_returns [OF assms Suc.IH this]
    have names: "\<exists>r st'. walk_names env (walk_directory fuel env) fd path n names st = Some (r, st') \<and>
      set (visited st) \<subseteq> set (visited st')" for names by blast
    show "\<exists>r st'. walk_directory (Suc fuel) env fd path n st = Some (r, st') \<and> set (visited st) \<subseteq> set (visited st')"
    proof (cases "fs_dup (env_fs env) fd = None \<and> fs_fdopendir (env_fs env) fd = None")
      case True
      obtain entries final where dir: "fs_readdir (env_fs env) fd = (entries, final)" by (cases "fs_readdir (env_fs env) fd")
      obtain ended st1 where run: "walk_names env (walk_directory fuel env) fd path n entries st = Some (ended, st1)"
        and grow: "set (visited st) \<subseteq> set (visited st1)" using names [of entries] by blast
      show ?thesis using True dir run grow by (cases "ended \<and> final \<noteq> 0") auto
    next
      case False
      then show ?thesis by (auto split: option.split)
    qed
  qed
qed

lemma process_input_returns:
  assumes "finite (directory_inodes env)" and "card (directory_inodes env) < fuel"
  shows "\<exists>r st'. walk_process_input_path fuel env p st = Some (r, st')"
proof -
  have "\<exists>r st'. walk_directory fuel env fd path n st1 = Some (r, st')" for fd path n st1
  proof -
    have "card (directory_inodes env - set (visited st1)) \<le> card (directory_inodes env)"
      using assms(1) by (intro card_mono) auto
    then show ?thesis using walk_directory_returns [OF assms(1), of fuel] assms(2) unfolding returns_def
      by (meson le_less_trans)
  qed
  then show ?thesis
    by (simp add: walk_process_input_path_def Let_def split: sum.split file_kind.split option.split prod.split bool.split)
qed

lemma expand_matches_returns:
  assumes "finite (directory_inodes env)" and "card (directory_inodes env) < fuel"
  shows "\<exists>r st'. expand_matches fuel env pattern k paths any st = Some (r, st')"
proof (induction paths arbitrary: any st)
  case (Cons p paths)
  obtain r1 st1 where "walk_process_input_path fuel env p st = Some (r1, st1)"
    using process_input_returns [OF assms] by blast
  then show ?case using Cons.IH by simp
qed simp

lemma expand_inputs_returns:
  assumes "finite (directory_inodes env)" and "card (directory_inodes env) < fuel"
  shows "\<exists>st'. expand_inputs fuel env ps st = Some st'"
proof (induction ps arbitrary: st)
  case (Cons p ps)
  let ?st1 = "st\<lparr>polls := Suc (polls st)\<rparr>"
  obtain r1 st1 where one: "walk_process_input_path fuel env p ?st1 = Some (r1, st1)"
    using process_input_returns [OF assms] by blast
  have "\<exists>r2 st2. walk_expand_glob fuel env p ?st1 = Some (r2, st2)"
    using expand_matches_returns [OF assms] by (simp add: walk_expand_glob_def split: option.split)
  then obtain r2 st2 where two: "walk_expand_glob fuel env p ?st1 = Some (r2, st2)" by blast
  show ?case using Cons.IH one two by (simp add: walk_should_stop_def)
qed simp

section \<open>The invariants of the code's walk\<close>

definition sound_entries :: "walk_env \<Rightarrow> string set \<Rightarrow> walk_state \<Rightarrow> bool" where
  "sound_entries env inputs st \<longleftrightarrow>
    (\<forall>e \<in> set (found st). discoverable env inputs e \<and> walk_minimum (env_options env) \<le> file_size e)"

definition balanced_walk :: "pool \<Rightarrow> walk_state \<Rightarrow> bool" where
  "balanced_walk m st \<longleftrightarrow>
    holds m (mset (path_blocks st)) (walk_memory st) \<and> length (path_blocks st) = length (found st) \<and> distinct (visited st)"

definition gathered :: "file_entry set \<Rightarrow> (u64 \<times> u64) set \<Rightarrow> walk_state \<Rightarrow> bool" where
  "gathered es is st \<longleftrightarrow> es \<subseteq> set (found st) \<and> is \<subseteq> set (visited st) \<and> grants (walk_memory st) = (\<lambda>_. True)"

interpretation sound_walk: walk_invariant env inputs "sound_entries env inputs" for env inputs
proof
  fix st p sz dev ino
  assume "sound_entries env inputs st" and "discoverable env inputs (new_entry p sz dev ino)"
  then show "sound_entries env inputs (snd (walk_append_entry env p sz dev ino st))"
    by (auto simp: sound_entries_def walk_append_entry_def collect_error_def new_entry_def split: prod.splits option.splits)
qed (auto simp: sound_entries_def collect_error_def inode_set_insert_def)

interpretation pool_walk: walk_invariant env inputs "balanced_walk m" for env inputs m
proof
  fix st p sz dev ino
  assume "balanced_walk m st"
  then show "balanced_walk m (snd (walk_append_entry env p sz dev ino st))"
    by (auto simp: balanced_walk_def walk_append_entry_def collect_error_def
        split: prod.splits option.splits dest: holds_allocate intro: pool_free_holds)
qed (auto simp: balanced_walk_def collect_error_def inode_set_insert_def)

interpretation growing_walk: walk_invariant env inputs "gathered es is" for env inputs es "is"
proof
  fix st p sz dev ino
  assume "gathered es is st"
  moreover from this obtain b m where "pool_allocate (walk_memory st) = (Some b, m)" "grants m = (\<lambda>_. True)"
    using pool_allocate_granted [of "walk_memory st"] by (auto simp: gathered_def)
  ultimately show "gathered es is (snd (walk_append_entry env p sz dev ino st))"
    by (auto simp: gathered_def walk_append_entry_def collect_error_def)
qed (auto simp: gathered_def collect_error_def inode_set_insert_def)

section \<open>One directory, completely\<close>

text \<open>An environment in which nothing but the file system itself can fail.\<close>

definition untroubled :: "walk_env \<Rightarrow> bool" where
  "untroubled env \<longleftrightarrow> (\<forall>k. \<not> env_stop env k \<and> env_push_ok env k \<and> env_insert_ok env k)"

definition wanted_file :: "walk_env \<Rightarrow> string \<Rightarrow> stat_buf \<Rightarrow> bool" where
  "wanted_file env name sb \<longleftrightarrow> st_kind sb = Regular \<and> filter_accepts_file (env_fnmatch env) (env_filter env) name \<and>
    walk_minimum (env_options env) \<le> st_size sb"

definition wanted_directory :: "walk_env \<Rightarrow> string \<Rightarrow> stat_buf \<Rightarrow> bool" where
  "wanted_directory env name sb \<longleftrightarrow> st_kind sb = Directory \<and>
    filter_accepts_directory (env_fnmatch env) (env_filter env) name \<and> \<not> walk_one_fs (env_options env)"

lemma handle_entry_gathers:
  assumes ok: "untroubled env" and walk: "\<And>es is. growing_walk.keeps env inputs es is walk"
    and reach: "reachable env inputs fd path n" and listed: "listed env fd path n name cp sb"
    and grants: "grants (walk_memory st) = (\<lambda>_. True)"
    and run: "walk_handle_entry env walk fd path n name st = Some (r, st')"
  shows "wanted_file env name sb \<Longrightarrow> gathered {new_entry cp (st_size sb) (st_dev sb) (st_ino sb)} {} st'"
    and "wanted_directory env name sb \<Longrightarrow> gathered {} {(st_dev sb, st_ino sb)} st'"
proof -
  have look: "walk_hidden (env_options env) \<or> take 1 name \<noteq> ''.''" "fs_join (env_fs env) (take n path) name = Some cp"
      "fs_statat (env_fs env) fd (walk_follow (env_options env)) name = Inr sb"
    using listed by (auto simp: listed_def)
  show "gathered {new_entry cp (st_size sb) (st_dev sb) (st_ino sb)} {} st'" if regular: "wanted_file env name sb"
  proof -
    obtain b m where alloc: "pool_allocate (walk_memory st) = (Some b, m)" "grants m = (\<lambda>_. True)"
      using pool_allocate_granted [OF grants] grants by auto
    have "st' = snd (walk_append_entry env cp (st_size sb) (st_dev sb) (st_ino sb) st)"
      using run look regular by (auto simp: walk_handle_entry_def wanted_file_def)
    then show ?thesis using ok regular alloc
      by (auto simp: walk_append_entry_def wanted_file_def untroubled_def gathered_def)
  qed
  show "gathered {} {(st_dev sb, st_ino sb)} st'" if dir: "wanted_directory env name sb"
  proof -
    obtain r2 where descend: "walk_descend_child env walk fd name cp st = Some (r2, st')"
      using run look dir by (auto simp: walk_handle_entry_def wanted_directory_def)
    let ?inode = "(st_dev sb, st_ino sb)"
    show ?thesis
    proof (cases "?inode \<in> set (visited st)")
      case True
      then show ?thesis using descend dir look grants
        by (auto simp: walk_descend_child_def wanted_directory_def inode_set_insert_def gathered_def)
    next
      case False
      let ?st1 = "st\<lparr>visited := visited st @ [?inode]\<rparr>"
      have got: "gathered {} {?inode} ?st1" using grants by (simp add: gathered_def)
      have insert: "inode_set_insert env ?inode st = (Some False, ?st1)"
        using False ok by (simp add: inode_set_insert_def untroubled_def)
      show ?thesis
      proof (cases "is_pseudo env cp")
        case True
        then show ?thesis using descend dir look insert got by (auto simp: walk_descend_child_def wanted_directory_def)
      next
        case real: False
        show ?thesis
        proof (cases "fs_openat_dir (env_fs env) fd (walk_follow (env_options env)) name")
          case (Inl err)
          then show ?thesis using descend dir look insert got real growing_walk.keep_error
            by (auto simp: walk_descend_child_def wanted_directory_def)
        next
          case (Inr fd')
          then have "reachable env inputs fd' cp (length cp)"
            using reachable_child [OF reach listed] dir real by (auto simp: wanted_directory_def)
          moreover have "walk fd' cp (length cp) ?st1 = Some (r2, st')"
            using descend dir look insert real Inr by (auto simp: walk_descend_child_def wanted_directory_def)
          ultimately show ?thesis using walk [of "{}" "{?inode}"] got unfolding growing_walk.keeps_def by blast
        qed
      qed
    qed
  qed
qed

lemma walk_names_gathers:
  assumes ok: "untroubled env" and walk: "\<And>es is. growing_walk.keeps env inputs es is walk"
    and reach: "reachable env inputs fd path n"
    and "set names \<subseteq> set (fst (fs_readdir (env_fs env) fd))" and "grants (walk_memory st) = (\<lambda>_. True)"
    and "walk_names env walk fd path n names st = Some (r, st')"
    and "name \<in> set names" and "listed env fd path n name cp sb"
  shows "(wanted_file env name sb \<longrightarrow> new_entry cp (st_size sb) (st_dev sb) (st_ino sb) \<in> set (found st')) \<and>
    (wanted_directory env name sb \<longrightarrow> (st_dev sb, st_ino sb) \<in> set (visited st'))"
  using assms(4-8)
proof (induction names arbitrary: st)
  case (Cons nm names)
  let ?st1 = "st\<lparr>polls := Suc (polls st)\<rparr>"
  have go: "\<not> env_stop env (polls st)" using ok by (simp add: untroubled_def)
  have grants1: "grants (walk_memory ?st1) = (\<lambda>_. True)" using Cons.prems(2) by simp
  show ?case
  proof (cases "nm = ''.'' \<or> nm = ''..''")
    case True
    then have "name \<in> set names" using Cons.prems(4,5) by (auto simp: listed_def)
    moreover have "walk_names env walk fd path n names ?st1 = Some (r, st')"
      using Cons.prems(3) go True by (auto simp: walk_should_stop_def)
    ultimately show ?thesis using Cons.IH [OF _ grants1] Cons.prems(1,5) by auto
  next
    case False
    then obtain r2 st2 where handle: "walk_handle_entry env walk fd path n nm ?st1 = Some (r2, st2)"
      and rest: "walk_names env walk fd path n names st2 = Some (r, st')"
      using Cons.prems(3) go by (auto simp: walk_should_stop_def split: option.splits)
    have sub: "set names \<subseteq> set (fst (fs_readdir (env_fs env) fd))" using Cons.prems(1) by simp
    have nm: "nm \<in> set (fst (fs_readdir (env_fs env) fd))" "nm \<noteq> ''.''" "nm \<noteq> ''..''" using Cons.prems(1) False by auto
    have "gathered {} {} ?st1" using Cons.prems(2) by (simp add: gathered_def)
    from growing_walk.handle_entry_keeps [OF walk reach nm this handle]
    have grants2: "grants (walk_memory st2) = (\<lambda>_. True)" by (simp add: gathered_def)
    show ?thesis
    proof (cases "name \<in> set names")
      case True
      then show ?thesis using Cons.IH [OF sub grants2 rest _ Cons.prems(5)] by simp
    next
      case no: False
      then have name: "nm = name" using Cons.prems(4) by simp
      note got = handle_entry_gathers [OF ok walk reach Cons.prems(5) grants1 handle [unfolded name]]
      show ?thesis
      proof (intro conjI impI)
        assume "wanted_file env name sb"
        from growing_walk.walk_names_keeps [OF walk reach sub got(1) [OF this] rest]
        show "new_entry cp (st_size sb) (st_dev sb) (st_ino sb) \<in> set (found st')" by (simp add: gathered_def)
      next
        assume "wanted_directory env name sb"
        from growing_walk.walk_names_keeps [OF walk reach sub got(2) [OF this] rest]
        show "(st_dev sb, st_ino sb) \<in> set (visited st')" by (simp add: gathered_def)
      qed
    qed
  qed
qed simp

section \<open>Properties\<close>

definition walk_inputs :: "walk_env \<Rightarrow> string list \<Rightarrow> string set" where
  "walk_inputs env ps = set ps \<union> (\<Union>p \<in> set ps. case fs_glob (env_fs env) p of None \<Rightarrow> {} | Some paths \<Rightarrow> set paths)"

lemma walk_inputs_cover:
  "\<forall>p \<in> set ps. p \<in> walk_inputs env ps \<and> (\<forall>paths. fs_glob (env_fs env) p = Some paths \<longrightarrow> set paths \<subseteq> walk_inputs env ps)"
  by (force simp: walk_inputs_def)

lemma discovered_entries:
  assumes "discovery_expand fuel env set_created m ps = Some (ok, st)" and "e \<in> set (found st)"
  shows "discoverable env (walk_inputs env ps) e \<and> walk_minimum (env_options env) \<le> file_size e"
proof -
  have "sound_entries env (walk_inputs env ps) (start_state m)" by (simp add: sound_entries_def start_state_def)
  then have "sound_entries env (walk_inputs env ps) st"
    using assms(1) sound_walk.expand_inputs_keeps [OF walk_inputs_cover]
    by (auto simp: discovery_expand_def split: if_splits)
  then show ?thesis using assms(2) by (simp add: sound_entries_def)
qed

lemma discovered_fresh:
  assumes "discovery_expand fuel env set_created m ps = Some (ok, st)"
  shows "\<forall>e \<in> set (found st). fresh_entry e"
proof
  fix e assume "e \<in> set (found st)"
  then have "discoverable env (walk_inputs env ps) e" using discovered_entries [OF assms] by blast
  then show "fresh_entry e" by cases simp_all
qed


lemma discovery_expand_balanced:
  assumes "discovery_expand fuel env set_created m ps = Some (ok, st)"
  shows "balanced_walk m st"
proof -
  have "balanced_walk m (start_state m)" by (simp add: balanced_walk_def start_state_def)
  then show ?thesis
    using assms pool_walk.expand_inputs_keeps [OF walk_inputs_cover]
    by (auto simp: discovery_expand_def split: if_splits)
qed



section \<open>Witnesses\<close>

text \<open>A directory with a file of two bytes and a subdirectory that is the directory itself.\<close>

definition sample_fs :: file_system where
  "sample_fs = \<lparr>
    fs_stat = (\<lambda>follow p. if p = ''/d'' then Inr \<lparr>st_kind = Directory, st_size = 0, st_dev = 1, st_ino = 1\<rparr> else Inl ENOENT),
    fs_open_dir = (\<lambda>follow p. Inr 3),
    fs_statat = (\<lambda>fd follow name.
      if name = ''a'' then Inr \<lparr>st_kind = Regular, st_size = 2, st_dev = 1, st_ino = 2\<rparr>
      else if name = ''sub'' then Inr \<lparr>st_kind = Directory, st_size = 0, st_dev = 1, st_ino = 1\<rparr>
      else Inl ENOENT),
    fs_openat_dir = (\<lambda>fd follow name. Inr 3),
    fs_dup = (\<lambda>_. None), fs_fdopendir = (\<lambda>_. None),
    fs_readdir = (\<lambda>fd. ([''.'', ''a'', ''sub''], 0)),
    fs_statfs = (\<lambda>_. None), fs_glob = (\<lambda>_. None),
    fs_join = (\<lambda>path name. Some (path @ ''/'' @ name))\<rparr>"

definition sample_walk :: walk_env where
  "sample_walk = \<lparr>env_fs = sample_fs, env_fnmatch = (=), env_filter = None,
    env_options = \<lparr>walk_hidden = False, walk_follow = True, walk_one_fs = False, walk_minimum = 1\<rparr>,
    env_push_ok = (\<lambda>_. True), env_insert_ok = (\<lambda>_. True), env_stop = (\<lambda>_. False)\<rparr>"

lemmas walk_eval = discovery_expand_def expand_inputs.simps walk_process_input_path_def walk_should_stop_def
  walk_handle_entry_def walk_append_entry_def inode_set_insert_def walk_descend_child_def is_pseudo_def
  path_is_pseudo_filesystem_def glob_contains_metacharacter_def glob_special_def BACKSLASH_def
  filter_accepts_file_def filter_accepts_directory_def start_state_def sample_walk_def sample_fs_def
  pool_allocate_def granting_pool_def fresh_pool_def

lemma sample_walk_found:
  "\<exists>st. discovery_expand 2 sample_walk True granting_pool [''/d''] = Some (True, st) \<and>
    found st = [new_entry ''/d/a'' 2 1 2] \<and> visited st = [(1, 1)]"
  by (simp add: walk_eval Let_def numeral_2_eq_2)

lemma sample_walk_inodes: "directory_inodes sample_walk = {(1, 1)}"
  by (auto simp: directory_inodes_def sample_walk_def sample_fs_def split: if_splits)




end
