(* ===== verification/Discovery_Parallel.thy ===== *)
theory Discovery_Parallel
  imports Discovery_Walk
begin

text \<open>
  \<^verbatim>\<open>src/discovery/bc_duplicate_discovery_walk_parallel.c\<close>: the directories are walked by the base
  library, which calls back for every entry and every error, on any worker. The library's
  walk is a parameter: from a root and the filter to the callbacks it makes, each with the
  worker that makes it. Every worker gathers entries and errors in a slot of its own; the
  slots are merged at the end.
\<close>

section \<open>Definitions\<close>

record io_entry =
  io_kind :: file_kind
  io_path :: string
  io_size :: u64
  io_dev :: u64
  io_ino :: u64

datatype io_event = Visit io_entry | Walk_error string string int

record walk_slot =
  slot_entries :: "file_entry list option"
  slot_errors :: "(string \<times> string \<times> int) list option"

text \<open>
  The environment: that of the sequential walk for the calls both make, the library's walk,
  and the answers to what a worker asks for. A worker's set-up of a slot is answered by the
  number of callbacks it has had.
\<close>

record par_env =
  par_walk :: walk_env
  par_io_walk :: "string \<Rightarrow> (io_entry \<Rightarrow> bool) \<Rightarrow> (nat \<times> io_event) list"
  par_max_path :: nat
  par_workers :: nat
  par_slot_given :: "nat \<Rightarrow> bool"
  par_vector_created :: "nat \<Rightarrow> bool"
  par_collector_created :: "nat \<Rightarrow> bool"
  par_slot_push_ok :: "nat \<Rightarrow> nat \<Rightarrow> bool"

text \<open>\<open>flushed\<close> are the errors a merge writes to standard error.\<close>

record par_state =
  par_base :: walk_state
  par_slots :: "nat \<Rightarrow> walk_slot"
  par_pools :: "nat \<Rightarrow> pool"
  flushed :: "(string \<times> string \<times> int) list"

fun basename_loop :: "string \<Rightarrow> nat \<Rightarrow> string" where
  "basename_loop path 0 = path"
| "basename_loop path (Suc k) = (if path ! k = CHR ''/'' then drop (Suc k) path else basename_loop path k)"

definition walk_basename :: "string \<Rightarrow> string" where
  "walk_basename path = (if length path = 0 then path else basename_loop path (length path))"

definition walk_ensure_slot :: "par_env \<Rightarrow> nat \<Rightarrow> walk_slot \<Rightarrow> bool \<times> walk_slot" where
  "walk_ensure_slot env w slot =
    (if \<not> par_slot_given env w then (False, slot)
     else
       (case (case slot_entries slot of
                Some _ \<Rightarrow> (True, slot)
              | None \<Rightarrow> if par_vector_created env w then (True, slot\<lparr>slot_entries := Some []\<rparr>) else (False, slot)) of
          (ok, slot1) \<Rightarrow>
            if \<not> ok then (False, slot1)
            else
              (case slot_errors slot1 of
                 Some _ \<Rightarrow> (True, slot1)
               | None \<Rightarrow> if par_collector_created env w then (True, slot1\<lparr>slot_errors := Some []\<rparr>) else (False, slot1))))"

definition parallel_filter :: "walk_env \<Rightarrow> u64 option \<Rightarrow> io_entry \<Rightarrow> bool" where
  "parallel_filter env device entry =
    (let basename = walk_basename (io_path entry) in
     case io_kind entry of
       Regular \<Rightarrow>
         if \<not> filter_accepts_file (env_fnmatch env) (env_filter env) basename then False
         else if io_size entry < walk_minimum (env_options env) then False
         else True
     | Directory \<Rightarrow>
         if \<not> filter_accepts_directory (env_fnmatch env) (env_filter env) basename then False
         else if is_pseudo env (io_path entry) then False
         else if walk_one_fs (env_options env) \<and> device \<noteq> None \<and> io_dev entry \<noteq> the device then False
         else True
     | _ \<Rightarrow> False)"

definition io_file_entry :: "io_entry \<Rightarrow> file_entry" where
  "io_file_entry entry = new_entry (io_path entry) (io_size entry) (io_dev entry) (io_ino entry)"

definition walk_visit :: "par_env \<Rightarrow> nat \<Rightarrow> io_entry \<Rightarrow> par_state \<Rightarrow> par_state" where
  "walk_visit env w entry st =
    (if io_kind entry \<noteq> Regular then st
     else
       (case walk_ensure_slot env w (par_slots st w) of (ok, slot) \<Rightarrow>
          (let st1 = st\<lparr>par_slots := (par_slots st)(w := slot)\<rparr> in
           if \<not> ok then st1
           else
             (case pool_allocate (par_pools st1 w) of
                (None, m) \<Rightarrow> st1\<lparr>par_pools := (par_pools st1)(w := m)\<rparr>
              | (Some b, m) \<Rightarrow>
                  (let entries = the (slot_entries slot) in
                   if \<not> par_slot_push_ok env w (length entries)
                   then st1\<lparr>par_pools := (par_pools st1)(w := pool_free b m)\<rparr>
                   else st1\<lparr>par_pools := (par_pools st1)(w := m),
                            par_slots := (par_slots st1)(w := slot\<lparr>slot_entries := Some (entries @ [io_file_entry entry])\<rparr>)\<rparr>)))))"

definition walk_on_error :: "par_env \<Rightarrow> nat \<Rightarrow> string \<Rightarrow> string \<Rightarrow> int \<Rightarrow> par_state \<Rightarrow> par_state" where
  "walk_on_error env w path stage err st =
    (case walk_ensure_slot env w (par_slots st w) of (ok, slot) \<Rightarrow>
       (if \<not> ok then st\<lparr>par_slots := (par_slots st)(w := slot)\<rparr>
        else st\<lparr>par_slots := (par_slots st)(w := slot\<lparr>slot_errors := Some (the (slot_errors slot) @ [(path, stage, err)])\<rparr>)\<rparr>))"

definition handle_event :: "par_env \<Rightarrow> nat \<times> io_event \<Rightarrow> par_state \<Rightarrow> par_state" where
  "handle_event env event st =
    (case event of (w, Visit entry) \<Rightarrow> walk_visit env w entry st
     | (w, Walk_error path stage err) \<Rightarrow> walk_on_error env w path stage err st)"

definition on_base :: "(walk_state \<Rightarrow> walk_state) \<Rightarrow> par_state \<Rightarrow> par_state" where
  "on_base f st = st\<lparr>par_base := f (par_base st)\<rparr>"

definition append_root_file :: "walk_env \<Rightarrow> string \<Rightarrow> u64 \<Rightarrow> u64 \<Rightarrow> u64 \<Rightarrow> walk_state \<Rightarrow> walk_state" where
  "append_root_file env path sz dev ino st =
    (if sz < walk_minimum (env_options env) then st
     else
       (case pool_allocate (walk_memory st) of
          (None, m) \<Rightarrow> collect_error path ''allocate'' ENOMEM (st\<lparr>walk_memory := m\<rparr>)
        | (Some b, m) \<Rightarrow>
            if \<not> env_push_ok env (length (found st))
            then collect_error path ''enqueue'' ENOMEM (st\<lparr>walk_memory := pool_free b m\<rparr>)
            else st\<lparr>walk_memory := m, found := found st @ [new_entry path sz dev ino], path_blocks := path_blocks st @ [b]\<rparr>))"

definition run_on_directory :: "par_env \<Rightarrow> string \<Rightarrow> par_state \<Rightarrow> par_state" where
  "run_on_directory env input_path st =
    (let n = trimmed_length input_path (length input_path) in
     if n \<ge> par_max_path env then on_base (collect_error input_path ''path-too-long'' ENAMETOOLONG) st
     else fold (handle_event env)
       (par_io_walk env (take n input_path) (parallel_filter (par_walk env) (root_device (par_base st)))) st)"

definition par_process_input_path :: "par_env \<Rightarrow> string \<Rightarrow> par_state \<Rightarrow> par_state" where
  "par_process_input_path env input_path st =
    (let we = par_walk env in
     case fs_stat (env_fs we) (walk_follow (env_options we)) input_path of
       Inl err \<Rightarrow> on_base (collect_error input_path ''stat'' err) st
     | Inr sb \<Rightarrow>
         (case st_kind sb of
            Regular \<Rightarrow> on_base (append_root_file we input_path (st_size sb) (st_dev sb) (st_ino sb)) st
          | Directory \<Rightarrow>
              if is_pseudo we input_path then st
              else run_on_directory env input_path
                (if root_device (par_base st) = None then on_base (\<lambda>b. b\<lparr>root_device := Some (st_dev sb)\<rparr>) st else st)
          | Symlink \<Rightarrow> on_base (collect_error input_path ''skip-symlink'' ELOOP) st
          | Special \<Rightarrow> on_base (collect_error input_path ''skip-other'' EINVAL) st))"

definition par_expand_glob :: "par_env \<Rightarrow> string \<Rightarrow> par_state \<Rightarrow> par_state" where
  "par_expand_glob env pattern st =
    (case fs_glob (env_fs (par_walk env)) pattern of
       None \<Rightarrow> on_base (collect_error pattern ''glob'' EINVAL) st
     | Some paths \<Rightarrow> fold (par_process_input_path env) paths st)"

definition par_expand_input :: "par_env \<Rightarrow> string \<Rightarrow> par_state \<Rightarrow> par_state" where
  "par_expand_input env input_path st =
    (if glob_contains_metacharacter input_path then par_expand_glob env input_path st
     else par_process_input_path env input_path st)"

text \<open>The merge of one slot: entries until the destination refuses one, then the errors.\<close>

fun merge_entries :: "walk_env \<Rightarrow> file_entry list \<Rightarrow> walk_state \<Rightarrow> bool \<times> walk_state" where
  "merge_entries env [] st = (True, st)"
| "merge_entries env (e # es) st =
    (if \<not> env_push_ok env (length (found st)) then (False, st)
     else merge_entries env es (st\<lparr>found := found st @ [e]\<rparr>))"

definition merge_worker_slot :: "par_env \<Rightarrow> nat \<Rightarrow> bool \<times> par_state \<Rightarrow> bool \<times> par_state" where
  "merge_worker_slot env w = (\<lambda>(merge_ok, st).
    if \<not> merge_ok then (False, st)
    else
      (let slot = par_slots st w;
           (ok, b) = (case slot_entries slot of None \<Rightarrow> (True, par_base st) | Some es \<Rightarrow> merge_entries (par_walk env) es (par_base st));
           st1 = st\<lparr>par_base := b\<rparr> in
       if \<not> ok then (False, st1)
       else (case slot_errors slot of None \<Rightarrow> (True, st1) | Some errs \<Rightarrow> (True, st1\<lparr>flushed := flushed st1 @ errs\<rparr>))))"

definition par_start :: "pool \<Rightarrow> (nat \<Rightarrow> pool) \<Rightarrow> par_state" where
  "par_start m pools = \<lparr>par_base = start_state m, par_slots = (\<lambda>_. \<lparr>slot_entries = None, slot_errors = None\<rparr>),
    par_pools = pools, flushed = []\<rparr>"

definition discovery_expand_parallel ::
  "par_env \<Rightarrow> bool \<Rightarrow> pool \<Rightarrow> (nat \<Rightarrow> pool) \<Rightarrow> string list \<Rightarrow> bool \<times> par_state" where
  "discovery_expand_parallel env registered m pools input_paths =
    (if \<not> registered then (False, par_start m pools)
     else fold (merge_worker_slot env) [0 ..< par_workers env]
       (True, fold (par_expand_input env) input_paths (par_start m pools)))"

section \<open>The slots gather everything\<close>

definition entries_of :: "walk_slot \<Rightarrow> file_entry list" where
  "entries_of slot = (case slot_entries slot of None \<Rightarrow> [] | Some es \<Rightarrow> es)"

definition par_untroubled :: "par_env \<Rightarrow> bool" where
  "par_untroubled env \<longleftrightarrow> untroubled (par_walk env) \<and>
    (\<forall>w. par_slot_given env w \<and> par_vector_created env w \<and> par_collector_created env w \<and> (\<forall>k. par_slot_push_ok env w k)) \<and>
    (\<forall>root filt. \<forall>event \<in> set (par_io_walk env root filt). fst event < par_workers env)"

text \<open>All entries gathered so far, in the vector and in the slots.\<close>

definition gathered_entries :: "par_env \<Rightarrow> par_state \<Rightarrow> file_entry multiset" where
  "gathered_entries env st = mset (found (par_base st)) + (\<Sum>w<par_workers env. mset (entries_of (par_slots st w)))"

definition all_grant :: "par_state \<Rightarrow> bool" where
  "all_grant st \<longleftrightarrow> grants (walk_memory (par_base st)) = (\<lambda>_. True) \<and> (\<forall>w. grants (par_pools st w) = (\<lambda>_. True))"

lemma sum_update:
  fixes g :: "'a \<Rightarrow> 'b multiset" and n :: nat
  assumes "w < n"
  shows "(\<Sum>v<n. g ((f(w := x)) v)) + g (f w) = (\<Sum>v<n. g (f v)) + g x"
proof -
  have "(\<Sum>v \<in> {..<n} - {w}. g ((f(w := x)) v)) = (\<Sum>v \<in> {..<n} - {w}. g (f v))" by (rule sum.cong) auto
  moreover have "(\<Sum>v<n. g ((f(w := x)) v)) = g x + (\<Sum>v \<in> {..<n} - {w}. g ((f(w := x)) v))"
    using assms sum.remove [of "{..<n}" w "\<lambda>v. g ((f(w := x)) v)"] by (simp del: fun_upd_apply add: fun_upd_same)
  moreover have "(\<Sum>v<n. g (f v)) = g (f w) + (\<Sum>v \<in> {..<n} - {w}. g (f v))"
    using assms sum.remove [of "{..<n}" w "\<lambda>v. g (f v)"] by simp
  ultimately show ?thesis by (simp only: ac_simps)
qed

lemma sum_update_same:
  fixes g :: "'a \<Rightarrow> 'b multiset" and n :: nat
  assumes "g x = g (f w)"
  shows "(\<Sum>v<n. g ((f(w := x)) v)) = (\<Sum>v<n. g (f v))"
  using assms by (intro sum.cong) auto

lemma ensure_slot_untroubled:
  assumes "par_untroubled env"
  shows "\<exists>slot'. walk_ensure_slot env w slot = (True, slot') \<and> slot_entries slot' = Some (entries_of slot)"
  using assms by (auto simp: walk_ensure_slot_def par_untroubled_def entries_of_def split: option.split)

definition event_entries :: "nat \<times> io_event \<Rightarrow> file_entry list" where
  "event_entries event =
    (case snd event of Visit entry \<Rightarrow> if io_kind entry = Regular then [io_file_entry entry] else [] | Walk_error _ _ _ \<Rightarrow> [])"

lemma handle_event_gathers:
  assumes env: "par_untroubled env" and w: "fst event < par_workers env" and grant: "all_grant st"
  shows "gathered_entries env (handle_event env event st) = gathered_entries env st + mset (event_entries event)"
    and "all_grant (handle_event env event st)" and "root_device (par_base (handle_event env event st)) = root_device (par_base st)"
proof -
  obtain v ev where event: "event = (v, ev)" by (cases event)
  obtain slot where slot: "walk_ensure_slot env v (par_slots st v) = (True, slot)" "slot_entries slot = Some (entries_of (par_slots st v))"
    using ensure_slot_untroubled [OF env] by blast
  have same: "entries_of slot = entries_of (par_slots st v)" using slot(2) by (simp add: entries_of_def)
  obtain b m where alloc: "pool_allocate (par_pools st v) = (Some b, m)" "grants m = (\<lambda>_. True)"
    using pool_allocate_granted [of "par_pools st v"] grant by (auto simp: all_grant_def)
  have push: "par_slot_push_ok env v k" for k using env by (simp add: par_untroubled_def)
  have "gathered_entries env (handle_event env event st) = gathered_entries env st + mset (event_entries event) \<and>
      all_grant (handle_event env event st) \<and> root_device (par_base (handle_event env event st)) = root_device (par_base st)"
  proof (cases ev)
    case (Visit entry)
    show ?thesis
    proof (cases "io_kind entry = Regular")
      case True
      let ?slot = "slot\<lparr>slot_entries := Some (entries_of (par_slots st v) @ [io_file_entry entry])\<rparr>"
      have new: "entries_of ?slot = entries_of (par_slots st v) @ [io_file_entry entry]" by (simp add: entries_of_def)
      have step: "handle_event env (v, Visit entry) st =
          st\<lparr>par_pools := (par_pools st)(v := m), par_slots := (par_slots st)(v := ?slot)\<rparr>"
        by (simp add: handle_event_def walk_visit_def True slot alloc push Let_def)
      have "(\<Sum>u<par_workers env. mset (entries_of (((par_slots st)(v := ?slot)) u))) =
          (\<Sum>u<par_workers env. mset (entries_of (par_slots st u))) + {#io_file_entry entry#}"
        using sum_update [of v "par_workers env" "\<lambda>s. mset (entries_of s)" "par_slots st" ?slot] w event new by simp
      then show ?thesis using grant alloc(2)
        by (simp add: step gathered_entries_def all_grant_def event_entries_def event Visit True)
    next
      case False
      then show ?thesis using grant by (simp add: handle_event_def event Visit walk_visit_def event_entries_def)
    qed
  next
    case (Walk_error path stage err)
    let ?slot = "slot\<lparr>slot_errors := Some (the (slot_errors slot) @ [(path, stage, err)])\<rparr>"
    have step: "handle_event env (v, Walk_error path stage err) st = st\<lparr>par_slots := (par_slots st)(v := ?slot)\<rparr>"
      by (simp add: handle_event_def walk_on_error_def slot)
    have "entries_of ?slot = entries_of (par_slots st v)" using same by (simp add: entries_of_def)
    then have "(\<Sum>u<par_workers env. mset (entries_of (((par_slots st)(v := ?slot)) u))) =
        (\<Sum>u<par_workers env. mset (entries_of (par_slots st u)))"
      by (intro sum_update_same) simp
    then show ?thesis using grant
      by (simp add: step gathered_entries_def all_grant_def event_entries_def event Walk_error)
  qed
  then show "gathered_entries env (handle_event env event st) = gathered_entries env st + mset (event_entries event)"
    and "all_grant (handle_event env event st)" and "root_device (par_base (handle_event env event st)) = root_device (par_base st)"
    by blast+
qed

lemma handle_events_gather:
  assumes "par_untroubled env" and "\<forall>event \<in> set events. fst event < par_workers env" and "all_grant st"
  shows "gathered_entries env (fold (handle_event env) events st) = gathered_entries env st + mset (concat (map event_entries events)) \<and>
    all_grant (fold (handle_event env) events st) \<and> root_device (par_base (fold (handle_event env) events st)) = root_device (par_base st)"
  using assms(2,3)
proof (induction events arbitrary: st)
  case (Cons event events)
  note one = handle_event_gathers [OF assms(1) _ Cons.prems(2), of event]
  have "gathered_entries env (fold (handle_event env) events (handle_event env event st)) =
      gathered_entries env (handle_event env event st) + mset (concat (map event_entries events)) \<and>
    all_grant (fold (handle_event env) events (handle_event env event st)) \<and>
    root_device (par_base (fold (handle_event env) events (handle_event env event st))) = root_device (par_base (handle_event env event st))"
    using Cons.prems one by (intro Cons.IH) auto
  then show ?case using one Cons.prems(1) by simp
qed simp

text \<open>
  The reference: the entries the inputs contribute one after the other, with no slots, workers
  or merge; the first component is the root device.
\<close>

definition input_entries :: "par_env \<Rightarrow> string \<Rightarrow> u64 option \<times> file_entry list \<Rightarrow> u64 option \<times> file_entry list" where
  "input_entries env p = (\<lambda>(dev, es).
    let we = par_walk env; n = trimmed_length p (length p) in
    case fs_stat (env_fs we) (walk_follow (env_options we)) p of
      Inl _ \<Rightarrow> (dev, es)
    | Inr sb \<Rightarrow>
        if st_kind sb = Regular \<and> walk_minimum (env_options we) \<le> st_size sb
        then (dev, es @ [new_entry p (st_size sb) (st_dev sb) (st_ino sb)])
        else if st_kind sb = Directory \<and> \<not> is_pseudo we p then
          (let dev' = (if dev = None then Some (st_dev sb) else dev) in
           (dev', if n \<ge> par_max_path env then es
                  else es @ concat (map event_entries (par_io_walk env (take n p) (parallel_filter we dev')))))
        else (dev, es))"

definition expanded_inputs :: "par_env \<Rightarrow> string list \<Rightarrow> string list" where
  "expanded_inputs env ps = concat (map (\<lambda>p.
    if glob_contains_metacharacter p then (case fs_glob (env_fs (par_walk env)) p of None \<Rightarrow> [] | Some paths \<Rightarrow> paths) else [p]) ps)"

definition agrees :: "par_env \<Rightarrow> par_state \<Rightarrow> u64 option \<times> file_entry list \<Rightarrow> bool" where
  "agrees env st = (\<lambda>(dev, es). root_device (par_base st) = dev \<and> gathered_entries env st = mset es \<and> all_grant st)"

lemma on_base_error [simp]:
  "gathered_entries env (on_base (collect_error p stage err) st) = gathered_entries env st"
  "all_grant (on_base (collect_error p stage err) st) = all_grant st"
  "root_device (par_base (on_base (collect_error p stage err) st)) = root_device (par_base st)"
  by (simp_all add: on_base_def gathered_entries_def all_grant_def collect_error_def)

lemma append_root_file_gathers:
  assumes "par_untroubled env" and "all_grant st" and "walk_minimum (env_options (par_walk env)) \<le> sz"
  shows "gathered_entries env (on_base (append_root_file (par_walk env) p sz dev ino) st) =
      gathered_entries env st + {#new_entry p sz dev ino#}"
    and "all_grant (on_base (append_root_file (par_walk env) p sz dev ino) st)"
    and "root_device (par_base (on_base (append_root_file (par_walk env) p sz dev ino) st)) = root_device (par_base st)"
proof -
  obtain b m where alloc: "pool_allocate (walk_memory (par_base st)) = (Some b, m)" "grants m = (\<lambda>_. True)"
    using pool_allocate_granted [of "walk_memory (par_base st)"] assms(2) by (auto simp: all_grant_def)
  have push: "env_push_ok (par_walk env) k" for k using assms(1) by (simp add: par_untroubled_def untroubled_def)
  have small: "\<not> sz < walk_minimum (env_options (par_walk env))" using assms(3) by simp
  show "gathered_entries env (on_base (append_root_file (par_walk env) p sz dev ino) st) =
      gathered_entries env st + {#new_entry p sz dev ino#}"
    and "all_grant (on_base (append_root_file (par_walk env) p sz dev ino) st)"
    and "root_device (par_base (on_base (append_root_file (par_walk env) p sz dev ino) st)) = root_device (par_base st)"
    using assms(2) by (simp_all add: append_root_file_def small alloc push on_base_def gathered_entries_def all_grant_def)
qed

lemma process_input_agrees:
  assumes env: "par_untroubled env" and "agrees env st (dev, es)"
  shows "agrees env (par_process_input_path env p st) (input_entries env p (dev, es))"
proof -
  let ?we = "par_walk env" and ?n = "trimmed_length p (length p)"
  have st: "root_device (par_base st) = dev" "gathered_entries env st = mset es" "all_grant st"
    using assms(2) by (auto simp: agrees_def)
  show ?thesis
  proof (cases "fs_stat (env_fs ?we) (walk_follow (env_options ?we)) p")
    case (Inl err)
    then show ?thesis using st by (simp add: par_process_input_path_def input_entries_def agrees_def Let_def)
  next
    case (Inr sb)
    show ?thesis
    proof (cases "st_kind sb")
      case Regular
      show ?thesis
      proof (cases "walk_minimum (env_options ?we) \<le> st_size sb")
        case True
        then show ?thesis using Inr Regular st append_root_file_gathers [OF env st(3) True]
          by (simp add: par_process_input_path_def input_entries_def agrees_def Let_def)
      next
        case False
        then have small: "st_size sb < walk_minimum (env_options ?we)" by simp
        have "append_root_file ?we p (st_size sb) (st_dev sb) (st_ino sb) = (\<lambda>b. b)"
          by (rule ext) (simp add: append_root_file_def small)
        then show ?thesis using Inr Regular st False
          by (simp add: par_process_input_path_def input_entries_def agrees_def Let_def on_base_def)
      qed
    next
      case Directory
      show ?thesis
      proof (cases "is_pseudo ?we p")
        case True
        then show ?thesis using Inr Directory st
          by (simp add: par_process_input_path_def input_entries_def agrees_def Let_def)
      next
        case False
        define st1 where "st1 = (if root_device (par_base st) = None then on_base (\<lambda>b. b\<lparr>root_device := Some (st_dev sb)\<rparr>) st else st)"
        define dev1 where "dev1 = (if dev = None then Some (st_dev sb) else dev)"
        have st1: "root_device (par_base st1) = dev1" "gathered_entries env st1 = mset es" "all_grant st1"
          using st by (auto simp: st1_def dev1_def on_base_def gathered_entries_def all_grant_def)
        let ?events = "par_io_walk env (take ?n p) (parallel_filter ?we dev1)"
        have "gathered_entries env (fold (handle_event env) ?events st1) = gathered_entries env st1 + mset (concat (map event_entries ?events)) \<and>
            all_grant (fold (handle_event env) ?events st1) \<and>
            root_device (par_base (fold (handle_event env) ?events st1)) = root_device (par_base st1)"
          by (rule handle_events_gather [OF env _ st1(3)]) (use env in \<open>auto simp: par_untroubled_def\<close>)
        moreover have "par_process_input_path env p st = run_on_directory env p st1"
          using Inr Directory False by (simp add: par_process_input_path_def st1_def Let_def)
        ultimately show ?thesis using Inr Directory False st1
          by (simp add: input_entries_def run_on_directory_def agrees_def Let_def dev1_def [symmetric])
      qed
    qed (use Inr st in \<open>simp_all add: par_process_input_path_def input_entries_def agrees_def Let_def\<close>)
  qed
qed

lemma process_inputs_agree:
  assumes "par_untroubled env" and "agrees env st acc"
  shows "agrees env (fold (par_process_input_path env) ps st) (fold (input_entries env) ps acc)"
  using assms(2)
proof (induction ps arbitrary: st acc)
  case (Cons p ps)
  have "agrees env (par_process_input_path env p st) (input_entries env p acc)"
    using process_input_agrees [OF assms(1)] Cons.prems by (cases acc) blast
  from Cons.IH [OF this] show ?case by simp
qed simp

lemma expand_inputs_agree:
  assumes "par_untroubled env" and "agrees env st acc"
  shows "agrees env (fold (par_expand_input env) ps st) (fold (input_entries env) (expanded_inputs env ps) acc)"
  using assms(2)
proof (induction ps arbitrary: st acc)
  case (Cons p ps)
  let ?paths = "if glob_contains_metacharacter p then (case fs_glob (env_fs (par_walk env)) p of None \<Rightarrow> [] | Some paths \<Rightarrow> paths) else [p]"
  have "agrees env (par_expand_input env p st) (fold (input_entries env) ?paths acc)"
  proof (cases "glob_contains_metacharacter p")
    case True
    show ?thesis
    proof (cases "fs_glob (env_fs (par_walk env)) p")
      case None
      then show ?thesis using True Cons.prems
        by (simp add: par_expand_input_def par_expand_glob_def agrees_def split: prod.splits)
    next
      case (Some paths)
      then show ?thesis using True process_inputs_agree [OF assms(1) Cons.prems]
        by (simp add: par_expand_input_def par_expand_glob_def)
    qed
  next
    case False
    then show ?thesis using process_inputs_agree [OF assms(1) Cons.prems, of "[p]"] by (simp add: par_expand_input_def)
  qed
  from Cons.IH [OF this] show ?case by (simp add: expanded_inputs_def)
qed (simp add: expanded_inputs_def)

lemma merge_entries_all:
  assumes "untroubled env"
  shows "merge_entries env es st = (True, st\<lparr>found := found st @ es\<rparr>)"
  using assms by (induction es arbitrary: st) (simp_all add: untroubled_def)

lemma merge_all:
  assumes env: "par_untroubled env"
  shows "\<exists>st'. fold (merge_worker_slot env) ws (True, st) = (True, st') \<and>
    found (par_base st') = found (par_base st) @ concat (map (\<lambda>w. entries_of (par_slots st w)) ws) \<and> par_slots st' = par_slots st"
proof (induction ws arbitrary: st)
  case (Cons w ws)
  have base: "untroubled (par_walk env)" using env by (simp add: par_untroubled_def)
  have "\<exists>st1. merge_worker_slot env w (True, st) = (True, st1) \<and>
      found (par_base st1) = found (par_base st) @ entries_of (par_slots st w) \<and> par_slots st1 = par_slots st"
    by (cases "slot_entries (par_slots st w)"; cases "slot_errors (par_slots st w)")
      (simp_all add: merge_worker_slot_def entries_of_def Let_def merge_entries_all [OF base])
  then obtain st1 where one: "merge_worker_slot env w (True, st) = (True, st1)"
    and st1: "found (par_base st1) = found (par_base st) @ entries_of (par_slots st w)" "par_slots st1 = par_slots st"
    by blast
  show ?case using Cons.IH [of st1] one st1 by auto
qed simp

section \<open>Errors of the workers\<close>

lemma handle_event_base [simp]: "par_base (handle_event env event st) = par_base st"
  by (auto simp: handle_event_def walk_visit_def walk_on_error_def Let_def
      split: prod.split io_event.split option.split)

lemma handle_events_base [simp]: "par_base (fold (handle_event env) events st) = par_base st"
  by (induction events arbitrary: st) simp_all

lemma merge_entries_errors: "walk_errors (snd (merge_entries env es st)) = walk_errors st"
  by (induction es arbitrary: st) simp_all

lemma merge_errors: "walk_errors (par_base (snd (fold (merge_worker_slot env) ws (ok, st)))) = walk_errors (par_base st)"
proof (induction ws arbitrary: ok st)
  case (Cons w ws)
  obtain ok1 st1 where one: "merge_worker_slot env w (ok, st) = (ok1, st1)" by (cases "merge_worker_slot env w (ok, st)")
  have "walk_errors (par_base st1) = walk_errors (par_base st)"
  proof (cases "slot_entries (par_slots st w)")
    case None
    then show ?thesis using one by (auto simp: merge_worker_slot_def Let_def split: if_splits option.splits)
  next
    case (Some es)
    then show ?thesis using one merge_entries_errors [of "par_walk env" es "par_base st"]
      by (cases "merge_entries (par_walk env) es (par_base st)")
        (auto simp: merge_worker_slot_def Let_def split: if_splits option.splits)
  qed
  then show ?case using Cons.IH one by simp
qed simp

section \<open>Memory\<close>

text \<open>The blocks of the main pool are those of the root files; the callbacks leave that pool alone.\<close>

definition root_blocks :: "pool \<Rightarrow> walk_state \<Rightarrow> bool" where
  "root_blocks m b \<longleftrightarrow> holds m (mset (path_blocks b)) (walk_memory b)"

lemma append_root_file_blocks: "root_blocks m b \<Longrightarrow> root_blocks m (append_root_file env p sz dev ino b)"
  by (auto simp: root_blocks_def append_root_file_def collect_error_def
      split: prod.splits option.splits dest: holds_allocate intro: pool_free_holds)

lemma par_process_input_path_blocks:
  "root_blocks m (par_base st) \<Longrightarrow> root_blocks m (par_base (par_process_input_path env p st))"
  by (auto simp: par_process_input_path_def run_on_directory_def on_base_def append_root_file_blocks Let_def
      collect_error_def split: sum.split file_kind.split) (auto simp: root_blocks_def)

lemma par_expand_input_blocks:
  assumes "root_blocks m (par_base st)"
  shows "root_blocks m (par_base (par_expand_input env p st))"
proof -
  have "root_blocks m (par_base (fold (par_process_input_path env) paths st))" for paths
    using assms by (induction paths arbitrary: st) (simp_all add: par_process_input_path_blocks)
  then show ?thesis
    using assms par_process_input_path_blocks [OF assms, of env p]
    by (auto simp: par_expand_input_def par_expand_glob_def on_base_def collect_error_def root_blocks_def split: option.split)
qed

lemma merge_entries_blocks: "root_blocks m (snd (merge_entries env es b)) = root_blocks m b"
  by (induction es arbitrary: b) (simp_all add: root_blocks_def)

lemma merge_worker_slot_blocks:
  "root_blocks m (par_base (snd (merge_worker_slot env w r))) = root_blocks m (par_base (snd r))"
  using merge_entries_blocks [of m "par_walk env" _ "par_base (snd r)"]
  by (cases r) (auto simp: merge_worker_slot_def Let_def split: option.split prod.split, (metis snd_conv)+)

lemma discovery_expand_parallel_blocks:
  "root_blocks m (par_base (snd (discovery_expand_parallel env registered m pools ps)))"
proof -
  have inputs: "root_blocks m (par_base (fold (par_expand_input env) ps st))" if "root_blocks m (par_base st)" for st
    using that by (induction ps arbitrary: st) (simp_all add: par_expand_input_blocks)
  have merge: "root_blocks m (par_base (snd (fold (merge_worker_slot env) ws r))) = root_blocks m (par_base (snd r))" for ws r
    by (induction ws arbitrary: r) (simp_all add: merge_worker_slot_blocks)
  have "root_blocks m (par_base (par_start m pools))" by (simp add: root_blocks_def par_start_def start_state_def)
  then show ?thesis by (simp add: discovery_expand_parallel_def merge inputs)
qed

section \<open>Fresh entries\<close>

text \<open>No entry of a parallel discovery has been hashed.\<close>

definition par_fresh :: "par_state \<Rightarrow> bool" where
  "par_fresh st \<longleftrightarrow> (\<forall>e \<in> set (found (par_base st)). fresh_entry e) \<and> (\<forall>w. \<forall>e \<in> set (entries_of (par_slots st w)). fresh_entry e)"

lemma io_file_entry_fresh [simp]: "fresh_entry (io_file_entry entry)"
  by (simp add: io_file_entry_def)

lemma ensure_slot_entries: "entries_of (snd (walk_ensure_slot env w slot)) = entries_of slot"
  by (auto simp: walk_ensure_slot_def entries_of_def split: option.split)

lemma handle_event_fresh:
  assumes "par_fresh st"
  shows "par_fresh (handle_event env event st)"
proof (cases event)
  case (Pair w ev)
  obtain ok slot where slot: "walk_ensure_slot env w (par_slots st w) = (ok, slot)" by (metis prod.exhaust)
  have fresh: "\<forall>e \<in> set (entries_of slot). fresh_entry e"
    using assms ensure_slot_entries [of env w "par_slots st w"] slot by (simp add: par_fresh_def)
  have same: "entries_of (slot\<lparr>slot_entries := Some es\<rparr>) = es" "entries_of (slot\<lparr>slot_errors := errs\<rparr>) = entries_of slot" for es errs
    by (simp_all add: entries_of_def)
  have some: "the (slot_entries slot) = entries_of slot" if ok
    using slot that by (auto simp: walk_ensure_slot_def entries_of_def split: if_splits option.splits)
  show ?thesis
  proof (cases ev)
    case (Visit entry)
    then show ?thesis using assms fresh some
      by (auto simp: par_fresh_def handle_event_def Pair walk_visit_def slot same Let_def split: option.split prod.split)
  next
    case (Walk_error path stage err)
    then show ?thesis using assms fresh
      by (auto simp: par_fresh_def handle_event_def Pair walk_on_error_def slot same Let_def)
  qed
qed

lemma handle_events_fresh: "par_fresh st \<Longrightarrow> par_fresh (fold (handle_event env) events st)"
  by (induction events arbitrary: st) (simp_all add: handle_event_fresh)

lemma on_base_fresh:
  assumes "par_fresh st" and "\<And>b. set (found (f b)) \<subseteq> set (found b) \<union> Collect fresh_entry"
  shows "par_fresh (on_base f st)"
  using assms(1) assms(2) [of "par_base st"] by (auto simp: par_fresh_def on_base_def)

lemma par_process_input_path_fresh:
  assumes "par_fresh st"
  shows "par_fresh (par_process_input_path env p st)"
proof -
  have "par_fresh (on_base (collect_error q stage err) st')" if "par_fresh st'" for q stage err st'
    using that by (rule on_base_fresh) (simp add: collect_error_def)
  moreover have "par_fresh (on_base (append_root_file we p sz dev ino) st)" for we sz dev ino
    using assms by (rule on_base_fresh) (auto simp: append_root_file_def collect_error_def split: prod.split option.split)
  moreover have "par_fresh (on_base (\<lambda>b. b\<lparr>root_device := dev\<rparr>) st)" for dev
    using assms by (rule on_base_fresh) simp
  ultimately show ?thesis using assms
    by (simp add: par_process_input_path_def run_on_directory_def Let_def handle_events_fresh split: sum.split file_kind.split)
qed

lemma par_expand_input_fresh:
  assumes "par_fresh st"
  shows "par_fresh (par_expand_input env p st)"
proof -
  have "par_fresh (fold (par_process_input_path env) paths st)" for paths
    using assms by (induction paths arbitrary: st) (simp_all add: par_process_input_path_fresh)
  moreover have "par_fresh (on_base (collect_error p stage err) st)" for stage err
    using assms by (rule on_base_fresh) (simp add: collect_error_def)
  ultimately show ?thesis
    using assms by (simp add: par_expand_input_def par_expand_glob_def par_process_input_path_fresh split: option.split)
qed

lemma merge_entries_found: "set (found (snd (merge_entries env es b))) \<subseteq> set (found b) \<union> set es"
proof (induction es arbitrary: b)
  case (Cons e es)
  then show ?case using Cons.IH [of "b\<lparr>found := found b @ [e]\<rparr>"] by auto
qed simp

lemma merge_worker_slot_fresh:
  assumes "par_fresh (snd r)"
  shows "par_fresh (snd (merge_worker_slot env w r))"
proof (cases "slot_entries (par_slots (snd r) w)")
  case None
  then show ?thesis using assms
    by (cases r) (auto simp: merge_worker_slot_def par_fresh_def Let_def split: option.split)
next
  case (Some es)
  have "\<forall>e \<in> set es. fresh_entry e" using assms Some by (auto simp: par_fresh_def entries_of_def dest: spec [of _ w])
  then show ?thesis using assms Some merge_entries_found [of "par_walk env" es "par_base (snd r)"]
    by (cases r; cases "merge_entries (par_walk env) es (par_base (snd r))")
      (auto simp: merge_worker_slot_def par_fresh_def Let_def split: option.split)
qed

lemma discovery_expand_parallel_fresh:
  "\<forall>e \<in> set (found (par_base (snd (discovery_expand_parallel env registered m pools ps)))). fresh_entry e"
proof -
  have inputs: "par_fresh (fold (par_expand_input env) ps st)" if "par_fresh st" for st
    using that by (induction ps arbitrary: st) (simp_all add: par_expand_input_fresh)
  have merge: "par_fresh (snd (fold (merge_worker_slot env) ws r))" if "par_fresh (snd r)" for ws r
    using that by (induction ws arbitrary: r) (simp_all add: merge_worker_slot_fresh)
  have "par_fresh (par_start m pools)" by (simp add: par_fresh_def par_start_def start_state_def entries_of_def)
  then have "par_fresh (snd (discovery_expand_parallel env registered m pools ps))"
    by (simp add: discovery_expand_parallel_def merge inputs)
  then show ?thesis by (simp add: par_fresh_def)
qed

section \<open>Properties\<close>

text \<open>C11
  When no allocation fails, parallel discovery succeeds and its entries are, up to order, those
  of the reference that takes the inputs one by one: nothing the walks visit is lost or
  doubled by slots, workers and merge, however the callbacks are spread over the workers.
\<close>

theorem parallel_discovery_collects_all_visits:
  assumes "par_untroubled env" and "grants m = (\<lambda>_. True)" and "\<And>w. grants (pools w) = (\<lambda>_. True)"
  shows "\<exists>st. discovery_expand_parallel env True m pools ps = (True, st) \<and>
    mset (found (par_base st)) = mset (snd (fold (input_entries env) (expanded_inputs env ps) (None, [])))"
proof -
  have start: "agrees env (par_start m pools) (None, [])"
    using assms(2,3) by (simp add: agrees_def par_start_def start_state_def gathered_entries_def all_grant_def entries_of_def)
  define st where "st = fold (par_expand_input env) ps (par_start m pools)"
  have agrees: "gathered_entries env st = mset (snd (fold (input_entries env) (expanded_inputs env ps) (None, [])))"
    using expand_inputs_agree [OF assms(1) start, of ps] by (simp add: agrees_def st_def split: prod.splits)
  obtain st' where merge: "fold (merge_worker_slot env) [0 ..< par_workers env] (True, st) = (True, st')"
    and found: "found (par_base st') = found (par_base st) @ concat (map (\<lambda>w. entries_of (par_slots st w)) [0 ..< par_workers env])"
    using merge_all [OF assms(1)] by blast
  have "(\<Sum>w<n. mset (entries_of (par_slots st w))) = mset (concat (map (\<lambda>w. entries_of (par_slots st w)) [0 ..< n]))" for n
    by (induction n) (simp_all add: add.commute)
  then have "mset (found (par_base st')) = gathered_entries env st" using found by (simp add: gathered_entries_def)
  then show ?thesis using merge agrees by (simp add: discovery_expand_parallel_def st_def)
qed


section \<open>Witnesses\<close>

definition sample_par :: "(nat \<times> io_event) list \<Rightarrow> par_env" where
  "sample_par events = \<lparr>par_walk = sample_walk, par_io_walk = (\<lambda>root filt. events), par_max_path = 4096, par_workers = 2,
    par_slot_given = (\<lambda>_. True), par_vector_created = (\<lambda>_. True), par_collector_created = (\<lambda>_. True),
    par_slot_push_ok = (\<lambda>_ _. True)\<rparr>"

definition sample_visit :: io_entry where
  "sample_visit = \<lparr>io_kind = Regular, io_path = ''/d/a'', io_size = 2, io_dev = 1, io_ino = 2\<rparr>"

theorem parallel_discovery_collects_all_visits_witness:
  "\<exists>st. discovery_expand_parallel (sample_par [(1, Visit sample_visit)]) True granting_pool (\<lambda>_. granting_pool) [''/d''] = (True, st) \<and>
    found (par_base st) = [new_entry ''/d/a'' 2 1 2]"
proof -
  have env: "par_untroubled (sample_par [(1, Visit sample_visit)])"
    by (simp add: par_untroubled_def untroubled_def sample_par_def sample_walk_def)
  from parallel_discovery_collects_all_visits [OF env granting_pool_grants granting_pool_grants, of "[''/d'']"]
  obtain st where st: "discovery_expand_parallel (sample_par [(1, Visit sample_visit)]) True granting_pool (\<lambda>_. granting_pool) [''/d''] = (True, st)"
    and found: "mset (found (par_base st)) = mset (snd (fold (input_entries (sample_par [(1, Visit sample_visit)]))
      (expanded_inputs (sample_par [(1, Visit sample_visit)]) [''/d'']) (None, [])))" by blast
  have "snd (fold (input_entries (sample_par [(1, Visit sample_visit)]))
      (expanded_inputs (sample_par [(1, Visit sample_visit)]) [''/d'']) (None, [])) = [new_entry ''/d/a'' 2 1 2]"
    by (simp add: expanded_inputs_def input_entries_def sample_par_def walk_eval Let_def event_entries_def
        sample_visit_def io_file_entry_def)
  then have "mset (found (par_base st)) = {#new_entry ''/d/a'' 2 1 2#}" using found by simp
  then show ?thesis using st by simp
qed


end
