(* ===== verification/Throughput.thy ===== *)
theory Throughput
  imports Dup_Order Dup_Types Complex_Main
begin

text \<open>
  \<^verbatim>\<open>src/bench/bc_duplicate_throughput.c\<close> and \<^verbatim>\<open>src/bench/bc_duplicate_dispatch_decision.c\<close>: the
  benchmarks of the machine, and the decision they feed. Floating-point arithmetic is a
  parameter, so that the definitions fix which operations are made, in which order, and not how
  they round; exact arithmetic over the reals is one instance.
\<close>

section \<open>Floating-point numbers\<close>

text \<open>\<open>dbl_decimal m e\<close> is the literal \<open>m\<close> times ten to the \<open>e\<close>.\<close>

record 'd doubles =
  dbl_decimal :: "int \<Rightarrow> int \<Rightarrow> 'd"
  dbl_of_int :: "int \<Rightarrow> 'd"
  dbl_add :: "'d \<Rightarrow> 'd \<Rightarrow> 'd"
  dbl_sub :: "'d \<Rightarrow> 'd \<Rightarrow> 'd"
  dbl_mul :: "'d \<Rightarrow> 'd \<Rightarrow> 'd"
  dbl_div :: "'d \<Rightarrow> 'd \<Rightarrow> 'd"
  dbl_less :: "'d \<Rightarrow> 'd \<Rightarrow> bool"
  dbl_le :: "'d \<Rightarrow> 'd \<Rightarrow> bool"
  dbl_ceil :: "'d \<Rightarrow> 'd"
  dbl_to_u64 :: "'d \<Rightarrow> u64"

definition dbl_zero :: "'d doubles \<Rightarrow> 'd" where
  "dbl_zero ops = dbl_decimal ops 0 0"

definition dbl_of_u64 :: "'d doubles \<Rightarrow> u64 \<Rightarrow> 'd" where
  "dbl_of_u64 ops w = dbl_of_int ops (uint w)"

definition exact_doubles :: "real doubles" where
  "exact_doubles = \<lparr>dbl_decimal = (\<lambda>m e. of_int m * (if e \<ge> 0 then 10 ^ nat e else 1 / 10 ^ nat (- e))),
    dbl_of_int = of_int, dbl_add = (+), dbl_sub = (-), dbl_mul = (*), dbl_div = (/), dbl_less = (<), dbl_le = (\<le>),
    dbl_ceil = (\<lambda>x. of_int \<lceil>x\<rceil>), dbl_to_u64 = (\<lambda>x. of_int \<lfloor>x\<rfloor>)\<rparr>"

record 'd throughput_constants =
  xxh3_gigabytes_per_second :: 'd
  xxh128_gigabytes_per_second :: 'd
  sha256_gigabytes_per_second :: 'd
  memory_bandwidth_gigabytes_per_second :: 'd
  parallel_startup_overhead_microseconds :: 'd
  per_file_cost_warm_microseconds :: 'd

section \<open>The decision\<close>

definition algorithm_throughput :: "algorithm \<Rightarrow> 'd throughput_constants \<Rightarrow> 'd" where
  "algorithm_throughput alg constants =
    (case alg of ALGORITHM_XXH3 \<Rightarrow> xxh3_gigabytes_per_second constants
     | ALGORITHM_XXH128 \<Rightarrow> xxh128_gigabytes_per_second constants
     | ALGORITHM_SHA256 \<Rightarrow> sha256_gigabytes_per_second constants)"

definition should_go_multithread ::
  "'d doubles \<Rightarrow> u64 \<Rightarrow> u64 \<Rightarrow> algorithm \<Rightarrow> 'd throughput_constants \<Rightarrow> u64 \<Rightarrow> bool" where
  "should_go_multithread ops file_count total_bytes alg constants worker_count =
    (if worker_count \<le> 1 then False
     else if file_count = 0 then False
     else
       (let gigabytes_per_second = algorithm_throughput alg constants in
        if dbl_le ops gigabytes_per_second (dbl_zero ops) then True
        else
          (let bytes_per_microsecond =
                 dbl_div ops (dbl_mul ops gigabytes_per_second (dbl_decimal ops 1 9)) (dbl_decimal ops 1 6);
               mono_wall =
                 dbl_add ops (dbl_mul ops (dbl_of_u64 ops file_count) (per_file_cost_warm_microseconds constants))
                   (dbl_div ops (dbl_of_u64 ops total_bytes) bytes_per_microsecond);
               multi_wall =
                 dbl_add ops (parallel_startup_overhead_microseconds constants)
                   (dbl_div ops mono_wall (dbl_of_u64 ops worker_count)) in
           dbl_less ops multi_wall mono_wall)))"

definition optimal_worker_count :: "'d doubles \<Rightarrow> 'd \<Rightarrow> 'd \<Rightarrow> u64 \<Rightarrow> u64" where
  "optimal_worker_count ops single_thread memory_bandwidth physical_core_count =
    (let compute_bound = (if physical_core_count > 1 then physical_core_count - 1 else 1) in
     if dbl_le ops single_thread (dbl_zero ops) \<or> dbl_le ops memory_bandwidth (dbl_zero ops) then compute_bound
     else
       (let memory_bound = dbl_to_u64 ops (dbl_ceil ops (dbl_div ops memory_bandwidth single_thread));
            memory_bound = (if memory_bound < 1 then 1 else memory_bound) in
        if memory_bound < compute_bound then memory_bound else compute_bound))"

section \<open>The benchmarks\<close>

definition THROUGHPUT_BUFFER_BYTES :: nat where "THROUGHPUT_BUFFER_BYTES = 64 * 1024 * 1024"
definition HASH_ITERATION_COUNT :: nat where "HASH_ITERATION_COUNT = 5"
definition MEMORY_ITERATION_COUNT :: nat where "MEMORY_ITERATION_COUNT = 5"
definition STARTUP_ITERATION_COUNT :: nat where "STARTUP_ITERATION_COUNT = 32"
definition PER_FILE_ITERATION_COUNT :: nat where "PER_FILE_ITERATION_COUNT = 256"
definition PER_FILE_PROBE_SIZE :: nat where "PER_FILE_PROBE_SIZE = 100"

text \<open>
  What the machine answers: the \<open>k\<close>-th reading of the clock in seconds and nanoseconds, the
  hash functions, and the calls on the probe file. \<open>probe_read k\<close> is the read of the \<open>k\<close>-th
  iteration, of which zero is the one before the loop; \<open>None\<close> when the file does not open, an
  error or the bytes read otherwise.
\<close>

record bench_env =
  clock_reading :: "nat \<Rightarrow> int \<times> int"
  bench_xxh3 :: "u8 list \<Rightarrow> u64"
  bench_xxh128_low :: "u8 list \<Rightarrow> u64"
  bench_sha256 :: "u8 list \<Rightarrow> u8 list"
  memalign_ok :: bool
  bench_workers :: nat
  probe_created :: bool
  probe_written :: "int + nat"
  probe_read :: "nat \<Rightarrow> (int + u8 list) option"

text \<open>\<open>probe_files\<close> counts the probe files that exist, \<open>probe_fds\<close> their open descriptors.\<close>

record bench_state =
  clock_reads :: nat
  benchmark_sink :: u64
  submitted :: nat
  probe_files :: nat
  probe_fds :: nat

definition monotonic_seconds :: "'d doubles \<Rightarrow> bench_env \<Rightarrow> bench_state \<Rightarrow> 'd \<times> bench_state" where
  "monotonic_seconds ops env st =
    (case clock_reading env (clock_reads st) of (tv_sec, tv_nsec) \<Rightarrow>
       (dbl_add ops (dbl_of_int ops tv_sec) (dbl_mul ops (dbl_of_int ops tv_nsec) (dbl_decimal ops 1 (- 9))),
        st\<lparr>clock_reads := Suc (clock_reads st)\<rparr>))"

definition median_seconds :: "'d doubles \<Rightarrow> 'd sorter \<Rightarrow> 'd list \<Rightarrow> 'd" where
  "median_seconds ops srt samples = srt (dbl_less ops) samples ! (length samples div 2)"

definition throughput_buffer :: "nat \<Rightarrow> u8 list" where
  "throughput_buffer bytes = map (\<lambda>offset. of_nat (offset mod 256)) [0 ..< bytes]"

definition add_to_sink :: "u64 \<Rightarrow> bench_state \<Rightarrow> bench_state" where
  "add_to_sink digest st = st\<lparr>benchmark_sink := benchmark_sink st + digest\<rparr>"

text \<open>The timing loop: the work itself changes nothing but the sink, after the second reading.\<close>

fun timed_samples :: "'d doubles \<Rightarrow> bench_env \<Rightarrow> u64 \<Rightarrow> nat \<Rightarrow> bench_state \<Rightarrow> 'd list \<times> bench_state" where
  "timed_samples ops env digest 0 st = ([], st)"
| "timed_samples ops env digest (Suc n) st =
    (case monotonic_seconds ops env st of (start_seconds, st1) \<Rightarrow>
     case monotonic_seconds ops env st1 of (end_seconds, st2) \<Rightarrow>
     case timed_samples ops env digest n (add_to_sink digest st2) of (samples, st3) \<Rightarrow>
       (dbl_sub ops end_seconds start_seconds # samples, st3))"

definition gigabytes_per_second :: "'d doubles \<Rightarrow> 'd \<Rightarrow> 'd \<Rightarrow> 'd" where
  "gigabytes_per_second ops bytes seconds = dbl_div ops (dbl_div ops bytes seconds) (dbl_decimal ops 1 9)"

definition measure_xxh3 :: "'d doubles \<Rightarrow> 'd sorter \<Rightarrow> bench_env \<Rightarrow> u8 list \<Rightarrow> bench_state \<Rightarrow> 'd \<times> bench_state" where
  "measure_xxh3 ops srt env buffer st =
    (let digest = bench_xxh3 env buffer in
     case timed_samples ops env digest HASH_ITERATION_COUNT (add_to_sink digest st) of (samples, st') \<Rightarrow>
       (gigabytes_per_second ops (dbl_of_int ops (int THROUGHPUT_BUFFER_BYTES)) (median_seconds ops srt samples), st'))"

definition measure_xxh128 :: "'d doubles \<Rightarrow> 'd sorter \<Rightarrow> bench_env \<Rightarrow> u8 list \<Rightarrow> bench_state \<Rightarrow> 'd \<times> bench_state" where
  "measure_xxh128 ops srt env buffer st =
    (let digest = bench_xxh128_low env buffer in
     case timed_samples ops env digest HASH_ITERATION_COUNT (add_to_sink digest st) of (samples, st') \<Rightarrow>
       (gigabytes_per_second ops (dbl_of_int ops (int THROUGHPUT_BUFFER_BYTES)) (median_seconds ops srt samples), st'))"

definition measure_sha256 :: "'d doubles \<Rightarrow> 'd sorter \<Rightarrow> bench_env \<Rightarrow> u8 list \<Rightarrow> bench_state \<Rightarrow> 'd \<times> bench_state" where
  "measure_sha256 ops srt env buffer st =
    (let digest = ucast (bench_sha256 env buffer ! 0) in
     case timed_samples ops env digest HASH_ITERATION_COUNT (add_to_sink digest st) of (samples, st') \<Rightarrow>
       (gigabytes_per_second ops (dbl_of_int ops (int THROUGHPUT_BUFFER_BYTES)) (median_seconds ops srt samples), st'))"

text \<open>The second half of the buffer becomes a copy of the first.\<close>

definition measure_memory_bandwidth ::
  "'d doubles \<Rightarrow> 'd sorter \<Rightarrow> bench_env \<Rightarrow> u8 list \<Rightarrow> bench_state \<Rightarrow> 'd \<times> u8 list \<times> bench_state" where
  "measure_memory_bandwidth ops srt env buffer st =
    (let half_size = THROUGHPUT_BUFFER_BYTES div 2;
         buffer' = put_segment buffer half_size (segment buffer 0 half_size);
         byte = ucast (buffer' ! half_size) in
     case timed_samples ops env byte MEMORY_ITERATION_COUNT (add_to_sink byte st) of (samples, st') \<Rightarrow>
       (gigabytes_per_second ops (dbl_mul ops (dbl_of_int ops (int half_size)) (dbl_decimal ops 2 0))
          (median_seconds ops srt samples), buffer', st'))"

definition submit_tasks :: "nat \<Rightarrow> bench_state \<Rightarrow> bench_state" where
  "submit_tasks task_count st = st\<lparr>submitted := submitted st + task_count\<rparr>"

definition measure_parallel_startup_overhead :: "'d doubles \<Rightarrow> bench_env \<Rightarrow> bench_state \<Rightarrow> 'd \<times> bench_state" where
  "measure_parallel_startup_overhead ops env st =
    (if bench_workers env < 2 then (dbl_zero ops, st)
     else
       (let task_count = bench_workers env in
        case monotonic_seconds ops env st of (cold_start, st1) \<Rightarrow>
        case monotonic_seconds ops env (submit_tasks task_count st1) of (cold_end, st2) \<Rightarrow>
        case monotonic_seconds ops env st2 of (warm_start, st3) \<Rightarrow>
        case monotonic_seconds ops env ((submit_tasks task_count ^^ STARTUP_ITERATION_COUNT) st3) of (warm_end, st4) \<Rightarrow>
          (let cold = dbl_mul ops (dbl_sub ops cold_end cold_start) (dbl_decimal ops 1 6);
               warm = dbl_mul ops (dbl_div ops (dbl_sub ops warm_end warm_start)
                        (dbl_of_int ops (int STARTUP_ITERATION_COUNT))) (dbl_decimal ops 1 6) in
           (if dbl_less ops warm cold then cold else warm, st4))))"

text \<open>One iteration over the probe file: an open that fails is skipped.\<close>

definition probe_iteration :: "bench_env \<Rightarrow> nat \<Rightarrow> bench_state \<Rightarrow> bench_state" where
  "probe_iteration env k st =
    (case probe_read env k of
       None \<Rightarrow> st
     | Some (Inl _) \<Rightarrow> st
     | Some (Inr bytes) \<Rightarrow> if bytes \<noteq> [] then add_to_sink (bench_xxh3 env bytes) st else st)"

definition measure_per_file_cost_warm :: "'d doubles \<Rightarrow> bench_env \<Rightarrow> bench_state \<Rightarrow> 'd \<times> bench_state" where
  "measure_per_file_cost_warm ops env st =
    (if \<not> probe_created env then (dbl_zero ops, st)
     else
       (let st1 = st\<lparr>probe_files := Suc (probe_files st), probe_fds := Suc (probe_fds st)\<rparr>;
            st2 = st1\<lparr>probe_fds := probe_fds st1 - 1\<rparr> in
        if probe_written env \<noteq> Inr PER_FILE_PROBE_SIZE
        then (dbl_zero ops, st2\<lparr>probe_files := probe_files st2 - 1\<rparr>)
        else
          (case monotonic_seconds ops env st2 of (start_seconds, st3) \<Rightarrow>
           case monotonic_seconds ops env (fold (probe_iteration env) [1 ..< Suc PER_FILE_ITERATION_COUNT] st3) of
             (end_seconds, st4) \<Rightarrow>
               (dbl_mul ops (dbl_div ops (dbl_sub ops end_seconds start_seconds)
                  (dbl_of_int ops (int PER_FILE_ITERATION_COUNT))) (dbl_decimal ops 1 6),
                st4\<lparr>probe_files := probe_files st4 - 1\<rparr>))))"

definition throughput_measure ::
  "'d doubles \<Rightarrow> 'd sorter \<Rightarrow> bench_env \<Rightarrow> bench_state \<Rightarrow> 'd throughput_constants option \<times> bench_state" where
  "throughput_measure ops srt env st =
    (if \<not> memalign_ok env then (None, st)
     else
       (let buffer = throughput_buffer THROUGHPUT_BUFFER_BYTES in
        case measure_xxh3 ops srt env buffer st of (xxh3, st1) \<Rightarrow>
        case measure_xxh128 ops srt env buffer st1 of (xxh128, st2) \<Rightarrow>
        case measure_sha256 ops srt env buffer st2 of (sha256, st3) \<Rightarrow>
        case measure_memory_bandwidth ops srt env buffer st3 of (bandwidth, _, st4) \<Rightarrow>
        case measure_parallel_startup_overhead ops env st4 of (startup, st5) \<Rightarrow>
        case measure_per_file_cost_warm ops env st5 of (per_file, st6) \<Rightarrow>
          (Some \<lparr>xxh3_gigabytes_per_second = xxh3, xxh128_gigabytes_per_second = xxh128,
            sha256_gigabytes_per_second = sha256, memory_bandwidth_gigabytes_per_second = bandwidth,
            parallel_startup_overhead_microseconds = startup, per_file_cost_warm_microseconds = per_file\<rparr>, st6)))"

section \<open>What the benchmarks leave behind\<close>

lemma monotonic_seconds_state:
  "snd (monotonic_seconds ops env st) = st\<lparr>clock_reads := Suc (clock_reads st)\<rparr>"
  by (simp add: monotonic_seconds_def split: prod.splits)

lemma timed_samples_state:
  "length (fst (timed_samples ops env digest n st)) = n \<and>
   snd (timed_samples ops env digest n st) =
     st\<lparr>clock_reads := clock_reads st + 2 * n, benchmark_sink := benchmark_sink st + of_nat n * digest\<rparr>"
proof (induction n arbitrary: st)
  case (Suc n)
  obtain t0 st1 where one: "monotonic_seconds ops env st = (t0, st1)" by (cases "monotonic_seconds ops env st")
  obtain t1 st2 where two: "monotonic_seconds ops env st1 = (t1, st2)" by (cases "monotonic_seconds ops env st1")
  have "st2 = st\<lparr>clock_reads := Suc (Suc (clock_reads st))\<rparr>"
    using one two monotonic_seconds_state [of ops env st] monotonic_seconds_state [of ops env st1] by simp
  moreover obtain samples st3 where "timed_samples ops env digest n (add_to_sink digest st2) = (samples, st3)"
    by (cases "timed_samples ops env digest n (add_to_sink digest st2)")
  ultimately show ?case
    using Suc.IH [of "add_to_sink digest st2"] by (simp add: one two add_to_sink_def algebra_simps)
qed simp

text \<open>The median is a sample with at least half of the samples on either side.\<close>

lemma median_of_samples:
  assumes "sort_contract srt" and "comparator (dbl_less ops)" and "samples \<noteq> []"
  shows "median_seconds ops srt samples \<in> set samples"
    and "length samples div 2 < size {#s \<in># mset samples. \<not> dbl_less ops (median_seconds ops srt samples) s#}"
    and "length samples - length samples div 2 \<le> size {#s \<in># mset samples. \<not> dbl_less ops s (median_seconds ops srt samples)#}"
proof -
  let ?s = "srt (dbl_less ops) samples" and ?k = "length samples div 2"
  let ?m = "?s ! ?k"
  have perm: "mset ?s = mset samples" and ord: "ordered_by (dbl_less ops) ?s"
    using assms(1,2) by (simp_all add: sort_contract_def)
  have len: "length ?s = length samples" using perm by (metis size_mset)
  have k: "?k < length ?s" using assms(3) len by simp
  have irrefl: "\<not> dbl_less ops x x" for x using comparator.asymmetric [OF assms(2)] by blast
  show "median_seconds ops srt samples \<in> set samples"
    using k perm by (metis median_seconds_def nth_mem set_mset_mset)
  have sorted: "\<not> dbl_less ops (?s ! j) (?s ! i)" if "i \<le> j" "j < length ?s" for i j
    using that ord irrefl by (cases "i = j") (simp_all add: ordered_by_def sorted_wrt_iff_nth_less)
  have below: "\<forall>x \<in> set (take (Suc ?k) ?s). \<not> dbl_less ops ?m x"
    using sorted k by (auto simp: in_set_conv_nth less_Suc_eq_le)
  have above: "\<forall>x \<in> set (drop ?k ?s). \<not> dbl_less ops x ?m"
    using sorted by (auto simp: in_set_conv_nth)
  have "length (take (Suc ?k) ?s) \<le> length (filter (\<lambda>x. \<not> dbl_less ops ?m x) ?s)"
    using below by (metis (mono_tags, lifting) append_take_drop_id filter_append filter_id_conv le_add1 length_append)
  moreover have "size {#s \<in># mset samples. P s#} = length (filter P ?s)" for P
    by (metis perm mset_filter size_mset)
  ultimately show "?k < size {#s \<in># mset samples. \<not> dbl_less ops (median_seconds ops srt samples) s#}"
    using k by (simp add: median_seconds_def)
  have "length (drop ?k ?s) \<le> length (filter (\<lambda>x. \<not> dbl_less ops x ?m) ?s)"
    using above by (metis (mono_tags, lifting) append_take_drop_id filter_append filter_id_conv le_add2 length_append)
  moreover have "size {#s \<in># mset samples. P s#} = length (filter P ?s)" for P
    by (metis perm mset_filter size_mset)
  ultimately show "length samples - ?k \<le> size {#s \<in># mset samples. \<not> dbl_less ops s (median_seconds ops srt samples)#}"
    using len by (simp add: median_seconds_def)
qed

lemma probe_iterations_files:
  "probe_files (fold (probe_iteration env) ks st) = probe_files st \<and> probe_fds (fold (probe_iteration env) ks st) = probe_fds st"
  by (induction ks arbitrary: st) (auto simp: probe_iteration_def add_to_sink_def split: option.splits sum.splits)

lemma measure_per_file_cost_files:
  "probe_files (snd (measure_per_file_cost_warm ops env st)) = probe_files st \<and>
   probe_fds (snd (measure_per_file_cost_warm ops env st)) = probe_fds st"
  by (auto simp: measure_per_file_cost_warm_def monotonic_seconds_def probe_iterations_files Let_def simp del: upt_Suc split: prod.splits)

lemma optimal_worker_count_bounds:
  "1 \<le> optimal_worker_count ops single bandwidth cores \<and>
   optimal_worker_count ops single bandwidth cores \<le> (if 1 < cores then cores - 1 else 1)"
proof -
  have "1 \<le> cores - 1" if "1 < cores"
    using that by (simp add: word_le_nat_alt word_less_nat_alt unat_sub)
  moreover have "1 \<le> x" if "x \<noteq> 0" for x :: u64
    using that by (simp add: word_le_nat_alt unat_gt_0 Suc_le_eq)
  ultimately show ?thesis by (auto simp: optimal_worker_count_def Let_def not_less)
qed

section \<open>Properties\<close>

lemma exact_throughput_simps:
  "dbl_zero exact_doubles = 0" "dbl_of_u64 exact_doubles w = real (unat w)"
  "dbl_add exact_doubles x y = x + y" "dbl_mul exact_doubles x y = x * y" "dbl_div exact_doubles x y = x / y"
  "dbl_less exact_doubles x y \<longleftrightarrow> x < y" "dbl_le exact_doubles x y \<longleftrightarrow> x \<le> y"
  "dbl_decimal exact_doubles 1 9 = 10 ^ 9" "dbl_decimal exact_doubles 1 6 = 10 ^ 6"
  by (simp_all add: exact_doubles_def dbl_zero_def dbl_of_u64_def)

text \<open>The time one thread needs for the work, in microseconds.\<close>

definition single_thread_time :: "u64 \<Rightarrow> u64 \<Rightarrow> real \<Rightarrow> real throughput_constants \<Rightarrow> real" where
  "single_thread_time file_count total_bytes speed c =
    real (unat file_count) * per_file_cost_warm_microseconds c + real (unat total_bytes) / (speed * 1000)"

text \<open>The comparison without the division by the number of workers.\<close>

lemma multithread_rule:
  "should_go_multithread exact_doubles f b alg c w \<longleftrightarrow> 1 < w \<and> f \<noteq> 0 \<and>
    (algorithm_throughput alg c \<le> 0 \<or>
     parallel_startup_overhead_microseconds c * real (unat w) < (real (unat w) - 1) * single_thread_time f b (algorithm_throughput alg c) c)"
proof (cases "1 < w \<and> f \<noteq> 0 \<and> 0 < algorithm_throughput alg c")
  case True
  let ?o = "parallel_startup_overhead_microseconds c" and ?t = "single_thread_time f b (algorithm_throughput alg c) c" and ?w = "real (unat w)"
  have "0 < unat w" using True by (simp add: word_less_nat_alt)
  then have w: "0 < ?w" by (simp only: of_nat_0_less_iff)
  have "should_go_multithread exact_doubles f b alg c w \<longleftrightarrow> ?o + ?t / ?w < ?t"
    using True
    by (auto simp: should_go_multithread_def exact_throughput_simps single_thread_time_def Let_def not_le mult.commute dest: leD)
  also have "\<dots> \<longleftrightarrow> ?o * ?w < (?w - 1) * ?t"
    using w by (simp add: field_simps)
  finally show ?thesis using True by simp
qed (auto simp: should_go_multithread_def exact_throughput_simps Let_def not_le not_less)

text \<open>More files, bytes and workers make several threads no less worth while.\<close>

lemma multithread_more:
  assumes "0 \<le> per_file_cost_warm_microseconds c" and "0 \<le> oh" and "0 < speed"
    and "oh * real (unat w) < (real (unat w) - 1) * single_thread_time f b speed c"
    and "1 < w" and "f \<le> f'" and "b \<le> b'" and "w \<le> w'"
  shows "oh * real (unat w') < (real (unat w') - 1) * single_thread_time f' b' speed c"
proof -
  let ?t = "single_thread_time f b speed c" and ?t' = "single_thread_time f' b' speed c"
  have "1 < unat w" and "unat w \<le> unat w'" and loads: "unat f \<le> unat f'" "unat b \<le> unat b'"
    using assms(5-8) by (simp_all add: word_less_nat_alt word_le_nat_alt)
  then have n: "1 < real (unat w)" "real (unat w) \<le> real (unat w')" by linarith+
  have "?t \<le> ?t'"
    using assms(3) loads assms(1) unfolding single_thread_time_def
    by (intro add_mono mult_right_mono divide_right_mono) linarith+
  moreover have "oh < (1 - 1 / real (unat w)) * ?t"
    using assms(4) n(1) by (simp add: field_simps)
  moreover have pos: "0 < ?t"
    using assms(4) n(1) assms(2) by (smt (verit) mult_nonneg_nonneg zero_less_mult_iff)
  moreover have "1 - 1 / real (unat w) \<le> 1 - 1 / real (unat w')"
    using n by (simp add: frac_le)
  moreover have "0 \<le> 1 - 1 / real (unat w)" using n(1) by simp
  ultimately have "oh < (1 - 1 / real (unat w')) * ?t'"
    by (smt (verit) mult_mono mult_right_mono mult_left_mono)
  then show ?thesis using n by (simp add: field_simps)
qed

text \<open>C37
  In exact arithmetic the full pass goes parallel exactly when there are two workers and a file,
  and the throughput is unknown or the start-up overhead is less than the part of the work the
  other workers take over. A load that goes parallel still does when files, bytes or workers
  are added.
\<close>

theorem dispatch_rule:
  assumes "0 \<le> per_file_cost_warm_microseconds c" and "0 \<le> parallel_startup_overhead_microseconds c"
  shows "(should_go_multithread exact_doubles files bytes alg c workers \<longleftrightarrow>
      1 < workers \<and> files \<noteq> 0 \<and>
      (algorithm_throughput alg c \<le> 0 \<or>
       parallel_startup_overhead_microseconds c * real (unat workers) <
         (real (unat workers) - 1) * single_thread_time files bytes (algorithm_throughput alg c) c)) \<and>
    (should_go_multithread exact_doubles files bytes alg c workers \<and>
       files \<le> files' \<and> bytes \<le> bytes' \<and> workers \<le> workers' \<longrightarrow>
     should_go_multithread exact_doubles files' bytes' alg c workers')"
proof -
  have "should_go_multithread exact_doubles files' bytes' alg c workers'"
    if "should_go_multithread exact_doubles files bytes alg c workers" "files \<le> files'" "bytes \<le> bytes'" "workers \<le> workers'"
  proof -
    have "1 < workers'" "files' \<noteq> 0"
      using that by (auto simp: multithread_rule word_less_nat_alt word_le_nat_alt unat_gt_0 [symmetric] simp del: unat_gt_0)
    with that multithread_more [OF assms, of "algorithm_throughput alg c" workers files bytes files' bytes' workers']
    show ?thesis unfolding multithread_rule by fastforce
  qed
  then show ?thesis using multithread_rule [of files bytes alg c workers] by blast
qed

definition sample_constants :: "real throughput_constants" where
  "sample_constants = \<lparr>xxh3_gigabytes_per_second = 10, xxh128_gigabytes_per_second = 8, sha256_gigabytes_per_second = 2,
    memory_bandwidth_gigabytes_per_second = 20, parallel_startup_overhead_microseconds = 100,
    per_file_cost_warm_microseconds = 5\<rparr>"

theorem dispatch_rule_witness:
  "\<not> should_go_multithread exact_doubles 10 10000 ALGORITHM_SHA256 sample_constants 4 \<and>
   should_go_multithread exact_doubles 100 10000 ALGORITHM_SHA256 sample_constants 4"
proof -
  have "0 \<le> per_file_cost_warm_microseconds sample_constants" "0 \<le> parallel_startup_overhead_microseconds sample_constants"
    by (simp_all add: sample_constants_def)
  note rule = dispatch_rule [OF this, THEN conjunct1]
  show ?thesis
    unfolding rule by (simp add: sample_constants_def algorithm_throughput_def single_thread_time_def)
qed

end
