(* ===== verification/Dup_Text.thy ===== *)
theory Dup_Text
  imports Dup_Types
begin

text \<open>
  Text as the command line and the throughput cache use it: the writer over a fixed buffer and
  the reader of decimal numbers, both of the base library and therefore parameters, and the
  contracts the code relies on.
\<close>

section \<open>The writer over a buffer\<close>

text \<open>
  \<open>buffer_takes capacity contents s\<close> answers the request to append \<open>s\<close>; the other fields are
  the answers of the initialisation, of the test for an error and of the access to the data.
\<close>

record buffer_api =
  buffer_init :: "nat \<Rightarrow> bool"
  buffer_takes :: "nat \<Rightarrow> string \<Rightarrow> string \<Rightarrow> bool"
  buffer_error :: "nat \<Rightarrow> string \<Rightarrow> bool"
  buffer_data :: "nat \<Rightarrow> string \<Rightarrow> bool"

definition buffer_write :: "buffer_api \<Rightarrow> nat \<Rightarrow> string \<Rightarrow> string \<Rightarrow> string option" where
  "buffer_write api capacity contents s = (if buffer_takes api capacity contents s then Some (contents @ s) else None)"

definition buffer_contract :: "buffer_api \<Rightarrow> bool" where
  "buffer_contract api \<longleftrightarrow>
    (\<forall>capacity. buffer_init api capacity) \<and>
    (\<forall>capacity contents s. buffer_takes api capacity contents s \<longleftrightarrow> length contents + length s \<le> capacity) \<and>
    (\<forall>capacity contents. \<not> buffer_error api capacity contents \<and> buffer_data api capacity contents)"

definition plain_buffer :: buffer_api where
  "plain_buffer = \<lparr>buffer_init = (\<lambda>_. True), buffer_takes = (\<lambda>capacity contents s. length contents + length s \<le> capacity),
    buffer_error = (\<lambda>_ _. False), buffer_data = (\<lambda>_ _. True)\<rparr>"

lemma plain_buffer_contract: "buffer_contract plain_buffer"
  by (simp add: buffer_contract_def plain_buffer_def)

section \<open>Decimal numbers\<close>

definition is_decimal :: "char \<Rightarrow> bool" where
  "is_decimal c \<longleftrightarrow> 48 \<le> (of_char c :: nat) \<and> (of_char c :: nat) \<le> 57"

definition decimal_value :: "string \<Rightarrow> nat" where
  "decimal_value s = foldl (\<lambda>n c. 10 * n + (of_char c - 48)) 0 s"

definition decimal_digit :: "nat \<Rightarrow> char" where
  "decimal_digit d = char_of (48 + d)"

fun decimal_text :: "nat \<Rightarrow> string" where
  "decimal_text n = (if n < 10 then [decimal_digit n] else decimal_text (n div 10) @ [decimal_digit (n mod 10)])"

declare decimal_text.simps [simp del]

lemma decimal_digit:
  assumes "d < 10"
  shows "is_decimal (decimal_digit d)" and "of_char (decimal_digit d) - 48 = d"
  using assms by (simp_all add: is_decimal_def decimal_digit_def)

lemma decimal_value_text: "decimal_value (decimal_text n) = n"
proof (induction n rule: decimal_text.induct)
  case (1 n)
  then show ?case
    by (subst decimal_text.simps) (simp add: decimal_value_def decimal_digit(2))
qed

lemma decimal_text_digits: "\<forall>c \<in> set (decimal_text n). is_decimal c"
proof (induction n rule: decimal_text.induct)
  case (1 n)
  then show ?case by (subst decimal_text.simps) (simp add: decimal_digit(1))
qed

lemma decimal_text_nonempty: "decimal_text n \<noteq> []"
  by (subst decimal_text.simps) simp

text \<open>
  \<^verbatim>\<open>bc_core_parse_unsigned_integer_64_decimal\<close> reads the leading digits and says how many it
  read; it fails without a digit and when the value does not fit.
\<close>

type_synonym u64_parser = "string \<Rightarrow> (u64 \<times> nat) option"

definition parser_contract :: "u64_parser \<Rightarrow> bool" where
  "parser_contract parse \<longleftrightarrow>
    (\<forall>s. parse s =
      (let ds = takeWhile is_decimal s in
       if ds = [] \<or> decimal_value ds \<ge> 2 ^ 64 then None else Some (of_nat (decimal_value ds), length ds)))"

definition plain_parser :: u64_parser where
  "plain_parser s =
    (let ds = takeWhile is_decimal s in
     if ds = [] \<or> decimal_value ds \<ge> 2 ^ 64 then None else Some (of_nat (decimal_value ds), length ds))"

lemma plain_parser_contract: "parser_contract plain_parser"
  by (simp add: parser_contract_def plain_parser_def)

text \<open>A text that is read to its end: digits only, at least one, of a value that fits.\<close>

definition whole_number :: "string \<Rightarrow> bool" where
  "whole_number s \<longleftrightarrow> s \<noteq> [] \<and> (\<forall>c \<in> set s. is_decimal c) \<and> decimal_value s < 2 ^ 64"

lemma parser_contract_whole:
  assumes "parser_contract parse"
  shows "parse s = Some (n, length s) \<longleftrightarrow> whole_number s \<and> n = of_nat (decimal_value s)"
proof -
  let ?ds = "takeWhile is_decimal s"
  have run: "parse s = (if ?ds = [] \<or> decimal_value ?ds \<ge> 2 ^ 64 then None else Some (of_nat (decimal_value ?ds), length ?ds))"
    using assms unfolding parser_contract_def Let_def by blast
  show ?thesis
  proof (cases "\<forall>c \<in> set s. is_decimal c")
    case True
    then have ds: "?ds = s" by (simp add: takeWhile_eq_all_conv)
    show ?thesis unfolding run ds using True by (auto simp: whole_number_def)
  next
    case False
    then have "length ?ds \<noteq> length s"
      by (metis takeWhile_eq_all_conv takeWhile_eq_take take_all order_refl)
    then show ?thesis using False by (simp add: run whole_number_def)
  qed
qed

lemma parser_contract_read:
  assumes "parser_contract parse"
  shows "whole_number s \<Longrightarrow> parse s = Some (of_nat (decimal_value s), length s)"
    and "\<not> whole_number s \<Longrightarrow> parse s \<noteq> Some (n, length s)"
  using parser_contract_whole [OF assms] by auto

lemma whole_number_nonempty [simp]: "\<not> whole_number []"
  by (simp add: whole_number_def)

lemma of_nat_u64_eq_0: "n < 2 ^ 64 \<Longrightarrow> (of_nat n :: u64) = 0 \<longleftrightarrow> n = 0"
  by (simp add: word_of_nat_eq_0_iff) (metis dvd_imp_le linorder_not_less gr0I dvd_0_right)

lemma whole_number_text: "n < 2 ^ 64 \<Longrightarrow> whole_number (decimal_text n)"
  by (simp add: whole_number_def decimal_text_nonempty decimal_text_digits decimal_value_text)

end
