(* ===== verification/Throughput_Cache.thy ===== *)
theory Throughput_Cache
  imports Throughput Dup_Text Output "HOL-Library.Monad_Syntax"
begin

text \<open>
  \<^verbatim>\<open>src/bench/bc_duplicate_throughput_cache.c\<close>: the measured throughput is kept in a text file,
  together with the signature of the host it was measured on, and used again on that host only.
  The base library's line reader and writer, \<^verbatim>\<open>strtod\<close> and the system calls are parameters.
\<close>

section \<open>Definitions\<close>

definition SIGNATURE_CAPACITY :: nat where "SIGNATURE_CAPACITY = 256"
definition LINE_CAPACITY :: nat where "LINE_CAPACITY = 512"
definition EEXIST :: int where "EEXIST = 17"

text \<open>The part of a buffer up to its first NUL, which is the string the code goes on to use.\<close>

definition c_string :: "string \<Rightarrow> string" where
  "c_string s = takeWhile (\<lambda>c. c \<noteq> CHR 0x00) s"

definition skip_blanks :: "string \<Rightarrow> string" where
  "skip_blanks s = dropWhile (\<lambda>c. c = CHR '' '' \<or> c = CHR 0x09) s"

fun read_cpuinfo_lines :: "string \<Rightarrow> nat \<Rightarrow> string list \<Rightarrow> string option" where
  "read_cpuinfo_lines field_name value_capacity [] = None"
| "read_cpuinfo_lines field_name value_capacity (line # rest) =
    (if length line < length field_name then read_cpuinfo_lines field_name value_capacity rest
     else if take (length field_name) line \<noteq> field_name then read_cpuinfo_lines field_name value_capacity rest
     else
       (case skip_blanks (drop (length field_name) line) of
          [] \<Rightarrow> read_cpuinfo_lines field_name value_capacity rest
        | c # after_colon \<Rightarrow>
            if c \<noteq> CHR '':'' then read_cpuinfo_lines field_name value_capacity rest
            else Some (c_string (take (value_capacity - 1) (skip_blanks after_colon)))))"

text \<open>The host: the lines of \<^verbatim>\<open>/proc/cpuinfo\<close>, when it can be read, and the kernel's release.\<close>

record host =
  cpuinfo :: "string list option"
  uname_release :: "string option"

definition read_cpuinfo_field :: "host \<Rightarrow> string \<Rightarrow> nat \<Rightarrow> string option" where
  "read_cpuinfo_field h field_name value_capacity =
    Option.bind (cpuinfo h) (read_cpuinfo_lines field_name value_capacity)"

definition read_host_signature :: "host \<Rightarrow> nat \<Rightarrow> nat \<Rightarrow> nat \<Rightarrow> (string \<times> string \<times> string) option" where
  "read_host_signature h cpu_model_capacity microcode_capacity kernel_version_capacity = do {
    cpu_model \<leftarrow> read_cpuinfo_field h ''model name'' cpu_model_capacity;
    let microcode = (case read_cpuinfo_field h ''microcode'' microcode_capacity of None \<Rightarrow> [] | Some v \<Rightarrow> v);
    release \<leftarrow> uname_release h;
    Some (cpu_model, microcode, take (kernel_version_capacity - 1) (c_string release))
  }"

text \<open>
  The environment. \<open>strtod\<close> gives the number and how much of the text it took, \<open>double_text\<close>
  the text of a number with so many decimals, \<open>mkdir_errno\<close> is \<open>None\<close> when the directory is made,
  and \<open>flushed\<close> is what a failing flush leaves of the text.
\<close>

record 'd cache_env =
  strtod :: "string \<Rightarrow> 'd \<times> nat"
  double_text :: "'d \<Rightarrow> nat \<Rightarrow> string"
  cache_host :: host
  reader_lines :: "string \<Rightarrow> string list option"
  mkdir_errno :: "string \<Rightarrow> int option"
  create_ok :: "string \<Rightarrow> bool"
  writer_ready :: bool
  writer_answers :: "nat \<Rightarrow> bool"
  flush_ok :: bool
  flushed :: "string \<Rightarrow> string"
  close_ok :: bool
  cache_buffer :: buffer_api
  getenv :: "string \<Rightarrow> string option"

type_synonym files = "string \<Rightarrow> string option"

definition parse_double :: "'d cache_env \<Rightarrow> string \<Rightarrow> 'd option" where
  "parse_double env value_text = (case strtod env value_text of (parsed, taken) \<Rightarrow> if taken = 0 then None else Some parsed)"

record 'd load_state =
  cached_cpu_model :: string
  cached_microcode :: string
  cached_kernel_version :: string
  loaded :: "'d throughput_constants"
  xxh3_ok :: bool
  xxh128_ok :: bool
  sha256_ok :: bool
  memory_bandwidth_ok :: bool
  parallel_startup_ok :: bool
  per_file_cost_ok :: bool

definition load_double ::
  "'d option \<Rightarrow> (bool \<Rightarrow> 'd load_state \<Rightarrow> 'd load_state) \<Rightarrow> ('d \<Rightarrow> 'd throughput_constants \<Rightarrow> 'd throughput_constants)
    \<Rightarrow> 'd load_state \<Rightarrow> 'd load_state" where
  "load_double parsed set_flag set_value st =
    (case parsed of
       None \<Rightarrow> set_flag False st
     | Some d \<Rightarrow> set_flag True (st\<lparr>loaded := set_value d (loaded st)\<rparr>))"

definition load_line :: "'d cache_env \<Rightarrow> string \<Rightarrow> 'd load_state \<Rightarrow> 'd load_state" where
  "load_line env line st =
    (if length line \<ge> LINE_CAPACITY then st
     else if CHR ''='' \<notin> set line then st
     else
       (let key = c_string (takeWhile (\<lambda>c. c \<noteq> CHR ''='') line);
            bytes = tl (dropWhile (\<lambda>c. c \<noteq> CHR ''='') line);
            signature_part = c_string (take (SIGNATURE_CAPACITY - 1) bytes);
            number = parse_double env (c_string bytes) in
        if key = ''cpu_model'' then st\<lparr>cached_cpu_model := signature_part\<rparr>
        else if key = ''microcode'' then st\<lparr>cached_microcode := signature_part\<rparr>
        else if key = ''kernel_version'' then st\<lparr>cached_kernel_version := signature_part\<rparr>
        else if key = ''xxh3_gbps''
        then load_double number (\<lambda>b st. st\<lparr>xxh3_ok := b\<rparr>) (\<lambda>d c. c\<lparr>xxh3_gigabytes_per_second := d\<rparr>) st
        else if key = ''xxh128_gbps''
        then load_double number (\<lambda>b st. st\<lparr>xxh128_ok := b\<rparr>) (\<lambda>d c. c\<lparr>xxh128_gigabytes_per_second := d\<rparr>) st
        else if key = ''sha256_gbps''
        then load_double number (\<lambda>b st. st\<lparr>sha256_ok := b\<rparr>) (\<lambda>d c. c\<lparr>sha256_gigabytes_per_second := d\<rparr>) st
        else if key = ''mem_bw_gbps''
        then load_double number (\<lambda>b st. st\<lparr>memory_bandwidth_ok := b\<rparr>) (\<lambda>d c. c\<lparr>memory_bandwidth_gigabytes_per_second := d\<rparr>) st
        else if key = ''parallel_startup_us''
        then load_double number (\<lambda>b st. st\<lparr>parallel_startup_ok := b\<rparr>) (\<lambda>d c. c\<lparr>parallel_startup_overhead_microseconds := d\<rparr>) st
        else if key = ''per_file_cost_us''
        then load_double number (\<lambda>b st. st\<lparr>per_file_cost_ok := b\<rparr>) (\<lambda>d c. c\<lparr>per_file_cost_warm_microseconds := d\<rparr>) st
        else st))"

definition fresh_load :: "'d throughput_constants \<Rightarrow> 'd load_state" where
  "fresh_load constants = \<lparr>cached_cpu_model = [], cached_microcode = [], cached_kernel_version = [], loaded = constants,
    xxh3_ok = False, xxh128_ok = False, sha256_ok = False, memory_bandwidth_ok = False, parallel_startup_ok = False,
    per_file_cost_ok = False\<rparr>"

definition all_loaded :: "'d load_state \<Rightarrow> bool" where
  "all_loaded st \<longleftrightarrow> xxh3_ok st \<and> xxh128_ok st \<and> sha256_ok st \<and> memory_bandwidth_ok st \<and> parallel_startup_ok st \<and> per_file_cost_ok st"

text \<open>The constants are written as lines are read, also when the load fails in the end.\<close>

definition cache_load ::
  "'d cache_env \<Rightarrow> files \<Rightarrow> string \<Rightarrow> 'd throughput_constants \<Rightarrow> bool \<times> 'd throughput_constants" where
  "cache_load env fs path constants =
    (case Option.bind (fs path) (reader_lines env) of
       None \<Rightarrow> (False, constants)
     | Some lines \<Rightarrow>
         (let st = fold (load_line env) lines (fresh_load constants) in
          if \<not> all_loaded st then (False, loaded st)
          else
            (case read_host_signature (cache_host env) SIGNATURE_CAPACITY SIGNATURE_CAPACITY SIGNATURE_CAPACITY of
               None \<Rightarrow> (False, loaded st)
             | Some (current_cpu_model, current_microcode, current_kernel_version) \<Rightarrow>
                 (if cached_cpu_model st \<noteq> current_cpu_model then (False, loaded st)
                  else if cached_microcode st \<noteq> current_microcode then (False, loaded st)
                  else if cached_kernel_version st \<noteq> current_kernel_version then (False, loaded st)
                  else (True, loaded st)))))"

text \<open>The path up to its last slash, empty when there is none or it is the first character.\<close>

definition parent_directory :: "string \<Rightarrow> string" where
  "parent_directory path = rev (drop 1 (dropWhile (\<lambda>c. c \<noteq> CHR ''/'') (rev path)))"

definition ensure_parent_directory :: "'d cache_env \<Rightarrow> string \<Rightarrow> bool" where
  "ensure_parent_directory env path =
    (if length path + 1 > LINE_CAPACITY then False
     else if parent_directory path = [] then True
     else (case mkdir_errno env (parent_directory path) of None \<Rightarrow> True | Some err \<Rightarrow> err = EEXIST))"

definition cache_writes :: "'d cache_env \<Rightarrow> string \<times> string \<times> string \<Rightarrow> 'd throughput_constants \<Rightarrow> write_fn list" where
  "cache_writes env sig c = (case sig of (cpu_model, microcode, kernel_version) \<Rightarrow>
    [puts ''cpu_model='', puts cpu_model, puts [NEWLINE],
     puts ''microcode='', puts microcode, puts [NEWLINE],
     puts ''kernel_version='', puts kernel_version, puts [NEWLINE],
     puts ''xxh3_gbps='', puts (double_text env (xxh3_gigabytes_per_second c) 6), puts [NEWLINE],
     puts ''xxh128_gbps='', puts (double_text env (xxh128_gigabytes_per_second c) 6), puts [NEWLINE],
     puts ''sha256_gbps='', puts (double_text env (sha256_gigabytes_per_second c) 6), puts [NEWLINE],
     puts ''mem_bw_gbps='', puts (double_text env (memory_bandwidth_gigabytes_per_second c) 6), puts [NEWLINE],
     puts ''parallel_startup_us='', puts (double_text env (parallel_startup_overhead_microseconds c) 6), puts [NEWLINE],
     puts ''per_file_cost_us='', puts (double_text env (per_file_cost_warm_microseconds c) 6), puts [NEWLINE]])"

definition cache_store :: "'d cache_env \<Rightarrow> files \<Rightarrow> string \<Rightarrow> 'd throughput_constants \<Rightarrow> bool \<times> files" where
  "cache_store env fs path constants =
    (if \<not> ensure_parent_directory env path then (False, fs)
     else
       (case read_host_signature (cache_host env) SIGNATURE_CAPACITY SIGNATURE_CAPACITY SIGNATURE_CAPACITY of
          None \<Rightarrow> (False, fs)
        | Some sig \<Rightarrow>
            if \<not> create_ok env path then (False, fs)
            else if \<not> writer_ready env then (False, fs(path \<mapsto> []))
            else
              (case write_all (cache_writes env sig constants) \<lparr>accepts = writer_answers env, calls = 0, written = []\<rparr> of
                 (ok, w) \<Rightarrow>
                   (ok \<and> flush_ok env \<and> close_ok env,
                    fs(path \<mapsto> (if flush_ok env then written w else flushed env (written w)))))))"

definition compose_path :: "buffer_api \<Rightarrow> nat \<Rightarrow> string \<Rightarrow> string \<Rightarrow> string option" where
  "compose_path api path_capacity head_part tail_part =
    (if path_capacity = 0 then None
     else if \<not> buffer_init api (path_capacity - 1) then None
     else do {
       contents \<leftarrow> buffer_write api (path_capacity - 1) [] head_part;
       contents' \<leftarrow> buffer_write api (path_capacity - 1) contents tail_part;
       if buffer_error api (path_capacity - 1) contents' then None
       else if \<not> buffer_data api (path_capacity - 1) contents' then None
       else Some contents'
     })"

definition default_path :: "'d cache_env \<Rightarrow> nat \<Rightarrow> string option" where
  "default_path env path_capacity =
    (case getenv env ''XDG_CACHE_HOME'' of
       Some (c # cs) \<Rightarrow> compose_path (cache_buffer env) path_capacity (c # cs) ''/bc-duplicate/throughput.txt''
     | _ \<Rightarrow>
         (case getenv env ''HOME'' of
            Some (c # cs) \<Rightarrow> compose_path (cache_buffer env) path_capacity (c # cs) ''/.cache/bc-duplicate/throughput.txt''
          | _ \<Rightarrow> None))"

definition get_or_measure ::
  "'d doubles \<Rightarrow> 'd sorter \<Rightarrow> bench_env \<Rightarrow> 'd cache_env \<Rightarrow> files \<Rightarrow> 'd throughput_constants \<Rightarrow> bench_state
    \<Rightarrow> 'd throughput_constants option \<times> files \<times> bench_state" where
  "get_or_measure ops srt benv env fs uninitialised st =
    (let cache_path = default_path env LINE_CAPACITY;
         cached = (case cache_path of None \<Rightarrow> None
           | Some path \<Rightarrow> (case cache_load env fs path uninitialised of (ok, c) \<Rightarrow> if ok then Some c else None)) in
     case cached of
       Some c \<Rightarrow> (Some c, fs, st)
     | None \<Rightarrow>
         (case throughput_measure ops srt benv st of
            (None, st') \<Rightarrow> (None, fs, st')
          | (Some c, st') \<Rightarrow>
              (Some c, (case cache_path of None \<Rightarrow> fs | Some path \<Rightarrow> snd (cache_store env fs path c)), st')))"

section \<open>Storing and loading\<close>

text \<open>
  What the code relies on: the reader gives back short lines, and a number written with six
  decimals is read whole, as that number rounded by \<open>rnd\<close>.
\<close>

definition cache_contract :: "'d cache_env \<Rightarrow> ('d \<Rightarrow> 'd) \<Rightarrow> bool" where
  "cache_contract env rnd \<longleftrightarrow>
    (\<forall>ls. (\<forall>l \<in> set ls. NEWLINE \<notin> set l \<and> length l < LINE_CAPACITY) \<longrightarrow>
      reader_lines env (concat (map (\<lambda>l. l @ [NEWLINE]) ls)) = Some ls) \<and>
    (\<forall>x. strtod env (double_text env x 6) = (rnd x, length (double_text env x 6)) \<and> double_text env x 6 \<noteq> [] \<and>
      NEWLINE \<notin> set (double_text env x 6) \<and> CHR 0x00 \<notin> set (double_text env x 6) \<and> length (double_text env x 6) < 400)"

definition host_in_lines :: "host \<Rightarrow> bool" where
  "host_in_lines h \<longleftrightarrow>
    (\<forall>ls. cpuinfo h = Some ls \<longrightarrow> (\<forall>l \<in> set ls. NEWLINE \<notin> set l)) \<and>
    (\<forall>r. uname_release h = Some r \<longrightarrow> NEWLINE \<notin> set r)"

abbreviation host_signature :: "'d cache_env \<Rightarrow> (string \<times> string \<times> string) option" where
  "host_signature env \<equiv> read_host_signature (cache_host env) SIGNATURE_CAPACITY SIGNATURE_CAPACITY SIGNATURE_CAPACITY"

definition map_constants :: "('d \<Rightarrow> 'd) \<Rightarrow> 'd throughput_constants \<Rightarrow> 'd throughput_constants" where
  "map_constants f c = \<lparr>xxh3_gigabytes_per_second = f (xxh3_gigabytes_per_second c),
    xxh128_gigabytes_per_second = f (xxh128_gigabytes_per_second c),
    sha256_gigabytes_per_second = f (sha256_gigabytes_per_second c),
    memory_bandwidth_gigabytes_per_second = f (memory_bandwidth_gigabytes_per_second c),
    parallel_startup_overhead_microseconds = f (parallel_startup_overhead_microseconds c),
    per_file_cost_warm_microseconds = f (per_file_cost_warm_microseconds c)\<rparr>"

definition plain_text :: "nat \<Rightarrow> string \<Rightarrow> bool" where
  "plain_text n s \<longleftrightarrow> length s < n \<and> NEWLINE \<notin> set s \<and> CHR 0x00 \<notin> set s"

lemma c_string_plain: "CHR 0x00 \<notin> set s \<Longrightarrow> c_string s = s"
  unfolding c_string_def by (rule takeWhile_eq_all_conv [THEN iffD2]) auto

lemma c_string_chars: "CHR 0x00 \<notin> set (c_string s)" and c_string_subset: "set (c_string s) \<subseteq> set s"
    and length_c_string: "length (c_string s) \<le> length s"
  by (auto simp: c_string_def length_takeWhile_le dest: set_takeWhileD)

lemma skip_blanks_subset: "set (skip_blanks s) \<subseteq> set s"
  by (auto simp: skip_blanks_def dest: set_dropWhileD)

lemma cpuinfo_field_plain:
  "read_cpuinfo_lines field n ls = Some v \<Longrightarrow> 0 < n \<Longrightarrow> \<forall>l \<in> set ls. NEWLINE \<notin> set l \<Longrightarrow> plain_text n v"
proof (induction ls)
  case (Cons line rest)
  show ?case
  proof (cases "read_cpuinfo_lines field n rest = Some v")
    case True
    then show ?thesis using Cons by simp
  next
    case False
    then obtain c after where after: "skip_blanks (drop (length field) line) = c # after"
      and v: "v = c_string (take (n - 1) (skip_blanks after))"
      using Cons.prems(1) by (auto split: if_splits list.splits)
    have "set v \<subseteq> set (skip_blanks (drop (length field) line))"
      unfolding v after using c_string_subset skip_blanks_subset set_take_subset by (metis (no_types, lifting) order_trans set_subset_Cons)
    also have "\<dots> \<subseteq> set line" using skip_blanks_subset set_drop_subset by (metis order_trans)
    finally have "NEWLINE \<notin> set v" using Cons.prems(3) by auto
    moreover have "length v < n"
      using length_c_string [of "take (n - 1) (skip_blanks after)"] Cons.prems(2) unfolding v by (simp, linarith)
    ultimately show ?thesis using c_string_chars by (auto simp: plain_text_def v)
  qed
qed simp

lemma host_signature_plain:
  assumes "read_host_signature h n n n = Some (model, code, release)" and "host_in_lines h" and "0 < n"
  shows "plain_text n model" and "plain_text n code" and "plain_text n release"
proof -
  have field: "plain_text n v" if "read_cpuinfo_field h field n = Some v" for field v
    using that assms(2,3) cpuinfo_field_plain
    by (auto simp: read_cpuinfo_field_def host_in_lines_def bind_eq_Some_conv)
  show "plain_text n model"
    using assms(1) field by (auto simp: read_host_signature_def bind_eq_Some_conv Let_def)
  show "plain_text n code"
    using assms(1,3) field
    by (auto simp: read_host_signature_def bind_eq_Some_conv Let_def plain_text_def split: option.splits)
  obtain r where r: "uname_release h = Some r" "release = take (n - 1) (c_string r)"
    using assms(1) by (auto simp: read_host_signature_def bind_eq_Some_conv Let_def)
  then show "plain_text n release"
    using assms(2,3) c_string_subset [of r] c_string_chars [of r] set_take_subset [of "n - 1" "c_string r"]
    by (auto simp: plain_text_def host_in_lines_def)
qed

definition cache_lines :: "'d cache_env \<Rightarrow> string \<times> string \<times> string \<Rightarrow> 'd throughput_constants \<Rightarrow> string list" where
  "cache_lines env sig c = (case sig of (cpu_model, microcode, kernel_version) \<Rightarrow>
    [''cpu_model='' @ cpu_model, ''microcode='' @ microcode, ''kernel_version='' @ kernel_version,
     ''xxh3_gbps='' @ double_text env (xxh3_gigabytes_per_second c) 6,
     ''xxh128_gbps='' @ double_text env (xxh128_gigabytes_per_second c) 6,
     ''sha256_gbps='' @ double_text env (sha256_gigabytes_per_second c) 6,
     ''mem_bw_gbps='' @ double_text env (memory_bandwidth_gigabytes_per_second c) 6,
     ''parallel_startup_us='' @ double_text env (parallel_startup_overhead_microseconds c) 6,
     ''per_file_cost_us='' @ double_text env (per_file_cost_warm_microseconds c) 6])"

lemma cache_writes_emit:
  "emits (write_all (cache_writes env sig c)) (concat (map (\<lambda>l. l @ [NEWLINE]) (cache_lines env sig c)))"
proof -
  have "list_all2 emits (map puts ts) ts" for ts
    by (simp add: list.rel_map list.rel_refl emits_puts)
  then have all: "emits (write_all (map puts ts)) (concat ts)" for ts
    by (rule emits_write_all)
  show ?thesis
    using all [of "concat (map (\<lambda>(key, text). [key, text, [NEWLINE]])
      [(''cpu_model='', fst sig), (''microcode='', fst (snd sig)), (''kernel_version='', snd (snd sig)),
       (''xxh3_gbps='', double_text env (xxh3_gigabytes_per_second c) 6),
       (''xxh128_gbps='', double_text env (xxh128_gigabytes_per_second c) 6),
       (''sha256_gbps='', double_text env (sha256_gigabytes_per_second c) 6),
       (''mem_bw_gbps='', double_text env (memory_bandwidth_gigabytes_per_second c) 6),
       (''parallel_startup_us='', double_text env (parallel_startup_overhead_microseconds c) 6),
       (''per_file_cost_us='', double_text env (per_file_cost_warm_microseconds c) 6)])"]
    by (cases sig) (simp add: cache_writes_def cache_lines_def)
qed

lemma load_line_key:
  assumes "CHR ''='' \<notin> set key" and "CHR 0x00 \<notin> set key" and "plain_text n v" and "length key + 1 + n \<le> LINE_CAPACITY"
  shows "load_line env (key @ CHR ''='' # v) st =
    (let signature_part = take (SIGNATURE_CAPACITY - 1) v; number = parse_double env v in
     if key = ''cpu_model'' then st\<lparr>cached_cpu_model := signature_part\<rparr>
     else if key = ''microcode'' then st\<lparr>cached_microcode := signature_part\<rparr>
     else if key = ''kernel_version'' then st\<lparr>cached_kernel_version := signature_part\<rparr>
     else if key = ''xxh3_gbps''
     then load_double number (\<lambda>b st. st\<lparr>xxh3_ok := b\<rparr>) (\<lambda>d c. c\<lparr>xxh3_gigabytes_per_second := d\<rparr>) st
     else if key = ''xxh128_gbps''
     then load_double number (\<lambda>b st. st\<lparr>xxh128_ok := b\<rparr>) (\<lambda>d c. c\<lparr>xxh128_gigabytes_per_second := d\<rparr>) st
     else if key = ''sha256_gbps''
     then load_double number (\<lambda>b st. st\<lparr>sha256_ok := b\<rparr>) (\<lambda>d c. c\<lparr>sha256_gigabytes_per_second := d\<rparr>) st
     else if key = ''mem_bw_gbps''
     then load_double number (\<lambda>b st. st\<lparr>memory_bandwidth_ok := b\<rparr>) (\<lambda>d c. c\<lparr>memory_bandwidth_gigabytes_per_second := d\<rparr>) st
     else if key = ''parallel_startup_us''
     then load_double number (\<lambda>b st. st\<lparr>parallel_startup_ok := b\<rparr>) (\<lambda>d c. c\<lparr>parallel_startup_overhead_microseconds := d\<rparr>) st
     else if key = ''per_file_cost_us''
     then load_double number (\<lambda>b st. st\<lparr>per_file_cost_ok := b\<rparr>) (\<lambda>d c. c\<lparr>per_file_cost_warm_microseconds := d\<rparr>) st
     else st)"
proof -
  have neq: "\<forall>c \<in> set key. c \<noteq> CHR ''=''" using assms(1) by auto
  have key: "takeWhile (\<lambda>c. c \<noteq> CHR ''='') (key @ CHR ''='' # v) = key"
    and rest: "dropWhile (\<lambda>c. c \<noteq> CHR ''='') (key @ CHR ''='' # v) = CHR ''='' # v"
    using neq by (simp_all add: takeWhile_append2 dropWhile_append2)
  have plain: "CHR 0x00 \<notin> set v" "CHR 0x00 \<notin> set (take k v)" for k
    using assms(3) by (auto simp: plain_text_def dest: in_set_takeD)
  have "length (key @ CHR ''='' # v) < LINE_CAPACITY" using assms(3,4) by (simp add: plain_text_def)
  then show ?thesis
    by (simp add: load_line_def key rest c_string_plain plain assms(2) not_le Let_def)
qed

text \<open>The lines of a stored cache, loaded one after the other.\<close>

lemma load_cache_lines:
  assumes "cache_contract env rnd" and "plain_text SIGNATURE_CAPACITY model" and "plain_text SIGNATURE_CAPACITY code"
    and "plain_text SIGNATURE_CAPACITY release"
  shows "fold (load_line env) (cache_lines env (model, code, release) c) (fresh_load c0) =
    \<lparr>cached_cpu_model = model, cached_microcode = code, cached_kernel_version = release, loaded = map_constants rnd c,
     xxh3_ok = True, xxh128_ok = True, sha256_ok = True, memory_bandwidth_ok = True, parallel_startup_ok = True,
     per_file_cost_ok = True\<rparr>"
proof -
  have number: "parse_double env (double_text env x 6) = Some (rnd x)" "plain_text 400 (double_text env x 6)" for x
    using assms(1) by (simp_all add: cache_contract_def parse_double_def plain_text_def)
  have short: "take (SIGNATURE_CAPACITY - 1) s = s" if "plain_text SIGNATURE_CAPACITY s" for s
    using that by (simp add: plain_text_def SIGNATURE_CAPACITY_def)
  note key = load_line_key [where n = SIGNATURE_CAPACITY] load_line_key [where n = 400]
  have text_line: "load_line env (''cpu_model='' @ model) st = st\<lparr>cached_cpu_model := model\<rparr>"
    "load_line env (''microcode='' @ code) st = st\<lparr>cached_microcode := code\<rparr>"
    "load_line env (''kernel_version='' @ release) st = st\<lparr>cached_kernel_version := release\<rparr>" for st
    using key(1) [of "''cpu_model''" model env st] key(1) [of "''microcode''" code env st]
      key(1) [of "''kernel_version''" release env st] assms(2-4) short
    by (simp_all add: LINE_CAPACITY_def SIGNATURE_CAPACITY_def)
  have number_line:
    "load_line env (''xxh3_gbps='' @ double_text env x 6) st =
      st\<lparr>loaded := (loaded st)\<lparr>xxh3_gigabytes_per_second := rnd x\<rparr>, xxh3_ok := True\<rparr>"
    "load_line env (''xxh128_gbps='' @ double_text env x 6) st =
      st\<lparr>loaded := (loaded st)\<lparr>xxh128_gigabytes_per_second := rnd x\<rparr>, xxh128_ok := True\<rparr>"
    "load_line env (''sha256_gbps='' @ double_text env x 6) st =
      st\<lparr>loaded := (loaded st)\<lparr>sha256_gigabytes_per_second := rnd x\<rparr>, sha256_ok := True\<rparr>"
    "load_line env (''mem_bw_gbps='' @ double_text env x 6) st =
      st\<lparr>loaded := (loaded st)\<lparr>memory_bandwidth_gigabytes_per_second := rnd x\<rparr>, memory_bandwidth_ok := True\<rparr>"
    "load_line env (''parallel_startup_us='' @ double_text env x 6) st =
      st\<lparr>loaded := (loaded st)\<lparr>parallel_startup_overhead_microseconds := rnd x\<rparr>, parallel_startup_ok := True\<rparr>"
    "load_line env (''per_file_cost_us='' @ double_text env x 6) st =
      st\<lparr>loaded := (loaded st)\<lparr>per_file_cost_warm_microseconds := rnd x\<rparr>, per_file_cost_ok := True\<rparr>" for x st
    using key(2) [of "''xxh3_gbps''" "double_text env x 6" env st] key(2) [of "''xxh128_gbps''" "double_text env x 6" env st]
      key(2) [of "''sha256_gbps''" "double_text env x 6" env st] key(2) [of "''mem_bw_gbps''" "double_text env x 6" env st]
      key(2) [of "''parallel_startup_us''" "double_text env x 6" env st]
      key(2) [of "''per_file_cost_us''" "double_text env x 6" env st] number
    by (simp_all add: LINE_CAPACITY_def load_double_def)
  show ?thesis
    by (simp add: cache_lines_def fresh_load_def map_constants_def text_line [simplified] number_line [simplified])
qed

lemma cache_lines_short:
  assumes "cache_contract env rnd" and "plain_text SIGNATURE_CAPACITY model" and "plain_text SIGNATURE_CAPACITY code"
    and "plain_text SIGNATURE_CAPACITY release" and "l \<in> set (cache_lines env (model, code, release) c)"
  shows "NEWLINE \<notin> set l \<and> length l < LINE_CAPACITY"
proof -
  have number: "NEWLINE \<notin> set (double_text env x 6)" "400 \<le> k \<Longrightarrow> length (double_text env x 6) < k" for x k
    using assms(1) by (auto simp: cache_contract_def intro: order_less_le_trans)
  have sig: "256 \<le> k \<Longrightarrow> length s < k" "NEWLINE \<notin> set s" if "plain_text SIGNATURE_CAPACITY s" for s k
    using that by (auto simp: plain_text_def SIGNATURE_CAPACITY_def)
  show ?thesis
    using assms(5) number sig [OF assms(2)] sig [OF assms(3)] sig [OF assms(4)]
    by (auto simp: cache_lines_def LINE_CAPACITY_def NEWLINE_def)
qed

section \<open>Properties\<close>

text \<open>C38
  A cache that was stored successfully loads again exactly on a host with the signature it was
  stored under, whatever else happens there; it then gives the stored numbers, each rounded to
  the six decimals of its text.
\<close>

theorem cache_roundtrip:
  assumes "cache_contract env rnd" and "host_in_lines (cache_host env)"
    and "cache_store env fs path c = (True, fs')"
    and "reader_lines env' = reader_lines env" and "strtod env' = strtod env" and "double_text env' = double_text env"
  shows "cache_load env' fs' path c0 = (host_signature env' = host_signature env, map_constants rnd c)"
proof -
  obtain model code release where sig: "host_signature env = Some (model, code, release)"
    using assms(3) by (auto simp: cache_store_def split: if_splits option.splits)
  let ?ls = "cache_lines env (model, code, release) c"
  have plain: "plain_text SIGNATURE_CAPACITY model" "plain_text SIGNATURE_CAPACITY code" "plain_text SIGNATURE_CAPACITY release"
    using host_signature_plain [OF sig assms(2)] by (simp_all add: SIGNATURE_CAPACITY_def)
  obtain w where run: "write_all (cache_writes env (model, code, release) c)
      \<lparr>accepts = writer_answers env, calls = 0, written = []\<rparr> = (True, w)" and fs': "fs' = fs(path \<mapsto> written w)"
    using assms(3) sig by (auto simp: cache_store_def split: if_splits prod.splits)
  have "written w = concat (map (\<lambda>l. l @ [NEWLINE]) ?ls)"
    using cache_writes_emit [of env "(model, code, release)" c] run
    unfolding emits_def by (metis append_Nil fst_conv snd_conv writer.select_convs(3))
  moreover have "reader_lines env (concat (map (\<lambda>l. l @ [NEWLINE]) ?ls)) = Some ?ls"
    using assms(1) cache_lines_short [OF assms(1) plain] unfolding cache_contract_def by blast
  ultimately have read: "Option.bind (fs' path) (reader_lines env') = Some ?ls"
    by (simp add: fs' assms(4))
  have same: "cache_lines env' s c = cache_lines env s c" for s by (simp add: cache_lines_def assms(6))
  have contract: "cache_contract env' rnd" using assms(1,4-6) by (simp add: cache_contract_def)
  show ?thesis
    using load_cache_lines [OF contract plain, of c c0]
    by (auto simp: cache_load_def read same all_loaded_def sig Let_def split: option.splits)
qed

section \<open>Witnesses\<close>

definition sample_cache :: "bool cache_env" where
  "sample_cache = \<lparr>strtod = (\<lambda>s. (s = ''1.000000'', length s)),
    double_text = (\<lambda>b _. if b then ''1.000000'' else ''0.000000''),
    cache_host = \<lparr>cpuinfo = Some [''model name : Zen 5'', ''microcode : 0x1''], uname_release = Some ''6.12''\<rparr>,
    reader_lines = (\<lambda>s. Some (butlast (text_lines s))), mkdir_errno = (\<lambda>_. Some EEXIST), create_ok = (\<lambda>_. True),
    writer_ready = True, writer_answers = (\<lambda>_. True), flush_ok = True, flushed = (\<lambda>_. []), close_ok = True,
    cache_buffer = plain_buffer, getenv = (\<lambda>_. None)\<rparr>"

lemma text_lines_concat:
  "\<forall>l \<in> set ls. NEWLINE \<notin> set l \<Longrightarrow> text_lines (concat (map (\<lambda>l. l @ [NEWLINE]) ls)) = ls @ [[]]"
  by (induction ls) (simp_all add: text_lines_line)

lemma sample_cache_contract: "cache_contract sample_cache (\<lambda>b. b)"
proof -
  have "NEWLINE \<notin> set ''1.000000''" "NEWLINE \<notin> set ''0.000000''" by (simp_all add: NEWLINE_def)
  then show ?thesis by (auto simp: cache_contract_def sample_cache_def text_lines_concat)
qed

definition bool_constants :: "bool throughput_constants" where
  "bool_constants = \<lparr>xxh3_gigabytes_per_second = True, xxh128_gigabytes_per_second = False,
    sha256_gigabytes_per_second = True, memory_bandwidth_gigabytes_per_second = False,
    parallel_startup_overhead_microseconds = True, per_file_cost_warm_microseconds = True\<rparr>"

definition other_kernel :: "bool cache_env" where
  "other_kernel = sample_cache\<lparr>cache_host := (cache_host sample_cache)\<lparr>uname_release := Some ''6.13''\<rparr>\<rparr>"

theorem cache_roundtrip_witness:
  "\<exists>fs'. cache_store sample_cache Map.empty ''/c/t'' bool_constants = (True, fs') \<and>
    cache_load sample_cache fs' ''/c/t'' bool_constants = (True, bool_constants) \<and>
    \<not> fst (cache_load other_kernel fs' ''/c/t'' bool_constants)"
proof -
  have sig: "host_signature sample_cache = Some (''Zen 5'', ''0x1'', ''6.12'')"
    "host_signature other_kernel = Some (''Zen 5'', ''0x1'', ''6.13'')"
    by (simp_all add: sample_cache_def other_kernel_def read_host_signature_def read_cpuinfo_field_def skip_blanks_def
        c_string_def SIGNATURE_CAPACITY_def)
  have host: "host_in_lines (cache_host sample_cache)"
    by (auto simp: host_in_lines_def sample_cache_def NEWLINE_def)
  have "\<forall>k. accepts \<lparr>accepts = writer_answers sample_cache, calls = 0, written = []\<rparr> k"
    by (simp add: sample_cache_def)
  then have "fst (write_all (cache_writes sample_cache (''Zen 5'', ''0x1'', ''6.12'') bool_constants)
      \<lparr>accepts = writer_answers sample_cache, calls = 0, written = []\<rparr>)"
    using cache_writes_emit unfolding emits_def by blast
  then obtain w where "write_all (cache_writes sample_cache (''Zen 5'', ''0x1'', ''6.12'') bool_constants)
      \<lparr>accepts = writer_answers sample_cache, calls = 0, written = []\<rparr> = (True, w)"
    by (metis prod.collapse)
  moreover have "ensure_parent_directory sample_cache ''/c/t''"
    by (simp add: ensure_parent_directory_def sample_cache_def LINE_CAPACITY_def)
  moreover have "create_ok sample_cache ''/c/t''" "writer_ready sample_cache" "flush_ok sample_cache" "close_ok sample_cache"
    by (simp_all add: sample_cache_def)
  ultimately obtain fs' where store: "cache_store sample_cache Map.empty ''/c/t'' bool_constants = (True, fs')"
    by (simp add: cache_store_def sig)
  have id: "map_constants (\<lambda>b. b) bool_constants = bool_constants"
    by (simp add: map_constants_def)
  have same: "reader_lines other_kernel = reader_lines sample_cache" "strtod other_kernel = strtod sample_cache"
    "double_text other_kernel = double_text sample_cache"
    by (simp_all add: other_kernel_def)
  show ?thesis
    using store cache_roundtrip [OF sample_cache_contract host store refl refl refl, of bool_constants]
      cache_roundtrip [OF sample_cache_contract host store same, of bool_constants]
    by (auto simp: id sig)
qed

end
