(* ===== verification/Application.thy ===== *)
theory Application
  imports Grouping_Hash Worker_Full Output Discovery_Parallel Throughput_Cache
begin

text \<open>
  \<^verbatim>\<open>src/bc_duplicate_main.c\<close>: the three callbacks of the application. The run composes discovery,
  the grouping and hashing passes and the report, with all early returns and the blocks each of
  them frees. What it logs to standard error is left out.
\<close>

section \<open>The environment and the state\<close>

text \<open>
  The answers to everything the application asks of the base library and the system, with the
  environments of its components.
\<close>

record ('x, 'c, 'd) app_env =
  memory_ok :: bool
  parallel_ok :: bool
  collector_created :: bool
  vector_created :: bool
  effective_workers :: u64
  walk_fuel :: nat
  discovery_env :: walk_env
  inode_set_created :: bool
  parallel_env :: par_env
  discovery_registered :: bool
  discovery_pools :: "nat \<Rightarrow> pool"
  interrupted :: bool
  entry_get_ok :: "nat \<Rightarrow> bool"
  entry_sorter :: "file_entry sorter"
  index_sorter :: "nat sorter"
  digest_compare :: byte_compare
  files_io :: file_io
  block_hash :: "u8 list \<Rightarrow> u64"
  fast_par :: par_for
  fast_stop :: "nat \<Rightarrow> bool"
  full_par :: par_for
  full_answers :: "('x, 'c) full_env"
  digest_api :: "('x, 'c) hash_api"
  slots_registered :: bool
  full_stop :: "nat \<Rightarrow> bool"
  full_pools :: "nat \<Rightarrow> pool"
  double_ops :: "'d doubles"
  double_sorter :: "'d sorter"
  bench_answers :: bench_env
  cache_answers :: "'d cache_env"
  stale_constants :: "'d throughput_constants"
  clock_started :: "(int \<times> int) option"
  clock_ended :: "(int \<times> int) option"
  output_opens :: "string \<Rightarrow> bool"
  stdout_is_tty :: bool
  output_writer_created :: bool
  output_answers :: "nat \<Rightarrow> bool"
  output_flushed :: bool
  numbers :: number_format
  release_worker_path :: "pool \<Rightarrow> pool"

datatype output_target = Standard_output | Output_file string

text \<open>
  \<open>entry_paths\<close> tells, for each entry, the block of the main pool its path is kept in; a path a
  discovery worker copied is in a pool of its own (\<open>None\<close>). \<open>report\<close> is the text handed to the
  writer of the report and where it goes.
\<close>

record app_state =
  app_options :: cli_options
  app_entries :: "file_entry list option"
  entry_paths :: "nat option list"
  app_filter :: "path_filter option"
  app_errors :: "(string \<times> string \<times> int) list option"
  exit_code :: int
  app_pool :: pool
  cache_files :: files
  report :: "(output_target \<times> string) option"

definition main_monotonic_ms :: "(int \<times> int) option \<Rightarrow> u64" where
  "main_monotonic_ms reading =
    (case reading of
       None \<Rightarrow> 0
     | Some (tv_sec, tv_nsec) \<Rightarrow> of_int tv_sec * 1000 + of_int (tv_nsec div 1000000))"

section \<open>Initialisation\<close>

definition application_init :: "('x, 'c, 'd) app_env \<Rightarrow> app_state \<Rightarrow> bool \<times> app_state" where
  "application_init env st =
    (if \<not> memory_ok env then (False, st\<lparr>exit_code := 1\<rparr>)
     else if \<not> collector_created env then (False, st\<lparr>exit_code := 1\<rparr>)
     else
       (let st1 = st\<lparr>app_errors := Some []\<rparr> in
        if \<not> vector_created env then (False, st1\<lparr>exit_code := 1\<rparr>)
        else
          (let st2 = st1\<lparr>app_entries := Some []\<rparr>;
               opts = app_options st2 in
           if include_list opts \<noteq> None \<or> exclude_list opts \<noteq> None then
             (case filter_create (app_pool st2) (include_list opts) (exclude_list opts) of
                (None, m) \<Rightarrow> (False, st2\<lparr>app_pool := m, exit_code := 1\<rparr>)
              | (Some f, m) \<Rightarrow> (True, st2\<lparr>app_pool := m, app_filter := Some f\<rparr>))
           else (True, st2))))"

section \<open>Discovery\<close>

definition discovery_options_of :: "cli_options \<Rightarrow> discovery_options" where
  "discovery_options_of opts = \<lparr>walk_hidden = include_hidden opts, walk_follow = follow_symlinks opts,
    walk_one_fs = one_file_system opts, walk_minimum = minimum_file_size opts\<rparr>"

definition walk_env_of :: "('x, 'c, 'd) app_env \<Rightarrow> app_state \<Rightarrow> walk_env" where
  "walk_env_of env st =
    (discovery_env env)\<lparr>env_filter := app_filter st, env_options := discovery_options_of (app_options st)\<rparr>"

definition run_discovery :: "('x, 'c, 'd) app_env \<Rightarrow> app_state \<Rightarrow> (bool \<times> app_state) option" where
  "run_discovery env st =
    (let inputs = positional_argument_values (app_options st) in
     map_option
       (\<lambda>(ok, base). (ok, st\<lparr>app_pool := walk_memory base, app_entries := Some (found base),
          entry_paths := map Some (path_blocks base) @ replicate (length (found base) - length (path_blocks base)) None,
          app_errors := Some (walk_errors base)\<rparr>))
       (if effective_workers env \<ge> 2 then
          (case discovery_expand_parallel ((parallel_env env)\<lparr>par_walk := walk_env_of env st\<rparr>) (discovery_registered env)
                  (app_pool st) (discovery_pools env) inputs of
             (ok, par) \<Rightarrow> Some (ok, par_base par))
        else discovery_expand (walk_fuel env) (walk_env_of env st) (inode_set_created env) (app_pool st) inputs))"

section \<open>Hashing\<close>

definition full_pass_load :: "group list \<Rightarrow> u64 \<times> u64" where
  "full_pass_load gs = fold (\<lambda>g (file_count, total_bytes).
     (file_count + of_nat (entry_count g), total_bytes + of_nat (entry_count g) * group_file_size g)) gs (0, 0)"

definition initial_bench :: bench_state where
  "initial_bench = \<lparr>clock_reads = 0, benchmark_sink = 0, submitted = 0, probe_files = 0, probe_fds = 0\<rparr>"

definition force_single_thread ::
  "('x, 'c, 'd) app_env \<Rightarrow> cli_options \<Rightarrow> files \<Rightarrow> group list \<Rightarrow> bool \<times> files" where
  "force_single_thread env opts fs gs =
    (if opt_threads_mode opts \<noteq> THREADS_MODE_EXPLICIT \<and> opt_threads_mode opts \<noteq> THREADS_MODE_MONO then
       (case get_or_measure (double_ops env) (double_sorter env) (bench_answers env) (cache_answers env) fs
               (stale_constants env) initial_bench of
          (None, fs', _) \<Rightarrow> (False, fs')
        | (Some constants, fs', _) \<Rightarrow>
            (case full_pass_load gs of (file_count, total_bytes) \<Rightarrow>
               (\<not> should_go_multithread (double_ops env) file_count total_bytes (opt_algorithm opts) constants
                    (effective_workers env), fs')))
     else (False, fs))"

text \<open>What the hashing and grouping passes leave; the blocks are those of the two arrays of groups.\<close>

record hashed =
  final_entries :: "file_entry list"
  final_groups :: "group list"
  final_block :: "nat option"
  fast_block :: "nat option"
  fast_hashed :: nat
  full_hashed :: nat

definition run_hashing ::
  "('x, 'c, 'd) app_env \<Rightarrow> cli_options \<Rightarrow> pool \<Rightarrow> files \<Rightarrow> file_entry list \<Rightarrow> group list \<Rightarrow> (hashed option \<times> pool \<times> files) option" where
  "run_hashing env opts m fs entries size_groups =
    (case worker_fast_pass (index_sorter env) (fast_par env) (files_io env) (block_hash env) (fast_stop env) m entries size_groups of
       (ok, entries1, fast_files, m1) \<Rightarrow>
         if \<not> ok then Some (None, m1, fs)
         else
           (case grouping_by_fast_hash (entry_sorter env) m1 entries1 size_groups of
              (None, m2) \<Rightarrow> Some (None, m2, fs)
            | (Some fast, m2) \<Rightarrow>
                if out_groups fast = [] then
                  Some (Some \<lparr>final_entries = out_entries fast, final_groups = [], final_block = None,
                    fast_block = out_block fast, fast_hashed = fast_files, full_hashed = 0\<rparr>, m2, fs)
                else
                  (case force_single_thread env opts fs (out_groups fast) of (single, fs') \<Rightarrow>
                     (case worker_full_pass (index_sorter env) (full_par env) (files_io env) (full_answers env) (digest_api env)
                             (slots_registered env) (full_stop env) (full_pools env) m2 (opt_algorithm opts)
                             (out_entries fast) (out_groups fast) single of
                        None \<Rightarrow> None
                      | Some (ok, entries2, full_files, m3) \<Rightarrow>
                          if \<not> ok then Some (None, free_if_set (out_block fast) m3, fs')
                          else
                            (case grouping_by_full_hash (entry_sorter env) (digest_compare env) m3 entries2 (out_groups fast)
                                    (worker_digest_size (opt_algorithm opts)) of
                               (None, m4) \<Rightarrow> Some (None, free_if_set (out_block fast) m4, fs')
                             | (Some final, m4) \<Rightarrow>
                                 Some (Some \<lparr>final_entries = out_entries final, final_groups = out_groups final,
                                   final_block = out_block final, fast_block = out_block fast,
                                   fast_hashed = fast_files, full_hashed = full_files\<rparr>, m4, fs'))))))"

section \<open>The report\<close>

definition duplicate_totals :: "group list \<Rightarrow> u64 \<times> u64" where
  "duplicate_totals gs = fold (\<lambda>g (file_count, wasted).
     (let extra = of_nat (entry_count g) - 1 in (file_count + extra, wasted + extra * group_file_size g))) gs (0, 0)"

definition run_statistics :: "nat \<Rightarrow> size_out \<Rightarrow> hashed \<Rightarrow> u64 \<Rightarrow> statistics" where
  "run_statistics entry_total sizes h wall =
    (case duplicate_totals (final_groups h) of (file_count, wasted) \<Rightarrow>
      \<lparr>files_scanned = of_nat entry_total, directories_scanned = 0, files_skipped = 0,
       hardlinks_collapsed = of_nat (out_hardlinks_collapsed sizes), size_candidate_count = of_nat (out_candidate_count sizes),
       files_hashed_fast = of_nat (fast_hashed h), files_hashed_full = of_nat (full_hashed h),
       duplicate_group_count = of_nat (length (final_groups h)), duplicate_file_count = file_count,
       wasted_bytes = wasted, wall_ms = wall\<rparr>)"

definition choose_output :: "('x, 'c, 'd) app_env \<Rightarrow> cli_options \<Rightarrow> (output_target \<times> output_format) option" where
  "choose_output env opts =
    (if opt_command opts = COMMAND_SUMMARY then Some (Standard_output, OUTPUT_FORMAT_SIMPLE)
     else
       (case opt_output_destination_mode opts of
          OUTPUT_DESTINATION_FILE \<Rightarrow>
            (let path = the (output_destination_path opts) in
             if output_opens env path then Some (Output_file path, OUTPUT_FORMAT_JSON) else None)
        | OUTPUT_DESTINATION_AUTO \<Rightarrow>
            Some (Standard_output, if stdout_is_tty env then OUTPUT_FORMAT_SIMPLE else OUTPUT_FORMAT_JSON)
        | OUTPUT_DESTINATION_STDOUT \<Rightarrow> Some (Standard_output, OUTPUT_FORMAT_SIMPLE)))"

definition report_writer :: "('x, 'c, 'd) app_env \<Rightarrow> cli_options \<Rightarrow> output_format \<Rightarrow> hashed \<Rightarrow> statistics \<Rightarrow> write_fn" where
  "report_writer env opts format h stats =
    (if opt_command opts = COMMAND_SUMMARY then output_summary_write (numbers env) stats
     else if format = OUTPUT_FORMAT_JSON
     then output_json_write (numbers env) (opt_algorithm opts) (final_entries h) (final_groups h) stats
     else output_simple_write (final_entries h) (final_groups h))"

definition write_report :: "('x, 'c, 'd) app_env \<Rightarrow> write_fn \<Rightarrow> bool \<times> string" where
  "write_report env f =
    (if \<not> output_writer_created env then (False, [])
     else
       (case f \<lparr>accepts = output_answers env, calls = 0, written = []\<rparr> of
          (ok, w) \<Rightarrow> (if \<not> output_flushed env then False else ok, written w)))"

section \<open>The run\<close>

definition run_grouping :: "('x, 'c, 'd) app_env \<Rightarrow> app_state \<Rightarrow> (bool \<times> app_state) option" where
  "run_grouping env st =
    (let opts = app_options st; entries = the (app_entries st) in
     case pool_allocate (app_pool st) of
       (None, m) \<Rightarrow> Some (False, st\<lparr>app_pool := m, exit_code := 1\<rparr>)
     | (Some entries_block, m) \<Rightarrow>
         if list_ex (\<lambda>index. \<not> entry_get_ok env index) [0 ..< length entries]
         then Some (False, st\<lparr>app_pool := pool_free entries_block m, exit_code := 1\<rparr>)
         else
           (case grouping_by_size (entry_sorter env) m entries (match_hardlinks opts) of
              (None, m1) \<Rightarrow> Some (False, st\<lparr>app_pool := pool_free entries_block m1, exit_code := 1\<rparr>)
            | (Some sizes, m1) \<Rightarrow>
                if out_groups sizes = []
                then Some (True, st\<lparr>app_pool := pool_free entries_block (free_if_set (out_block sizes) m1), exit_code := 0\<rparr>)
                else
                  (case run_hashing env opts m1 (cache_files st) (out_entries sizes) (out_groups sizes) of
                     None \<Rightarrow> None
                   | Some (None, m2, fs) \<Rightarrow>
                       Some (False, st\<lparr>app_pool := pool_free entries_block (free_if_set (out_block sizes) m2),
                         cache_files := fs, exit_code := 1\<rparr>)
                   | Some (Some h, m2, fs) \<Rightarrow>
                       (let stats = run_statistics (length entries) sizes h
                              (main_monotonic_ms (clock_ended env) - main_monotonic_ms (clock_started env));
                            m3 = pool_free entries_block (free_if_set (out_block sizes)
                                   (free_if_set (fast_block h) (free_if_set (final_block h) m2))) in
                        case choose_output env opts of
                          None \<Rightarrow> Some (False, st\<lparr>app_pool := m3, cache_files := fs, exit_code := 1\<rparr>)
                        | Some (target, format) \<Rightarrow>
                            (case write_report env (report_writer env opts format h stats) of
                               (output_ok, text) \<Rightarrow>
                                 Some (True, st\<lparr>app_pool := m3, cache_files := fs, report := Some (target, text),
                                   exit_code := (if output_ok then 0 else 1)\<rparr>))))))"

definition application_run :: "('x, 'c, 'd) app_env \<Rightarrow> app_state \<Rightarrow> (bool \<times> app_state) option" where
  "application_run env st =
    (if \<not> memory_ok env then Some (False, st\<lparr>exit_code := 1\<rparr>)
     else if \<not> parallel_ok env then Some (False, st\<lparr>exit_code := 1\<rparr>)
     else
       (case run_discovery env st of
          None \<Rightarrow> None
        | Some (discovery_ok, st1) \<Rightarrow>
            if \<not> discovery_ok then Some (False, st1\<lparr>exit_code := 1\<rparr>)
            else if interrupted env then Some (False, st1\<lparr>exit_code := 130\<rparr>)
            else if the (app_entries st1) = []
            then Some (True, st1\<lparr>exit_code := (if the (app_errors st1) = [] then 0 else 1)\<rparr>)
            else run_grouping env st1))"

section \<open>Cleanup\<close>

fun free_paths :: "('x, 'c, 'd) app_env \<Rightarrow> nat option list \<Rightarrow> nat \<Rightarrow> pool \<Rightarrow> pool" where
  "free_paths env [] index m = m"
| "free_paths env (block # blocks) index m =
    free_paths env blocks (Suc index)
      (if entry_get_ok env index
       then (case block of Some b \<Rightarrow> pool_free b m | None \<Rightarrow> release_worker_path env m)
       else m)"

definition application_cleanup :: "('x, 'c, 'd) app_env \<Rightarrow> app_state \<Rightarrow> app_state" where
  "application_cleanup env st =
    (if \<not> memory_ok env then st
     else
       (let st1 = (case app_filter st of None \<Rightarrow> st
              | Some f \<Rightarrow> st\<lparr>app_pool := filter_destroy f (app_pool st), app_filter := None\<rparr>);
            st2 = (case app_entries st1 of None \<Rightarrow> st1
              | Some _ \<Rightarrow> st1\<lparr>app_pool := free_paths env (entry_paths st1) 0 (app_pool st1), app_entries := None, entry_paths := []\<rparr>) in
        st2\<lparr>app_errors := None\<rparr>))"

text \<open>The state \<^verbatim>\<open>main\<close> starts from: everything but the options and the pool is zero.\<close>

definition initial_app :: "cli_options \<Rightarrow> pool \<Rightarrow> files \<Rightarrow> app_state" where
  "initial_app opts m fs = \<lparr>app_options = opts, app_entries = None, entry_paths = [], app_filter = None, app_errors = None,
    exit_code = 0, app_pool = m, cache_files = fs, report = None\<rparr>"

end
