(* ===== verification/Passes.thy ===== *)
theory Passes
  imports Application
begin

text \<open>
  The composition of the passes: what the fast pass, the full pass and the groupings between
  them make of groups of files that keep still, and what they make of them when the full pass is
  skipped.
\<close>

section \<open>What the passes compute together\<close>

text \<open>
  The setting in which nothing disturbs the passes: sorts, loops, hash functions and rings meet
  their contracts, no signal arrives, and what can be set up is set up.
\<close>

definition pipeline_setting :: "('x, 'c, 'd) app_env \<Rightarrow> digests \<Rightarrow> (string \<Rightarrow> file_answer) \<Rightarrow> bool" where
  "pipeline_setting env ds disk \<longleftrightarrow>
    sort_contract (entry_sorter env) \<and> compare_contract (digest_compare env) \<and>
    full_setting (index_sorter env) (full_par env) (files_io env) (full_answers env) (digest_api env) ds
      (full_stop env) (full_pools env) disk \<and>
    par_contract (fast_par env) \<and> (\<forall>n. snd (fast_par env n)) \<and> (\<forall>n. snd (full_par env n)) \<and>
    (\<forall>i. \<not> fast_stop env i) \<and> slots_registered env"

text \<open>
  What the fast pass relies on, when a signal stops either none of its iterations or, because it
  arrived before, all of them.
\<close>

definition fast_setting :: "('x, 'c, 'd) app_env \<Rightarrow> bool" where
  "fast_setting env \<longleftrightarrow>
    sort_contract (entry_sorter env) \<and> sort_contract (index_sorter env) \<and> par_contract (fast_par env) \<and>
    (\<forall>n. snd (fast_par env n)) \<and> (\<forall>i. fast_stop env i = fast_stop env 0)"

definition fast_result :: "('x, 'c, 'd) app_env \<Rightarrow> file_entry \<Rightarrow> file_entry" where
  "fast_result env e = (if fast_stop env 0 then e else fast_hash_entry (files_io env) (block_hash env) e)"

lemma fast_result_unstopped: "pipeline_setting env ds disk \<Longrightarrow> fast_result env = fast_hash_entry (files_io env) (block_hash env)"
  by (auto simp: pipeline_setting_def fast_result_def)

lemma pipeline_setting_fast: "pipeline_setting env ds disk \<Longrightarrow> fast_setting env"
  by (simp add: pipeline_setting_def fast_setting_def full_setting_def)

definition hashed_entry :: "('x, 'c, 'd) app_env \<Rightarrow> digests \<Rightarrow> (string \<Rightarrow> file_answer) \<Rightarrow> algorithm \<Rightarrow> file_entry \<Rightarrow> file_entry" where
  "hashed_entry env ds disk alg e = full_hash_entry ds alg disk (fast_hash_entry (files_io env) (block_hash env) e)"

text \<open>The digest of what a path yields: zeros when it cannot be opened.\<close>

definition answer_digest :: "digests \<Rightarrow> algorithm \<Rightarrow> file_answer \<Rightarrow> u8 list" where
  "answer_digest ds alg ans =
    (case ans of
       Inl _ \<Rightarrow> replicate (worker_digest_size alg) 0
     | Inr content \<Rightarrow> take (worker_digest_size alg) (full_digest ds alg content))"

text \<open>Two entries the passes cannot tell apart: equal block hashes and equal digests.\<close>

definition same_hashes :: "('x, 'c, 'd) app_env \<Rightarrow> digests \<Rightarrow> (string \<Rightarrow> file_answer) \<Rightarrow> algorithm \<Rightarrow> file_entry \<Rightarrow> file_entry \<Rightarrow> bool" where
  "same_hashes env ds disk alg x y \<longleftrightarrow>
    fast_answer (block_hash env) (disk (absolute_path x)) = fast_answer (block_hash env) (disk (absolute_path y)) \<and>
    answer_digest ds alg (disk (absolute_path x)) = answer_digest ds alg (disk (absolute_path y))"

text \<open>An entry whose file keeps still and whose digest has not been computed.\<close>

definition ready_entry :: "('x, 'c, 'd) app_env \<Rightarrow> (string \<Rightarrow> file_answer) \<Rightarrow> file_entry \<Rightarrow> bool" where
  "ready_entry env disk e \<longleftrightarrow> keeps_still (files_io env) disk e \<and> full_hash e = replicate MAX_DIGEST_SIZE 0"

lemma fast_hash_entry_identity:
  "absolute_path (fast_hash_entry io xxh e) = absolute_path e" "file_size (fast_hash_entry io xxh e) = file_size e"
  "full_hash (fast_hash_entry io xxh e) = full_hash e"
  by (simp_all add: fast_hash_entry_def Let_def split: sum.splits)

lemma fast_result_identity [simp]:
  "absolute_path (fast_result env e) = absolute_path e" "file_size (fast_result env e) = file_size e"
  "full_hash (fast_result env e) = full_hash e"
  by (simp_all add: fast_result_def fast_hash_entry_identity)

lemma hashed_entry_path [simp]: "absolute_path (hashed_entry env ds disk alg e) = absolute_path e"
  by (simp add: hashed_entry_def fast_hash_entry_identity)

lemma keeps_still_fast: "keeps_still io disk (fast_hash_entry io xxh e) = keeps_still io disk e"
  by (simp add: keeps_still_def fast_hash_entry_identity)

lemma dup_classes_cong:
  assumes "\<And>x y. x \<in># M \<Longrightarrow> y \<in># M \<Longrightarrow> s x y = t x y"
  shows "dup_classes s M = dup_classes t M"
proof -
  have "filter_mset (s x) M = filter_mset (t x) M" if "x \<in># M" for x
    using assms that by (intro filter_mset_cong) auto
  then show ?thesis unfolding dup_classes_def by (metis (no_types, lifting))
qed

lemma dup_classes_subset: "C \<in> dup_classes s M \<Longrightarrow> C \<subseteq># M"
  by (auto simp: dup_classes_def)

text \<open>The classes of the second equality within the images of the classes of the first.\<close>

lemma dup_classes_image_refine:
  assumes "equivp (\<lambda>x y. s (f x) (f y))" and "equivp (\<lambda>x y. t (g (f x)) (g (f y)))"
  shows "(\<Union>C \<in> dup_classes s (image_mset f M). dup_classes t (image_mset g C)) =
    image_mset (g \<circ> f) ` dup_classes (\<lambda>x y. s (f x) (f y) \<and> t (g (f x)) (g (f y))) M"
proof -
  have "(\<Union>C \<in> dup_classes s (image_mset f M). dup_classes t (image_mset g C)) =
      (\<Union>D \<in> dup_classes (\<lambda>x y. s (f x) (f y)) M. dup_classes t (image_mset (g \<circ> f) D))"
    by (simp add: dup_classes_image [of s f] image_mset.comp multiset.map_comp comp_def)
  also have "\<dots> = (\<Union>D \<in> dup_classes (\<lambda>x y. s (f x) (f y)) M.
      image_mset (g \<circ> f) ` dup_classes (\<lambda>x y. t (g (f x)) (g (f y))) D)"
    by (simp add: dup_classes_image [of t "g \<circ> f"])
  also have "\<dots> = image_mset (g \<circ> f) ` (\<Union>D \<in> dup_classes (\<lambda>x y. s (f x) (f y)) M.
      dup_classes (\<lambda>x y. t (g (f x)) (g (f y))) D)"
    by (rule image_UN [symmetric])
  finally show ?thesis unfolding dup_classes_refine [OF assms] .
qed

lemma candidate_in_members:
  assumes "groups_laid_out (length es) gs" and "j \<in> set (candidate_indices gs)"
  shows "\<exists>g \<in> set gs. es ! j \<in> set (members es g)"
proof -
  have "\<exists>g \<in> set gs. \<exists>k < entry_count g. j = start_index g + k"
    using assms(2) by (induction gs) (auto, metis add.commute add_less_cancel_left le_Suc_ex)
  then obtain g k where g: "g \<in> set gs" "k < entry_count g" "j = start_index g + k" by blast
  moreover have "start_index g + entry_count g \<le> length es" using groups_laid_out_in [OF assms(1) g(1)] .
  ultimately have "members es g ! k = es ! j" "k < length (members es g)"
    by (simp_all add: members_def nth_segment)
  then show ?thesis using g(1) nth_mem by metis
qed

lemma fast_hash_still:
  "keeps_still (files_io env) disk e \<Longrightarrow>
    fast_hash (fast_hash_entry (files_io env) (block_hash env) e) = fast_answer (block_hash env) (disk (absolute_path e))"
  using fast_hash_entry_answer [of "files_io env" e "disk (absolute_path e)" "block_hash env"]
  by (simp add: keeps_still_def)

lemma ready_entry_fast: "ready_entry env disk (fast_result env e) = ready_entry env disk e"
  by (simp add: ready_entry_def keeps_still_def)

lemma digest_of_ready:
  assumes "ready_entry env disk e"
  shows "digest_of (worker_digest_size alg) (hashed_entry env ds disk alg e) = answer_digest ds alg (disk (absolute_path e))"
  using assms
  by (cases alg; cases "disk (absolute_path e)")
    (simp_all add: ready_entry_def digest_of_def hashed_entry_def full_hash_entry_def fast_hash_entry_identity answer_digest_def
      worker_digest_size_def digest_size_defs MAX_DIGEST_SIZE_def)

lemma same_hashes_entry:
  assumes "ready_entry env disk x" and "ready_entry env disk y"
  shows "same_hashes env ds disk alg x y \<longleftrightarrow>
    same_fast_hash (fast_hash_entry (files_io env) (block_hash env) x) (fast_hash_entry (files_io env) (block_hash env) y) \<and>
    same_digest (worker_digest_size alg) (hashed_entry env ds disk alg x) (hashed_entry env ds disk alg y)"
proof -
  have "keeps_still (files_io env) disk x" "keeps_still (files_io env) disk y" using assms by (simp_all add: ready_entry_def)
  then show ?thesis using assms
    by (simp add: same_hashes_def same_fast_hash_def same_digest_def digest_of_ready fast_hash_still)
qed

text \<open>The fast pass: it succeeds, and the groups it leaves to the grouping hold the hashed entries.\<close>

lemma worker_fast_pass_returns:
  assumes "grants m = (\<lambda>_. True)" and "\<And>n. snd (par n)"
  shows "\<exists>es' k m'. worker_fast_pass srt par io xxh stop m es gs = (True, es', k, m') \<and> grants m' = (\<lambda>_. True)"
proof (cases "total_candidates gs = 0")
  case True
  then show ?thesis using assms(1) by (simp add: worker_fast_pass_def)
next
  case False
  obtain b m1 where alloc: "pool_allocate m = (Some b, m1)" "grants m1 = (\<lambda>_. True)"
    using pool_allocate_granted [OF assms(1)] assms(1) by metis
  obtain ord where "par (total_candidates gs) = (ord, True)" using assms(2) by (metis prod.collapse)
  then show ?thesis using False alloc by (simp add: worker_fast_pass_def Let_def)
qed

definition spans_ready ::
  "('x, 'c, 'd) app_env \<Rightarrow> (string \<Rightarrow> file_answer) \<Rightarrow> (file_entry \<Rightarrow> file_entry \<Rightarrow> bool) \<Rightarrow> file_entry list \<Rightarrow> group list \<Rightarrow> bool" where
  "spans_ready env disk same es gs \<longleftrightarrow>
    groups_apart same es gs \<and> (\<forall>g \<in> set gs. \<forall>e \<in> set (members es g). ready_entry env disk e)"

lemma spans_ready_groups:
  assumes "spans_ready env disk same es gs"
  shows "groups_apart same es gs" and "groups_laid_out (length es) gs"
  using assms by (simp_all add: spans_ready_def groups_apart_def groups_sized_def)

text \<open>The relation that tells groups apart after the fast pass.\<close>

definition same_candidate :: "file_entry \<Rightarrow> file_entry \<Rightarrow> bool" where
  "same_candidate x y \<longleftrightarrow> same_size x y \<and> same_fast_hash x y"

lemma spans_ready_still:
  assumes "spans_ready env disk same es gs"
  shows "\<forall>j \<in> set (candidate_indices gs). keeps_still (files_io env) disk (es ! j)"
  using candidate_in_members [of es gs] assms spans_ready_groups(2) [OF assms]
  unfolding spans_ready_def ready_entry_def by metis

text \<open>What the fast pass makes of the members of the groups.\<close>

lemma worker_fast_pass_result:
  assumes "worker_fast_pass (index_sorter env) (fast_par env) (files_io env) (block_hash env) (fast_stop env) m es gs = (True, es1, k, m1)"
    and "fast_setting env" and "groups_laid_out (length es) gs"
  shows "length es1 = length es" and "g \<in> set gs \<Longrightarrow> members es1 g = map (fast_result env) (members es g)"
proof -
  have contracts: "sort_contract (index_sorter env)" "par_contract (fast_par env)" and uniform: "\<And>i. fast_stop env i = fast_stop env 0"
    using assms(2) by (simp_all add: fast_setting_def)
  have "length es1 = length es \<and> (g \<in> set gs \<longrightarrow> members es1 g = map (fast_result env) (members es g))"
  proof (cases "fast_stop env 0")
    case True
    then have "es1 = es" using worker_fast_pass_stopped [OF assms(1)] uniform by blast
    moreover have "fast_result env = id" using True by (auto simp: fast_result_def)
    ultimately show ?thesis by simp
  next
    case False
    then have none: "\<not> fast_stop env i" for i using uniform by simp
    have "fast_result env = fast_hash_entry (files_io env) (block_hash env)" using False by (auto simp: fast_result_def)
    then show ?thesis
      using worker_fast_pass_nth(1) [OF assms(1) contracts assms(3) none] worker_fast_pass_members [OF assms(1) contracts assms(3) none]
      by (simp add: map_eq_conv)
  qed
  then show "length es1 = length es" and "g \<in> set gs \<Longrightarrow> members es1 g = map (fast_result env) (members es g)" by simp_all
qed

lemma fast_stage:
  assumes "fast_setting env" and "spans_ready env disk same_size es gs" and "grants m = (\<lambda>_. True)"
  obtains es1 k m1 fast m2 where
    "worker_fast_pass (index_sorter env) (fast_par env) (files_io env) (block_hash env) (fast_stop env) m es gs = (True, es1, k, m1)"
    and "grouping_by_fast_hash (entry_sorter env) m1 es1 gs = (Some fast, m2)" and "grants m2 = (\<lambda>_. True)"
    and "spans_ready env disk same_candidate (out_entries fast) (out_groups fast)"
    and "mset ` set (map (members (out_entries fast)) (out_groups fast)) =
      (\<Union>g \<in> set gs. dup_classes same_fast_hash
        (image_mset (fast_result env) (mset (members es g))))"
proof -
  let ?io = "files_io env" and ?xxh = "block_hash env"
  let ?f = "fast_result env"
  have sorts: "sort_contract (entry_sorter env)" "sort_contract (index_sorter env)" "par_contract (fast_par env)"
    and env: "\<And>n. snd (fast_par env n)"
    using assms(1) by (auto simp: fast_setting_def)
  note spans = spans_ready_groups [OF assms(2)]
  note laid = spans(2)
  obtain es1 k m1 where fast: "worker_fast_pass (index_sorter env) (fast_par env) ?io ?xxh (fast_stop env) m es gs = (True, es1, k, m1)"
    and m1: "grants m1 = (\<lambda>_. True)"
    using worker_fast_pass_returns [where srt = "index_sorter env" and par = "fast_par env" and io = ?io and xxh = ?xxh and stop = "fast_stop env"
        and es = es and gs = gs, OF assms(3) env] by blast
  note mem = worker_fast_pass_result(2) [OF fast assms(1) laid]
  have spans1: "groups_apart same_size es1 gs"
    by (rule groups_apart_map [OF spans(1) worker_fast_pass_result(1) [OF fast assms(1) laid] mem]) (simp_all add: same_size_def)
  note laid1 = groups_sized_laid_out [OF groups_apart_sized [OF spans1]]
  obtain r m2 where group: "grouping_by_fast_hash (entry_sorter env) m1 es1 gs = (Some r, m2)" "grants m2 = grants m1"
    using grouping_by_fast_hash_granted [OF m1] by blast
  note stage = grouping_by_fast_hash_Some [OF group(1) sorts(1) laid1]
  have classes: "mset ` set (map (members (out_entries r)) (out_groups r)) =
      (\<Union>g \<in> set gs. dup_classes same_fast_hash (image_mset ?f (mset (members es g))))"
    unfolding stage(4) by (rule SUP_cong [OF refl]) (simp add: mem)
  have still: "ready_entry env disk e" if h: "h \<in> set (out_groups r)" "e \<in> set (members (out_entries r) h)" for h e
  proof -
    obtain g where g: "g \<in> set gs" "set (members (out_entries r) h) \<subseteq> set (members es1 g)"
      using stage(2) h(1) unfolding stage_done_def by blast
    then have "e \<in> ?f ` set (members es g)" using h(2) mem [OF g(1)] by auto
    then show ?thesis using assms(2) g(1) by (auto simp: spans_ready_def ready_entry_fast)
  qed
  have "groups_apart same_candidate (out_entries r) (out_groups r)"
    unfolding same_candidate_def [abs_def]
    by (rule groups_apart_stage [OF stage(2,1) sorts(1) fast_order.grouping_order_axioms spans1])
  then have "spans_ready env disk same_candidate (out_entries r) (out_groups r)" using still unfolding spans_ready_def by blast
  moreover have "grants m2 = (\<lambda>_. True)" using group(2) m1 by simp
  ultimately show ?thesis using that [OF fast group(1)] classes by blast
qed

lemma full_stage:
  assumes "pipeline_setting env ds disk" and "spans_ready env disk same_candidate es gs" and "grants m = (\<lambda>_. True)"
  obtains es2 k m1 r m2 where
    "worker_full_pass (index_sorter env) (full_par env) (files_io env) (full_answers env) (digest_api env)
      (slots_registered env) (full_stop env) (full_pools env) m alg es gs single = Some (True, es2, k, m1)"
    and "grouping_by_full_hash (entry_sorter env) (digest_compare env) m1 es2 gs (worker_digest_size alg) = (Some r, m2)"
    and "grants m2 = (\<lambda>_. True)"
    and "groups_apart (\<lambda>x y. same_candidate x y \<and> same_digest (worker_digest_size alg) x y) (out_entries r) (out_groups r)"
    and "mset ` set (map (members (out_entries r)) (out_groups r)) =
      (\<Union>g \<in> set gs. dup_classes (same_digest (worker_digest_size alg))
        (image_mset (full_hash_entry ds alg disk) (mset (members es g))))"
proof -
  let ?f = "full_hash_entry ds alg disk" and ?n = "worker_digest_size alg"
  have setting: "full_setting (index_sorter env) (full_par env) (files_io env) (full_answers env) (digest_api env) ds
      (full_stop env) (full_pools env) disk"
    and sorts: "sort_contract (entry_sorter env)" "compare_contract (digest_compare env)"
    and env: "\<forall>n. snd (full_par env n)" "slots_registered env"
    using assms(1) by (auto simp: pipeline_setting_def)
  note spans = spans_ready_groups [OF assms(2)]
  note laid = spans(2)
  have still: "\<forall>j \<in> set (candidate_indices gs). keeps_still (files_io env) disk (es ! j)"
    by (rule spans_ready_still [OF assms(2)])
  obtain es2 m1 where full: "worker_full_pass (index_sorter env) (full_par env) (files_io env) (full_answers env) (digest_api env)
      (slots_registered env) (full_stop env) (full_pools env) m alg es gs single = Some (True, es2, total_candidates gs, m1)"
    and m1: "grants m1 = (\<lambda>_. True)"
    using worker_full_pass_returns [where single = single and alg = alg, OF setting laid still assms(3) disjI2 [OF env(1)]] env(2)
    by auto
  have len: "length es2 = length es" by (rule worker_full_pass_nth(1) [OF setting laid still full])
  have mem: "members es2 g = map ?f (members es g)" if "g \<in> set gs" for g
    using worker_full_pass_members [OF setting laid still full] that by (simp add: map_eq_conv)
  have spans2: "groups_apart same_candidate es2 gs"
    by (rule groups_apart_map [OF spans(1) len mem]) (simp_all add: same_candidate_def same_size_def same_fast_hash_def)
  note laid2 = groups_sized_laid_out [OF groups_apart_sized [OF spans2]]
  obtain r m2 where group: "grouping_by_full_hash (entry_sorter env) (digest_compare env) m1 es2 gs ?n = (Some r, m2)"
    "grants m2 = grants m1"
    using grouping_by_full_hash_granted [OF m1] by blast
  have classes: "mset ` set (map (members (out_entries r)) (out_groups r)) =
      (\<Union>g \<in> set gs. dup_classes (same_digest ?n) (image_mset ?f (mset (members es g))))"
    unfolding grouping_by_full_hash_Some(3) [OF group(1) sorts laid2] by (rule SUP_cong [OF refl]) (simp add: mem)
  note stage = grouping_by_full_hash_Some [OF group(1) sorts laid2]
  have "groups_apart (\<lambda>x y. same_candidate x y \<and> same_digest ?n x y) (out_entries r) (out_groups r)"
    by (rule groups_apart_stage [OF stage(2,1) sorts(1) digest_order [OF sorts(2)] spans2])
  moreover have "grants m2 = (\<lambda>_. True)" using group(2) m1 by simp
  ultimately show ?thesis using that [OF full group(1)] classes by blast
qed

text \<open>A class whose members a further equality cannot tell apart is not split by it.\<close>

lemma dup_classes_whole:
  assumes "2 \<le> size C" and "\<And>x y. x \<in># C \<Longrightarrow> y \<in># C \<Longrightarrow> s x y"
  shows "dup_classes s C = {C}"
proof -
  have whole: "filter_mset (s x) C = C" if "x \<in># C" for x
    using filter_mset_cong [of C C "s x" "\<lambda>_. True"] assms(2) [OF that] by simp
  obtain x where "x \<in># C" using assms(1) by fastforce
  then show ?thesis using assms(1) whole by (auto simp: dup_classes_def intro!: exI [of _ x])
qed

lemma dup_classes_size: "C \<in> dup_classes s M \<Longrightarrow> 2 \<le> size C"
  by (auto simp: dup_classes_def)

text \<open>What the report can rely on: groups of equal sizes, none of them there twice.\<close>

definition groups_listed :: "hashed \<Rightarrow> bool" where
  "groups_listed h \<longleftrightarrow> groups_sized (final_entries h) (final_groups h) \<and>
    distinct (map (\<lambda>g. mset (members (final_entries h) g)) (final_groups h))"

lemma groups_listed_laid_out: "groups_listed h \<Longrightarrow> groups_laid_out (length (final_entries h)) (final_groups h)"
  by (simp add: groups_listed_def groups_sized_def)

lemma run_hashing_fast_count:
  assumes "run_hashing env opts m fs es gs = Some (Some h, m', fs')"
  shows "fast_hashed h = total_candidates gs"
proof -
  obtain es1 k m1 where pass: "worker_fast_pass (index_sorter env) (fast_par env) (files_io env) (block_hash env) (fast_stop env) m es gs =
      (True, es1, k, m1)"
    using assms by (auto simp: run_hashing_def split: prod.splits if_splits)
  then have "k = total_candidates gs" by (auto simp: worker_fast_pass_def Let_def split: if_splits option.splits prod.splits)
  then show ?thesis using assms pass by (auto simp: run_hashing_def split: prod.splits if_splits option.splits)
qed

lemma groups_listed_apart:
  assumes "groups_apart (\<lambda>x y. same_candidate x y \<and> same_digest (worker_digest_size alg) x y) (final_entries h) (final_groups h)"
  shows "groups_listed h"
  using groups_apart_sized [OF assms] groups_apart_distinct [OF assms]
  by (simp add: groups_listed_def same_candidate_def same_size_def same_fast_hash_def same_digest_def)

text \<open>The passes when every batch of the full pass is skipped: the groups of the fast pass stay as they are.\<close>

lemma run_hashing_skipped:
  assumes "fast_setting env" and "compare_contract (digest_compare env)" and "\<And>n. snd (full_par env n)" and "slots_registered env"
    and "\<And>i. batch_skipped (full_answers env) i"
    and "spans_ready env disk same_size es gs" and "grants m = (\<lambda>_. True)"
  shows "\<exists>h m' fs'. run_hashing env opts m fs es gs = Some (Some h, m', fs') \<and>
    groups_listed h \<and>
    mset ` set (map (members (final_entries h)) (final_groups h)) =
      (\<Union>g \<in> set gs. dup_classes same_fast_hash
        (image_mset (fast_result env) (mset (members es g))))"
proof -
  let ?fast = "fast_result env" and ?t = "same_digest (worker_digest_size (opt_algorithm opts))"
  let ?goal = "\<Union>g \<in> set gs. dup_classes same_fast_hash (image_mset ?fast (mset (members es g)))"
  have sorts: "sort_contract (entry_sorter env)" using assms(1) by (simp add: fast_setting_def)
  obtain es1 k m1 fast m2 where
    pass: "worker_fast_pass (index_sorter env) (fast_par env) (files_io env) (block_hash env) (fast_stop env) m es gs = (True, es1, k, m1)"
    and group: "grouping_by_fast_hash (entry_sorter env) m1 es1 gs = (Some fast, m2)" and m2: "grants m2 = (\<lambda>_. True)"
    and still: "spans_ready env disk same_candidate (out_entries fast) (out_groups fast)"
    and classes: "mset ` set (map (members (out_entries fast)) (out_groups fast)) = ?goal"
    by (rule fast_stage [OF assms(1,6,7)])
  show ?thesis
  proof (cases "out_groups fast = []")
    case True
    then have "?goal = {}" using classes by simp
    then show ?thesis using True pass group by (simp add: run_hashing_def groups_listed_def)
  next
    case False
    obtain single fs' where single: "force_single_thread env opts fs (out_groups fast) = (single, fs')"
      by (cases "force_single_thread env opts fs (out_groups fast)")
    obtain m3 where full: "worker_full_pass (index_sorter env) (full_par env) (files_io env) (full_answers env) (digest_api env)
        (slots_registered env) (full_stop env) (full_pools env) m2 (opt_algorithm opts) (out_entries fast) (out_groups fast) single
        = Some (True, out_entries fast, total_candidates (out_groups fast), m3)" and m3: "grants m3 = (\<lambda>_. True)"
      using worker_full_pass_skipped [where par = "full_par env" and env = "full_answers env" and srt = "index_sorter env"
          and io = "files_io env" and api = "digest_api env" and stop_before = "full_stop env" and pools = "full_pools env"
          and alg = "opt_algorithm opts" and es = "out_entries fast" and gs = "out_groups fast" and single = single,
          OF assms(5) m2 assms(3)] assms(4)
      by auto
    obtain r m4 where regroup: "grouping_by_full_hash (entry_sorter env) (digest_compare env) m3 (out_entries fast) (out_groups fast)
        (worker_digest_size (opt_algorithm opts)) = (Some r, m4)"
      using grouping_by_full_hash_granted [OF m3] by blast
    note spans = spans_ready_groups [OF still]
    note laid = spans(2)
    have unsplit: "dup_classes ?t C = {C}" if C: "C \<in> ?goal" for C
    proof (rule dup_classes_whole)
      obtain g where g: "g \<in> set gs" "C \<in> dup_classes same_fast_hash (image_mset ?fast (mset (members es g)))"
        using C by blast
      then show "2 \<le> size C" by (simp add: dup_classes_size)
      have zero: "full_hash x = replicate MAX_DIGEST_SIZE 0" if "x \<in># C" for x
        using mset_subset_eqD [OF dup_classes_subset [OF g(2)] that] g(1) assms(6)
        by (auto simp: spans_ready_def ready_entry_def)
      show "?t x y" if "x \<in># C" "y \<in># C" for x y
        using zero [OF that(1)] zero [OF that(2)] by (simp add: same_digest_def digest_of_def)
    qed
    have "mset ` set (map (members (out_entries r)) (out_groups r)) =
        (\<Union>C \<in> mset ` set (map (members (out_entries fast)) (out_groups fast)). dup_classes ?t C)"
      unfolding grouping_by_full_hash_Some(3) [OF regroup sorts assms(2) laid] by simp
    also have "\<dots> = (\<Union>C \<in> ?goal. {C})" unfolding classes by (rule SUP_cong [OF refl]) (rule unsplit)
    finally have final: "mset ` set (map (members (out_entries r)) (out_groups r)) = ?goal" by simp
    note stage = grouping_by_full_hash_Some [OF regroup sorts assms(2) laid]
    have "groups_apart (\<lambda>x y. same_candidate x y \<and> ?t x y) (out_entries r) (out_groups r)"
      by (rule groups_apart_stage [OF stage(2,1) sorts digest_order [OF assms(2)] spans(1)])
    then show ?thesis using final False pass group single full regroup groups_listed_apart [of "opt_algorithm opts"] by (simp add: run_hashing_def)
  qed
qed

text \<open>All passes together, on the groups of the size pass.\<close>

lemma run_hashing_classes:
  assumes setting: "pipeline_setting env ds disk" and still: "spans_ready env disk same_size es gs" and "grants m = (\<lambda>_. True)"
  shows "\<exists>h m' fs'. run_hashing env opts m fs es gs = Some (Some h, m', fs') \<and>
    groups_listed h \<and>
    mset ` set (map (members (final_entries h)) (final_groups h)) =
      (\<Union>g \<in> set gs. image_mset (hashed_entry env ds disk (opt_algorithm opts)) `
        dup_classes (same_hashes env ds disk (opt_algorithm opts)) (mset (members es g)))"
proof -
  let ?alg = "opt_algorithm opts" and ?fast = "fast_hash_entry (files_io env) (block_hash env)"
  let ?full = "full_hash_entry ds (opt_algorithm opts) disk" and ?t = "same_digest (worker_digest_size (opt_algorithm opts))"
  let ?goal = "\<Union>g \<in> set gs. image_mset (hashed_entry env ds disk ?alg) ` dup_classes (same_hashes env ds disk ?alg) (mset (members es g))"
  obtain es1 k m1 fast m2 where
    pass: "worker_fast_pass (index_sorter env) (fast_par env) (files_io env) (block_hash env) (fast_stop env) m es gs = (True, es1, k, m1)"
    and group: "grouping_by_fast_hash (entry_sorter env) m1 es1 gs = (Some fast, m2)" and m2: "grants m2 = (\<lambda>_. True)"
    and still2: "spans_ready env disk same_candidate (out_entries fast) (out_groups fast)"
    and fast_classes: "mset ` set (map (members (out_entries fast)) (out_groups fast)) =
      (\<Union>g \<in> set gs. dup_classes same_fast_hash (image_mset ?fast (mset (members es g))))"
    by (rule fast_stage [OF pipeline_setting_fast [OF setting] assms(2,3), unfolded fast_result_unstopped [OF setting]])
  have refined: "(\<Union>C \<in> dup_classes same_fast_hash (image_mset ?fast (mset (members es g))). dup_classes ?t (image_mset ?full C)) =
      image_mset (hashed_entry env ds disk ?alg) ` dup_classes (same_hashes env ds disk ?alg) (mset (members es g))"
    if "g \<in> set gs" for g
  proof -
    have entries: "ready_entry env disk e" if "e \<in> set (members es g)" for e
      using still that \<open>g \<in> set gs\<close> by (simp add: spans_ready_def)
    have "same_hashes env ds disk ?alg x y =
        (same_fast_hash (?fast x) (?fast y) \<and> ?t (?full (?fast x)) (?full (?fast y)))"
      if "x \<in># mset (members es g)" "y \<in># mset (members es g)" for x y
      using same_hashes_entry [of env disk x y ds ?alg] entries that unfolding hashed_entry_def set_mset_mset by blast
    then have "dup_classes (same_hashes env ds disk ?alg) (mset (members es g)) =
        dup_classes (\<lambda>x y. same_fast_hash (?fast x) (?fast y) \<and> ?t (?full (?fast x)) (?full (?fast y))) (mset (members es g))"
      by (rule dup_classes_cong)
    moreover have "hashed_entry env ds disk ?alg = ?full \<circ> ?fast" by (auto simp: hashed_entry_def)
    moreover have "equivp (\<lambda>x y. same_fast_hash (?fast x) (?fast y))"
      unfolding same_fast_hash_def by (rule equivp_key)
    moreover have "equivp (\<lambda>x y. ?t (?full (?fast x)) (?full (?fast y)))"
      unfolding same_digest_def by (rule equivp_key)
    ultimately show ?thesis by (simp add: dup_classes_image_refine)
  qed
  have all: "(\<Union>C \<in> mset ` set (map (members (out_entries fast)) (out_groups fast)). dup_classes ?t (image_mset ?full C)) = ?goal"
    unfolding fast_classes UN_UN_flatten by (rule SUP_cong [OF refl]) (rule refined)
  show ?thesis
  proof (cases "out_groups fast = []")
    case True
    then have "?goal = {}" using all by simp
    then show ?thesis using True pass group by (simp add: run_hashing_def groups_listed_def)
  next
    case False
    obtain single fs' where single: "force_single_thread env opts fs (out_groups fast) = (single, fs')"
      by (cases "force_single_thread env opts fs (out_groups fast)")
    obtain es2 k2 m3 r m4 where
      full: "worker_full_pass (index_sorter env) (full_par env) (files_io env) (full_answers env) (digest_api env)
        (slots_registered env) (full_stop env) (full_pools env) m2 ?alg (out_entries fast) (out_groups fast) single
        = Some (True, es2, k2, m3)"
      and regroup: "grouping_by_full_hash (entry_sorter env) (digest_compare env) m3 es2 (out_groups fast) (worker_digest_size ?alg) = (Some r, m4)"
      and laid: "groups_apart (\<lambda>x y. same_candidate x y \<and> ?t x y) (out_entries r) (out_groups r)"
      and classes: "mset ` set (map (members (out_entries r)) (out_groups r)) =
        (\<Union>g \<in> set (out_groups fast). dup_classes ?t (image_mset ?full (mset (members (out_entries fast) g))))"
      by (rule full_stage [OF setting still2 m2])
    have "mset ` set (map (members (out_entries r)) (out_groups r)) = ?goal"
      unfolding classes all [symmetric] by simp
    then show ?thesis
      using False pass group single full regroup groups_listed_apart [of ?alg] laid by (simp add: run_hashing_def)
  qed
qed

end
