(* ===== verification/Pipeline.thy ===== *)
theory Pipeline
  imports Passes
begin

text \<open>
  The run of the application over the composed passes: what it reports, that it succeeds, and
  what it does with files that cannot be opened and with a full pass that is skipped.
\<close>

section \<open>The run\<close>

definition kept_files :: "('x, 'c, 'd) app_env \<Rightarrow> cli_options \<Rightarrow> file_entry list \<Rightarrow> file_entry multiset" where
  "kept_files env opts es = mset (kept_entries (entry_sorter env) es (match_hardlinks opts))"

definition same_size_and_hashes ::
  "('x, 'c, 'd) app_env \<Rightarrow> digests \<Rightarrow> (string \<Rightarrow> file_answer) \<Rightarrow> algorithm \<Rightarrow> file_entry \<Rightarrow> file_entry \<Rightarrow> bool" where
  "same_size_and_hashes env ds disk alg x y \<longleftrightarrow> same_size x y \<and> same_hashes env ds disk alg x y"

text \<open>Files that read the same: of equal content, or of equal size when neither can be opened.\<close>

definition same_as_read :: "(string \<Rightarrow> file_answer) \<Rightarrow> file_entry \<Rightarrow> file_entry \<Rightarrow> bool" where
  "same_as_read disk x y \<longleftrightarrow>
    (case (disk (absolute_path x), disk (absolute_path y)) of
       (Inr c, Inr d) \<Rightarrow> c = d
     | (Inl _, Inl _) \<Rightarrow> file_size x = file_size y
     | _ \<Rightarrow> False)"

text \<open>The groups a report lists, as multisets of paths.\<close>

definition reported_paths :: "hashed \<Rightarrow> string multiset set" where
  "reported_paths h = (\<lambda>g. mset (map absolute_path (members (final_entries h) g))) ` set (final_groups h)"

lemma kept_entries_subset:
  assumes "sort_contract srt"
  shows "mset (kept_entries srt es mh) \<subseteq># mset es"
proof -
  have "mset (srt size_dev_ino_less_than es) = mset es"
    using assms size_order.comparator_axioms by (rule sort_contract_mset)
  then show ?thesis
    using squeeze_subset [of same_identity "srt size_dev_ino_less_than es"] by (auto simp: kept_entries_def Let_def)
qed

lemma kept_files_subset:
  assumes "sort_contract (entry_sorter env)"
  shows "set_mset (kept_files env opts es) \<subseteq> set es"
  using mset_subset_eqD [OF kept_entries_subset [OF assms]] by (auto simp: kept_files_def)

text \<open>Statistics that the run computes from its entries, its size pass and the groups \<open>h\<close>.\<close>

definition statistics_computed :: "('x, 'c, 'd) app_env \<Rightarrow> app_state \<Rightarrow> hashed \<Rightarrow> statistics \<Rightarrow> bool" where
  "statistics_computed env st h stats \<longleftrightarrow> (\<exists>sizes m m' wall.
    grouping_by_size (entry_sorter env) m (the (app_entries st)) (match_hardlinks (app_options st)) = (Some sizes, m') \<and>
    stats = run_statistics (length (the (app_entries st))) sizes h wall \<and> fast_hashed h = total_candidates (out_groups sizes))"

text \<open>The groups \<open>h\<close> can be listed, and the rest of the grouping part writes their report.\<close>

definition groups_written :: "('x, 'c, 'd) app_env \<Rightarrow> app_state \<Rightarrow> hashed \<Rightarrow> statistics \<Rightarrow> app_state \<Rightarrow> bool" where
  "groups_written env st h stats st0 \<longleftrightarrow>
    groups_listed h \<and> statistics_computed env st h stats \<and>
    run_grouping env st =
      (case choose_output env (app_options st) of
         None \<Rightarrow> Some (False, st0\<lparr>exit_code := 1\<rparr>)
       | Some (target, format) \<Rightarrow>
           (case write_report env (report_writer env (app_options st) format h stats) of
              (output_ok, text) \<Rightarrow>
                Some (True, st0\<lparr>report := Some (target, text), exit_code := (if output_ok then 0 else 1)\<rparr>)))"

text \<open>
  What the grouping part of the run does, given what the hashing makes of a group: the
  classes \<open>outcome C\<close> of a class \<open>C\<close> of usable files of equal size.
\<close>

lemma run_grouping_outcome:
  assumes sorts: "sort_contract (entry_sorter env)" and get: "\<forall>i. entry_get_ok env i" and m: "grants (app_pool st) = (\<lambda>_. True)"
    and usable: "\<forall>e \<in> set (the (app_entries st)). usable e"
    and hashing: "\<And>m fs es gs. groups_apart same_size es gs \<Longrightarrow> \<forall>g \<in> set gs. \<forall>e \<in> set (members es g). usable e \<Longrightarrow>
      grants m = (\<lambda>_. True) \<Longrightarrow>
      \<exists>h m' fs'. run_hashing env (app_options st) m fs es gs = Some (Some h, m', fs') \<and>
        groups_listed h \<and>
        mset ` set (map (members (final_entries h)) (final_groups h)) = (\<Union>g \<in> set gs. outcome (mset (members es g)))"
  obtains (no_candidates) st' where "run_grouping env st = Some (True, st')" "exit_code st' = 0" "report st' = report st"
      "dup_classes same_size (kept_files env (app_options st) (the (app_entries st))) = {}"
    | (hashed) h stats st0 where
      "report st0 = report st"
      "mset ` set (map (members (final_entries h)) (final_groups h)) =
        (\<Union>C \<in> dup_classes same_size (kept_files env (app_options st) (the (app_entries st))). outcome C)"
      "groups_written env st h stats st0"
      "dup_classes same_size (kept_files env (app_options st) (the (app_entries st))) \<noteq> {}"
proof -
  let ?es = "the (app_entries st)" and ?opts = "app_options st"
  let ?kept = "kept_files env (app_options st) (the (app_entries st))"
  obtain b m1 where alloc: "pool_allocate (app_pool st) = (Some b, m1)" and m1: "grants m1 = (\<lambda>_. True)"
    using pool_allocate_granted [OF m] m by metis
  obtain sizes m2 where group: "grouping_by_size (entry_sorter env) m1 ?es (match_hardlinks ?opts) = (Some sizes, m2)"
    and "grants m2 = grants m1"
    using grouping_by_size_granted [OF m1] by blast
  then have m2: "grants m2 = (\<lambda>_. True)" using m1 by simp
  note separate = grouping_by_size_apart [OF sorts group] and mem = grouping_by_size_members [OF sorts group]
  have classes: "mset ` set (map (members (out_entries sizes)) (out_groups sizes)) = dup_classes same_size ?kept"
    unfolding mem kept_files_def by (rule size_runs.dup_runs_classes) (rule kept_entries_ordered [OF sorts])
  show thesis
  proof (cases "out_groups sizes = []")
    case True
    then have "run_grouping env st = Some (True, st\<lparr>app_pool := pool_free b (free_if_set (out_block sizes) m2), exit_code := 0\<rparr>)"
      using alloc group get by (simp add: run_grouping_def list_ex_iff)
    then show thesis using no_candidates classes True by simp
  next
    case False
    have "\<forall>g \<in> set (out_groups sizes). \<forall>e \<in> set (members (out_entries sizes) g). usable e"
    proof (intro ballI)
      fix g e assume g: "g \<in> set (out_groups sizes)" and e: "e \<in> set (members (out_entries sizes) g)"
      have "mset (members (out_entries sizes) g) \<in> dup_classes same_size ?kept" using g unfolding classes [symmetric] by simp
      then have "e \<in># ?kept" using e dup_classes_subset by (metis mset_subset_eqD set_mset_mset)
      then show "usable e" using usable kept_files_subset [OF sorts] by blast
    qed
    from hashing [OF separate this m2, of "cache_files st"]
    obtain h m3 fs where run: "run_hashing env ?opts m2 (cache_files st) (out_entries sizes) (out_groups sizes) = Some (Some h, m3, fs)"
      and spread: "groups_listed h"
      and final: "mset ` set (map (members (final_entries h)) (final_groups h)) =
        (\<Union>g \<in> set (out_groups sizes). outcome (mset (members (out_entries sizes) g)))"
      by blast
    have final': "mset ` set (map (members (final_entries h)) (final_groups h)) = (\<Union>C \<in> dup_classes same_size ?kept. outcome C)"
      unfolding final classes [symmetric] by simp
    have ne': "dup_classes same_size ?kept \<noteq> {}" using False classes by auto
    let ?stats = "run_statistics (length ?es) sizes h (main_monotonic_ms (clock_ended env) - main_monotonic_ms (clock_started env))"
    let ?st0 = "st\<lparr>app_pool := pool_free b (free_if_set (out_block sizes)
      (free_if_set (fast_block h) (free_if_set (final_block h) m3))), cache_files := fs\<rparr>"
    have keep: "report ?st0 = report st" by simp
    have "run_grouping env st =
        (case choose_output env ?opts of
           None \<Rightarrow> Some (False, ?st0\<lparr>exit_code := 1\<rparr>)
         | Some (target, format) \<Rightarrow>
             (case write_report env (report_writer env ?opts format h ?stats) of
                (output_ok, text) \<Rightarrow>
                  Some (True, ?st0\<lparr>report := Some (target, text), exit_code := (if output_ok then 0 else 1)\<rparr>)))"
      using alloc group get False run
      by (simp add: run_grouping_def list_ex_iff Let_def split: option.splits prod.splits)
    moreover have "statistics_computed env st h ?stats"
      using group run_hashing_fast_count [OF run] unfolding statistics_computed_def by blast
    ultimately have "groups_written env st h ?stats ?st0" using spread by (simp add: groups_written_def)
    from hashed [OF keep final' this ne'] show thesis .
  qed
qed

text \<open>The grouping part when the files keep still.\<close>

definition quiet_run :: "('x, 'c, 'd) app_env \<Rightarrow> digests \<Rightarrow> (string \<Rightarrow> file_answer) \<Rightarrow> app_state \<Rightarrow> bool" where
  "quiet_run env ds disk st \<longleftrightarrow>
    pipeline_setting env ds disk \<and> (\<forall>i. entry_get_ok env i) \<and> grants (app_pool st) = (\<lambda>_. True) \<and>
    (\<forall>e \<in> set (the (app_entries st)). keeps_still (files_io env) disk e)"

lemma run_grouping_cases:
  assumes quiet: "quiet_run env ds disk st" and fresh: "\<forall>e \<in> set (the (app_entries st)). fresh_entry e"
  obtains (no_candidates) st' where "run_grouping env st = Some (True, st')" "exit_code st' = 0" "report st' = report st"
      "dup_classes same_size (kept_files env (app_options st) (the (app_entries st))) = {}"
    | (hashed) h stats st0 where
      "report st0 = report st"
      "mset ` set (map (members (final_entries h)) (final_groups h)) =
        image_mset (hashed_entry env ds disk (opt_algorithm (app_options st))) `
          dup_classes (same_size_and_hashes env ds disk (opt_algorithm (app_options st)))
            (kept_files env (app_options st) (the (app_entries st)))"
      "groups_written env st h stats st0"
      "dup_classes same_size (kept_files env (app_options st) (the (app_entries st))) \<noteq> {}"
proof -
  let ?alg = "opt_algorithm (app_options st)" and ?kept = "kept_files env (app_options st) (the (app_entries st))"
  let ?outcome = "\<lambda>C. image_mset (hashed_entry env ds disk ?alg) ` dup_classes (same_hashes env ds disk ?alg) C"
  have setting: "pipeline_setting env ds disk" and get: "\<forall>i. entry_get_ok env i" and m: "grants (app_pool st) = (\<lambda>_. True)"
    and still: "\<forall>e \<in> set (the (app_entries st)). ready_entry env disk e"
    using quiet fresh fresh_entry_hashes(2) by (auto simp: quiet_run_def ready_entry_def)
  have sorts: "sort_contract (entry_sorter env)" using setting by (simp add: pipeline_setting_def)
  have hashing: "\<exists>h m' fs'. run_hashing env (app_options st) m fs es gs = Some (Some h, m', fs') \<and>
        groups_listed h \<and>
        mset ` set (map (members (final_entries h)) (final_groups h)) = (\<Union>g \<in> set gs. ?outcome (mset (members es g)))"
    if "groups_apart same_size es gs" "\<forall>g \<in> set gs. \<forall>e \<in> set (members es g). ready_entry env disk e"
      "grants m = (\<lambda>_. True)" for m fs es gs
    by (rule run_hashing_classes [OF setting _ that(3)]) (use that in \<open>simp add: spans_ready_def\<close>)
  have refine: "(\<Union>C \<in> dup_classes same_size ?kept. ?outcome C) =
      image_mset (hashed_entry env ds disk ?alg) ` dup_classes (same_size_and_hashes env ds disk ?alg) ?kept"
  proof -
    have "equivp same_size" by (rule size_runs.same_equivp)
    moreover have "equivp (same_hashes env ds disk ?alg)"
      by (rule equivpI) (auto simp: same_hashes_def intro!: reflpI sympI transpI)
    ultimately have "(\<Union>C \<in> dup_classes same_size ?kept. dup_classes (same_hashes env ds disk ?alg) C) =
        dup_classes (\<lambda>x y. same_size x y \<and> same_hashes env ds disk ?alg x y) ?kept"
      by (rule dup_classes_refine)
    then show ?thesis by (simp add: image_UN [symmetric] same_size_and_hashes_def [abs_def])
  qed
  show thesis
  proof (rule run_grouping_outcome [where usable = "ready_entry env disk" and outcome = ?outcome, OF sorts get m still hashing])
    fix st' assume "run_grouping env st = Some (True, st')" "exit_code st' = 0" "report st' = report st" "dup_classes same_size ?kept = {}"
    then show thesis by (rule no_candidates)
  next
    fix h stats st0
    assume h: "report st0 = report st"
      "mset ` set (map (members (final_entries h)) (final_groups h)) = (\<Union>C \<in> dup_classes same_size ?kept. ?outcome C)"
      "groups_written env st h stats st0"
      "dup_classes same_size ?kept \<noteq> {}"
    show thesis by (rule hashed [OF h(1) h(2) [unfolded refine] h(3,4)])
  qed
qed

text \<open>The text a report is meant to have.\<close>

definition report_text :: "number_format \<Rightarrow> cli_options \<Rightarrow> output_format \<Rightarrow> hashed \<Rightarrow> statistics \<Rightarrow> string" where
  "report_text fmt opts format h stats =
    (if opt_command opts = COMMAND_SUMMARY then summary_text fmt stats
     else if format = OUTPUT_FORMAT_JSON
     then render_json fmt (report_json (opt_algorithm opts) (final_entries h) (final_groups h) stats) @ [NEWLINE]
     else simple_report (final_entries h) (final_groups h))"

definition output_works :: "('x, 'c, 'd) app_env \<Rightarrow> cli_options \<Rightarrow> bool" where
  "output_works env opts \<longleftrightarrow>
    choose_output env opts \<noteq> None \<and> output_writer_created env \<and> output_flushed env \<and> (\<forall>k. output_answers env k)"

lemma emits_report:
  assumes "groups_laid_out (length (final_entries h)) (final_groups h)"
  shows "emits (report_writer env opts format h stats) (report_text (numbers env) opts format h stats)"
  using emits_summary emits_json [OF assms] emits_simple groups_laid_out_in [OF assms]
  by (auto simp: report_writer_def report_text_def)

lemma write_report_text:
  assumes "emits f text" and "write_report env f = (ok, t)"
  shows "ok \<Longrightarrow> t = text" and "prefix t text"
    and "output_writer_created env \<Longrightarrow> output_flushed env \<Longrightarrow> (\<And>k. output_answers env k) \<Longrightarrow> ok"
  using assms unfolding emits_def write_report_def
  by (auto split: if_splits prod.splits dest!: spec [of _ "\<lparr>accepts = output_answers env, calls = 0, written = []\<rparr>"])

lemma run_discovery_fresh:
  assumes "run_discovery env st = Some (ok, st1)"
  shows "\<forall>e \<in> set (the (app_entries st1)). fresh_entry e"
proof (cases "effective_workers env \<ge> 2")
  case True
  let ?found = "discovery_expand_parallel ((parallel_env env)\<lparr>par_walk := walk_env_of env st\<rparr>) (discovery_registered env)
    (app_pool st) (discovery_pools env) (positional_argument_values (app_options st))"
  have "the (app_entries st1) = found (par_base (snd ?found))"
    using assms True by (cases ?found) (auto simp: run_discovery_def Let_def)
  then show ?thesis using discovery_expand_parallel_fresh by simp
next
  case False
  then obtain base where "discovery_expand (walk_fuel env) (walk_env_of env st) (inode_set_created env) (app_pool st)
      (positional_argument_values (app_options st)) = Some (ok, base)" "the (app_entries st1) = found base"
    using assms by (auto simp: run_discovery_def Let_def)
  then show ?thesis using discovered_fresh by simp
qed

lemma run_discovery_keeps:
  assumes "run_discovery env st = Some (ok, st1)"
  shows "app_options st1 = app_options st" and "report st1 = report st"
  using assms by (auto simp: run_discovery_def Let_def split: if_splits prod.splits)

text \<open>A run that comes to the grouping.\<close>

lemma application_run_grouping:
  assumes "memory_ok env" and "parallel_ok env" and "\<not> interrupted env" and "run_discovery env st = Some (True, st1)"
  shows "application_run env st =
    (if the (app_entries st1) = [] then Some (True, st1\<lparr>exit_code := (if the (app_errors st1) = [] then 0 else 1)\<rparr>)
     else run_grouping env st1)"
  using assms by (simp add: application_run_def)

lemma application_run_reports:
  assumes "application_run env st = Some (ok, st')" and "run_discovery env st = Some (True, st1)"
    and "report st = None" and "report st' \<noteq> None"
  shows "run_grouping env st1 = Some (ok, st')" and "the (app_entries st1) \<noteq> []"
  using assms run_discovery_keeps(2) [OF assms(2)] by (auto simp: application_run_def split: if_splits)

text \<open>
  When no two scanned contents share their digest, and none has the zero digest of a file that
  cannot be opened, equal hashes are equal contents.
\<close>

definition distinguishes :: "digests \<Rightarrow> algorithm \<Rightarrow> file_answer set \<Rightarrow> bool" where
  "distinguishes ds alg answers \<longleftrightarrow>
    (\<forall>a \<in> answers. \<forall>b \<in> answers. answer_digest ds alg a = answer_digest ds alg b \<longrightarrow> a = b \<or> isl a \<and> isl b)"

lemma classes_by_content:
  assumes "distinguishes ds alg ((\<lambda>e. disk (absolute_path e)) ` set_mset M)"
    and "\<And>e. e \<in># M \<Longrightarrow> keeps_still (files_io env) disk e"
  shows "dup_classes (same_size_and_hashes env ds disk alg) M = dup_classes (same_as_read disk) M"
proof (rule dup_classes_cong)
  fix x y assume xy: "x \<in># M" "y \<in># M"
  have len: "has_length (disk (absolute_path x)) (unat (file_size x))" "has_length (disk (absolute_path y)) (unat (file_size y))"
    using xy assms(2) by (simp_all add: keeps_still_def)
  have apart: "disk (absolute_path x) = disk (absolute_path y) \<or> isl (disk (absolute_path x)) \<and> isl (disk (absolute_path y))"
    if "answer_digest ds alg (disk (absolute_path x)) = answer_digest ds alg (disk (absolute_path y))"
    using xy assms(1) that unfolding distinguishes_def by blast
  show "same_size_and_hashes env ds disk alg x y = same_as_read disk x y"
    using apart len
    by (cases "disk (absolute_path x)"; cases "disk (absolute_path y)")
      (auto simp: same_size_and_hashes_def same_hashes_def same_as_read_def same_size_def word_unat_eq_iff answer_digest_def)
qed

lemma reported_paths_classes:
  assumes "mset ` set (map (members (final_entries h)) (final_groups h)) = image_mset f ` A"
    and "\<And>e. absolute_path (f e) = absolute_path e"
  shows "reported_paths h = image_mset absolute_path ` A"
proof -
  have "reported_paths h = image_mset absolute_path ` mset ` set (map (members (final_entries h)) (final_groups h))"
    by (simp add: reported_paths_def image_image)
  also have "\<dots> = image_mset absolute_path ` A"
    unfolding assms(1) image_image by (simp add: multiset.map_comp comp_def assms(2))
  finally show ?thesis .
qed

text \<open>
  A run in which every batch of the full pass is skipped, though its files keep still; the fast
  pass runs, or is stopped as well.
\<close>

definition skipped_run :: "('x, 'c, 'd) app_env \<Rightarrow> (string \<Rightarrow> file_answer) \<Rightarrow> app_state \<Rightarrow> bool" where
  "skipped_run env disk st \<longleftrightarrow>
    fast_setting env \<and> compare_contract (digest_compare env) \<and> (\<forall>n. snd (full_par env n)) \<and> slots_registered env \<and>
    (\<forall>i. batch_skipped (full_answers env) i) \<and> (\<forall>i. entry_get_ok env i) \<and> grants (app_pool st) = (\<lambda>_. True) \<and>
    (\<forall>e \<in> set (the (app_entries st)). keeps_still (files_io env) disk e)"

text \<open>Equal block hashes, as far as they have been computed.\<close>

definition same_block_hash :: "('x, 'c, 'd) app_env \<Rightarrow> (string \<Rightarrow> file_answer) \<Rightarrow> file_entry \<Rightarrow> file_entry \<Rightarrow> bool" where
  "same_block_hash env disk x y \<longleftrightarrow> fast_stop env 0 \<or>
    fast_answer (block_hash env) (disk (absolute_path x)) = fast_answer (block_hash env) (disk (absolute_path y))"

lemma same_block_hash_equivp: "equivp (same_block_hash env disk)"
  by (rule equivpI) (auto simp: same_block_hash_def intro!: reflpI sympI transpI)

lemma block_hash_classes:
  assumes "\<And>e. e \<in># C \<Longrightarrow> keeps_still (files_io env) disk e \<and> fresh_entry e"
  shows "dup_classes same_fast_hash (image_mset (fast_result env) C) = image_mset (fast_result env) ` dup_classes (same_block_hash env disk) C"
proof -
  have "same_fast_hash (fast_result env x) (fast_result env y) = same_block_hash env disk x y" if "x \<in># C" "y \<in># C" for x y
    using assms [OF that(1)] assms [OF that(2)] fresh_entry_hashes(1)
    by (simp add: same_fast_hash_def same_block_hash_def fast_result_def fast_hash_still [where disk = disk])
  then have "dup_classes (\<lambda>x y. same_fast_hash (fast_result env x) (fast_result env y)) C = dup_classes (same_block_hash env disk) C"
    by (rule dup_classes_cong)
  then show ?thesis by (simp add: dup_classes_image [of same_fast_hash "fast_result env"])
qed

lemma block_hash_classes_of_sizes:
  assumes "\<And>e. e \<in># M \<Longrightarrow> keeps_still (files_io env) disk e \<and> fresh_entry e"
  shows "(\<Union>C \<in> dup_classes same_size M. dup_classes same_fast_hash (image_mset (fast_result env) C)) =
    image_mset (fast_result env) ` dup_classes (\<lambda>x y. same_size x y \<and> same_block_hash env disk x y) M"
proof -
  let ?fast = "fast_result env"
  have "(\<Union>C \<in> dup_classes same_size M. dup_classes same_fast_hash (image_mset ?fast C)) =
      (\<Union>C \<in> dup_classes same_size M. image_mset ?fast ` dup_classes (same_block_hash env disk) C)"
  proof (rule SUP_cong [OF refl])
    fix C assume "C \<in> dup_classes same_size M"
    then have "e \<in># M" if "e \<in># C" for e using that dup_classes_subset by (metis mset_subset_eqD)
    then show "dup_classes same_fast_hash (image_mset ?fast C) = image_mset ?fast ` dup_classes (same_block_hash env disk) C"
      by (intro block_hash_classes assms)
  qed
  also have "\<dots> = image_mset ?fast ` (\<Union>C \<in> dup_classes same_size M. dup_classes (same_block_hash env disk) C)"
    by (rule image_UN [symmetric])
  also have "(\<Union>C \<in> dup_classes same_size M. dup_classes (same_block_hash env disk) C) =
      dup_classes (\<lambda>x y. same_size x y \<and> same_block_hash env disk x y) M"
  proof (rule dup_classes_refine)
    show "equivp same_size" by (rule size_runs.same_equivp)
    show "equivp (same_block_hash env disk)" by (rule same_block_hash_equivp)
  qed
  finally show ?thesis .
qed

text \<open>
  The end of a run that comes to a report: with an output that works it succeeds with exit code
  zero, and its text is whole.
\<close>

definition calm_run :: "('x, 'c, 'd) app_env \<Rightarrow> app_state \<Rightarrow> app_state \<Rightarrow> bool" where
  "calm_run env st st1 \<longleftrightarrow> memory_ok env \<and> parallel_ok env \<and> \<not> interrupted env \<and>
    run_discovery env st = Some (True, st1) \<and> output_works env (app_options st) \<and> report st = None"

definition run_succeeds_with :: "('x, 'c, 'd) app_env \<Rightarrow> app_state \<Rightarrow> hashed \<Rightarrow> bool" where
  "run_succeeds_with env st h \<longleftrightarrow> (\<exists>st' stats target format.
    application_run env st = Some (True, st') \<and> exit_code st' = 0 \<and> choose_output env (app_options st) = Some (target, format) \<and>
    report st' = Some (target, report_text (numbers env) (app_options st) format h stats))"

lemma run_that_reports:
  assumes "calm_run env st st1" and "groups_written env st1 h stats st0" and "the (app_entries st1) \<noteq> []"
  shows "run_succeeds_with env st h"
proof -
  have opts: "app_options st1 = app_options st" using run_discovery_keeps assms(1) by (auto simp: calm_run_def)
  have run: "application_run env st = run_grouping env st1"
    using application_run_grouping [of env st st1] assms(1,3) by (simp add: calm_run_def)
  obtain target format where out: "choose_output env (app_options st) = Some (target, format)"
    using assms(1) by (auto simp: calm_run_def output_works_def)
  obtain ok t where written: "write_report env (report_writer env (app_options st) format h stats) = (ok, t)"
    by (cases "write_report env (report_writer env (app_options st) format h stats)")
  have laid: "groups_laid_out (length (final_entries h)) (final_groups h)"
    using assms(2) by (simp add: groups_written_def groups_listed_laid_out)
  note whole = write_report_text [OF emits_report [OF laid] written]
  have "ok" using whole(3) assms(1) by (simp add: calm_run_def output_works_def)
  then show ?thesis
    using run assms(2) out written whole(1) opts
    unfolding run_succeeds_with_def groups_written_def
    by (intro exI [of _ "st0\<lparr>report := Some (target, t), exit_code := 0\<rparr>"] exI [of _ stats] exI [of _ target] exI [of _ format]) simp
qed

text \<open>What a written report is, whether its output works or not.\<close>

lemma written_report:
  assumes "groups_written env st h stats st0" and "run_grouping env st = Some (ok, st')"
    and "report st0 = None" and "report st' = Some (target, text)"
  shows "\<exists>format. choose_output env (app_options st) = Some (target, format) \<and>
    prefix text (report_text (numbers env) (app_options st) format h stats) \<and>
    (exit_code st' = 0 \<longrightarrow> text = report_text (numbers env) (app_options st) format h stats)"
proof -
  obtain format where out: "choose_output env (app_options st) = Some (target, format)"
    using assms by (auto simp: groups_written_def split: option.splits prod.splits)
  obtain output_ok t where written: "write_report env (report_writer env (app_options st) format h stats) = (output_ok, t)"
    by (cases "write_report env (report_writer env (app_options st) format h stats)")
  have laid: "groups_laid_out (length (final_entries h)) (final_groups h)"
    using assms(1) by (simp add: groups_written_def groups_listed_laid_out)
  have "text = t" "exit_code st' = (if output_ok then 0 else 1)"
    using assms out written by (auto simp: groups_written_def)
  then show ?thesis using out write_report_text [OF emits_report [OF laid] written] by auto
qed

lemma classes_by_kept_content:
  assumes "sort_contract (entry_sorter env)" and still: "\<forall>e \<in> set es. keeps_still (files_io env) disk e"
    and "distinguishes ds alg ((\<lambda>e. disk (absolute_path e)) ` set es)"
  shows "dup_classes (same_size_and_hashes env ds disk alg) (kept_files env opts es) = dup_classes (same_as_read disk) (kept_files env opts es)"
proof (rule classes_by_content)
  note kept = kept_files_subset [OF assms(1), of opts es]
  show "distinguishes ds alg ((\<lambda>e. disk (absolute_path e)) ` set_mset (kept_files env opts es))"
    using assms(3) kept unfolding distinguishes_def by blast
  show "keeps_still (files_io env) disk e" if "e \<in># kept_files env opts es" for e
    using that kept still by blast
qed

text \<open>Two elements that an equality identifies are in one of its classes.\<close>

lemma dup_classes_pair:
  assumes "{#x, y#} \<subseteq># M" and "s x x" and "s x y"
  shows "\<exists>C \<in> dup_classes s M. {#x, y#} \<subseteq># C"
proof -
  have "filter_mset (s x) {#x, y#} \<subseteq># filter_mset (s x) M" using assms(1) by (rule multiset_filter_mono)
  then have sub: "{#x, y#} \<subseteq># filter_mset (s x) M" using assms(2,3) by simp
  then have "2 \<le> size (filter_mset (s x) M)" using size_mset_mono by fastforce
  moreover have "x \<in># M" using assms(1) by (simp add: insert_subset_eq_iff)
  ultimately have "filter_mset (s x) M \<in> dup_classes s M" by (auto simp: dup_classes_def)
  then show ?thesis using sub by blast
qed

text \<open>A calm, quiet run: it reports its classes, or no two kept files have the same size.\<close>

lemma quiet_run_outcome:
  assumes "calm_run env st st1" and "quiet_run env ds disk st1"
  defines "kept \<equiv> kept_files env (app_options st) (the (app_entries st1))"
  obtains st' where "application_run env st = Some (True, st')" "report st' = None" "dup_classes same_size kept = {}"
      "exit_code st' = (if the (app_entries st1) = [] \<and> the (app_errors st1) \<noteq> [] then 1 else 0)"
    | h where "run_succeeds_with env st h" "dup_classes same_size kept \<noteq> {}" "the (app_entries st1) \<noteq> []"
      "reported_paths h = image_mset absolute_path `
        dup_classes (same_size_and_hashes env ds disk (opt_algorithm (app_options st))) kept"
proof -
  have disc: "run_discovery env st = Some (True, st1)" and none: "report st = None" using assms(1) by (simp_all add: calm_run_def)
  have keep: "app_options st1 = app_options st" "report st1 = None" using run_discovery_keeps [OF disc] none by simp_all
  have run: "application_run env st =
      (if the (app_entries st1) = [] then Some (True, st1\<lparr>exit_code := (if the (app_errors st1) = [] then 0 else 1)\<rparr>)
       else run_grouping env st1)"
    using application_run_grouping [of env st st1] assms(1) by (simp add: calm_run_def)
  have sorts: "sort_contract (entry_sorter env)" using assms(2) by (simp add: quiet_run_def pipeline_setting_def)
  show thesis
  proof (cases "the (app_entries st1) = []")
    case True
    then have "set_mset kept = {}" using kept_files_subset [OF sorts, of "app_options st" "[]"] by (simp add: kept_def)
    then show thesis using True run keep
      by (intro that(1) [of "st1\<lparr>exit_code := (if the (app_errors st1) = [] then 0 else 1)\<rparr>"]) (auto simp: dup_classes_def)
  next
    case ne: False
    show thesis
    proof (cases rule: run_grouping_cases [OF assms(2) run_discovery_fresh [OF disc]])
      case (1 st2)
      then show thesis using run ne keep by (intro that(1)) (simp_all add: kept_def)
    next
      case (2 h stats st0)
      have "reported_paths h = image_mset absolute_path `
          dup_classes (same_size_and_hashes env ds disk (opt_algorithm (app_options st))) kept"
        using 2(2) unfolding keep kept_def by (rule reported_paths_classes) simp
      then show thesis using 2(4) run_that_reports [OF assms(1) 2(3) ne] ne by (intro that(2)) (simp_all add: kept_def keep)
    qed
  qed
qed

section \<open>Properties\<close>

text \<open>C1
  What a run reports are the duplicates: when the discovered files keep still and nothing
  disturbs the passes, the groups of the report, none of them twice, are exactly the classes, of
  two files or more, of the kept files under equal size, block hash and digest. Whenever the digest distinguishes what is
  scanned, these are the classes of equal content, and beside them, for every size, that of
  the files that cannot be opened. The text is the rendering of those groups in the chosen format,
  or a prefix of it when the exit code tells of a failure.
\<close>

theorem reported_groups_are_duplicate_classes:
  assumes "application_run env st = Some (ok, st')" and "run_discovery env st = Some (True, st1)"
    and "quiet_run env ds disk st1" and "report st = None" and "report st' = Some (target, text)"
  shows "\<exists>h stats format. choose_output env (app_options st) = Some (target, format) \<and>
    prefix text (report_text (numbers env) (app_options st) format h stats) \<and>
    (exit_code st' = 0 \<longrightarrow> text = report_text (numbers env) (app_options st) format h stats) \<and>
    distinct (map (\<lambda>g. mset (members (final_entries h) g)) (final_groups h)) \<and>
    reported_paths h = image_mset absolute_path `
      dup_classes (same_size_and_hashes env ds disk (opt_algorithm (app_options st)))
        (kept_files env (app_options st) (the (app_entries st1))) \<and>
    (distinguishes ds (opt_algorithm (app_options st)) ((\<lambda>e. disk (absolute_path e)) ` set (the (app_entries st1))) \<longrightarrow>
      reported_paths h = image_mset absolute_path `
        dup_classes (same_as_read disk) (kept_files env (app_options st) (the (app_entries st1))))"
proof -
  let ?opts = "app_options st" and ?alg = "opt_algorithm (app_options st)"
  let ?kept = "kept_files env (app_options st) (the (app_entries st1))"
  have opts: "app_options st1 = ?opts" and report: "report st1 = None"
    using run_discovery_keeps [OF assms(2)] assms(4) by simp_all
  have run: "run_grouping env st1 = Some (ok, st')" "the (app_entries st1) \<noteq> []"
    using application_run_reports [OF assms(1,2,4)] assms(5) by auto
  have sorts: "sort_contract (entry_sorter env)" and still: "\<forall>e \<in> set (the (app_entries st1)). keeps_still (files_io env) disk e"
    using assms(3) by (simp_all add: quiet_run_def pipeline_setting_def)
  show ?thesis
  proof (cases rule: run_grouping_cases [OF assms(3) run_discovery_fresh [OF assms(2)]])
    case (1 st2)
    then show ?thesis using run report assms(5) by simp
  next
    case (2 h stats st0)
    obtain format where out: "choose_output env ?opts = Some (target, format)"
      "prefix text (report_text (numbers env) ?opts format h stats)"
      "exit_code st' = 0 \<Longrightarrow> text = report_text (numbers env) ?opts format h stats"
      using written_report [OF 2(3) run(1)] 2(1) report assms(5) unfolding opts by metis
    have paths: "reported_paths h = image_mset absolute_path ` dup_classes (same_size_and_hashes env ds disk ?alg) ?kept"
      using 2(2) unfolding opts by (rule reported_paths_classes) simp
    have by_content: "reported_paths h = image_mset absolute_path ` dup_classes (same_as_read disk) ?kept"
      if "distinguishes ds ?alg ((\<lambda>e. disk (absolute_path e)) ` set (the (app_entries st1)))"
      using classes_by_kept_content [OF sorts still that] paths by simp
    have "distinct (map (\<lambda>g. mset (members (final_entries h) g)) (final_groups h))"
      using 2(3) by (simp add: groups_written_def groups_listed_def)
    then show ?thesis using out paths by_content by (intro exI [of _ h] exI [of _ stats] exI [of _ format]) simp
  qed
qed

text \<open>C2
  A run that nothing disturbs returns success, with exit code zero unless nothing at all was
  found and errors were collected; it makes no report exactly when no two kept files have the
  same size.
\<close>

theorem undisturbed_run_succeeds:
  assumes "calm_run env st st1" and "quiet_run env ds disk st1"
  shows "\<exists>st'. application_run env st = Some (True, st') \<and>
    exit_code st' = (if the (app_entries st1) = [] \<and> the (app_errors st1) \<noteq> [] then 1 else 0) \<and>
    (report st' = None \<longleftrightarrow> dup_classes same_size (kept_files env (app_options st) (the (app_entries st1))) = {})"
proof (cases rule: quiet_run_outcome [OF assms])
  case (1 st')
  then show ?thesis by simp
next
  case (2 h)
  then show ?thesis by (auto simp: run_succeeds_with_def)
qed

text \<open>C13
  Files that cannot be opened are reported as duplicates of one another: in an undisturbed run
  two kept files of equal size that both fail to open stand in one group of a report that ends
  with exit code zero, whatever they hold.
\<close>

theorem unreadable_files_are_reported_together:
  assumes "calm_run env st st1" and "quiet_run env ds disk st1"
    and "{#x, y#} \<subseteq># kept_files env (app_options st) (the (app_entries st1))" and "same_size x y"
    and "isl (disk (absolute_path x))" and "isl (disk (absolute_path y))"
  shows "\<exists>h. run_succeeds_with env st h \<and> (\<exists>G \<in> reported_paths h. {#absolute_path x, absolute_path y#} \<subseteq># G)"
proof -
  let ?kept = "kept_files env (app_options st) (the (app_entries st1))"
  let ?same = "same_size_and_hashes env ds disk (opt_algorithm (app_options st))"
  have "\<exists>C \<in> dup_classes same_size ?kept. {#x, y#} \<subseteq># C"
    by (rule dup_classes_pair [OF assms(3)]) (use assms(4) in \<open>simp_all add: same_size_def\<close>)
  then have ne: "dup_classes same_size ?kept \<noteq> {}" by blast
  have "?same x y" using assms(4-6)
    by (cases "disk (absolute_path x)"; cases "disk (absolute_path y)")
      (simp_all add: same_size_and_hashes_def same_hashes_def answer_digest_def)
  then obtain C where C: "C \<in> dup_classes ?same ?kept" "{#x, y#} \<subseteq># C"
    using dup_classes_pair [OF assms(3), of ?same] by (auto simp: same_size_and_hashes_def same_hashes_def same_size_def)
  from ne show ?thesis
  proof (cases rule: quiet_run_outcome [OF assms(1,2)])
    case (2 h)
    have "{#absolute_path x, absolute_path y#} \<subseteq># image_mset absolute_path C"
      using image_mset_subseteq_mono [OF C(2), of absolute_path] by simp
    then show ?thesis using 2 C(1) by blast
  qed simp
qed

text \<open>C12
  What the code does when every batch of the full pass is skipped, because a signal arrived
  after discovery or because no ring can be set up: the run still succeeds with exit code zero,
  and it reports files of equal size as duplicates as soon as their block hashes agree, which
  below 8192 bytes is the hash of the first 4096 bytes. When the signal arrived before the
  fast pass, so that its iterations stop too, it reports all files of equal size.
\<close>

theorem skipped_full_pass_reports_by_block_hash:
  assumes "calm_run env st st1" and "skipped_run env disk st1"
    and "dup_classes same_size (kept_files env (app_options st) (the (app_entries st1))) \<noteq> {}"
  shows "\<exists>h. run_succeeds_with env st h \<and>
    reported_paths h = image_mset absolute_path `
      dup_classes (\<lambda>x y. same_size x y \<and> same_block_hash env disk x y)
        (kept_files env (app_options st) (the (app_entries st1)))"
proof -
  let ?fast = "fast_result env" and ?kept = "kept_files env (app_options st1) (the (app_entries st1))"
  let ?outcome = "\<lambda>C. dup_classes same_fast_hash (image_mset ?fast C)"
  have disc: "run_discovery env st = Some (True, st1)" using assms(1) by (simp add: calm_run_def)
  have setting: "fast_setting env" "compare_contract (digest_compare env)" "\<And>n. snd (full_par env n)" "slots_registered env"
      "\<And>i. batch_skipped (full_answers env) i" and get: "\<forall>i. entry_get_ok env i" and m: "grants (app_pool st1) = (\<lambda>_. True)"
    and usable: "\<forall>e \<in> set (the (app_entries st1)). ready_entry env disk e"
    using assms(2) run_discovery_fresh [OF disc] fresh_entry_hashes(2) by (auto simp: skipped_run_def ready_entry_def)
  have sorts: "sort_contract (entry_sorter env)" using setting(1) by (simp add: fast_setting_def)
  have opts: "app_options st1 = app_options st" using run_discovery_keeps [OF disc] by simp
  have still: "keeps_still (files_io env) disk e \<and> fresh_entry e" if "e \<in># ?kept" for e
    using that kept_files_subset [OF sorts] usable run_discovery_fresh [OF disc] unfolding ready_entry_def by blast
  have hashing: "\<exists>h m' fs'. run_hashing env (app_options st1) m fs es gs = Some (Some h, m', fs') \<and>
        groups_listed h \<and>
        mset ` set (map (members (final_entries h)) (final_groups h)) = (\<Union>g \<in> set gs. ?outcome (mset (members es g)))"
    if "groups_apart same_size es gs" "\<forall>g \<in> set gs. \<forall>e \<in> set (members es g). ready_entry env disk e" "grants m = (\<lambda>_. True)" for m fs es gs
    by (rule run_hashing_skipped [where disk = disk, OF setting _ that(3)]) (use that in \<open>simp_all add: spans_ready_def\<close>)
  show ?thesis
  proof (rule run_grouping_outcome [where usable = "ready_entry env disk" and outcome = ?outcome, OF sorts get m usable hashing])
    assume "dup_classes same_size ?kept = {}"
    then show ?thesis using assms(3) opts by simp
  next
    fix h stats st0
    assume h: "mset ` set (map (members (final_entries h)) (final_groups h)) = (\<Union>C \<in> dup_classes same_size ?kept. ?outcome C)"
      "groups_written env st1 h stats st0" "dup_classes same_size ?kept \<noteq> {}"
    have ne: "the (app_entries st1) \<noteq> []"
      using h(3) kept_files_subset [OF sorts, of "app_options st1" "the (app_entries st1)"] by (auto simp: dup_classes_def)
    have classes: "(\<Union>C \<in> dup_classes same_size ?kept. ?outcome C) =
        image_mset ?fast ` dup_classes (\<lambda>x y. same_size x y \<and> same_block_hash env disk x y) ?kept"
      by (rule block_hash_classes_of_sizes) (rule still)
    have "reported_paths h = image_mset absolute_path `
        dup_classes (\<lambda>x y. same_size x y \<and> same_block_hash env disk x y) ?kept"
      by (rule reported_paths_classes [OF h(1) [unfolded classes]]) simp_all
    then show ?thesis using run_that_reports [OF assms(1) h(2) ne] opts by auto
  qed
qed

section \<open>Witnesses\<close>

text \<open>Two files of one size, given as inputs, and a run with one thread and the simple report.\<close>

definition two_files :: "u64 \<Rightarrow> walk_env" where
  "two_files n = sample_walk\<lparr>env_fs := sample_fs\<lparr>fs_stat := (\<lambda>follow p.
    Inr \<lparr>st_kind = Regular, st_size = n, st_dev = 1, st_ino = (if p = ''/x'' then 7 else 8)\<rparr>)\<rparr>\<rparr>"

definition pair_options :: cli_options where
  "pair_options = \<lparr>opt_command = COMMAND_SCAN, opt_algorithm = ALGORITHM_XXH3, opt_threads_mode = THREADS_MODE_MONO,
    explicit_worker_count = 0, minimum_file_size = 1, opt_output_destination_mode = OUTPUT_DESTINATION_STDOUT,
    output_destination_path = None, include_list = None, exclude_list = None, include_hidden = False,
    follow_symlinks = False, match_hardlinks = False, one_file_system = False,
    positional_argument_values = [''/x'', ''/y'']\<rparr>"

definition bool_doubles :: "bool doubles" where
  "bool_doubles = \<lparr>dbl_decimal = (\<lambda>m e. m \<noteq> 0), dbl_of_int = (\<lambda>i. i \<noteq> 0), dbl_add = (\<or>), dbl_sub = (\<lambda>a b. a \<and> \<not> b),
    dbl_mul = (\<and>), dbl_div = (\<lambda>a b. a), dbl_less = (\<lambda>a b. \<not> a \<and> b), dbl_le = (\<le>), dbl_ceil = (\<lambda>a. a),
    dbl_to_u64 = (\<lambda>a. if a then 1 else 0)\<rparr>"

definition sample_bench :: bench_env where
  "sample_bench = \<lparr>clock_reading = (\<lambda>k. (int k, 0)), bench_xxh3 = sample_hash, bench_xxh128_low = sample_hash,
    bench_sha256 = (\<lambda>_. [0]), memalign_ok = True, bench_workers = 1, probe_created = True, probe_written = Inr 1,
    probe_read = (\<lambda>_. None)\<rparr>"

definition pair_app :: "u64 \<Rightarrow> file_io \<Rightarrow> (u8 list, u8 list) full_env \<Rightarrow> (u8 list, u8 list, bool) app_env" where
  "pair_app n io answers = \<lparr>memory_ok = True, parallel_ok = True, collector_created = True, vector_created = True,
    effective_workers = 1, walk_fuel = 2, discovery_env = two_files n, inode_set_created = True,
    parallel_env = sample_par [], discovery_registered = True, discovery_pools = (\<lambda>_. granting_pool), interrupted = False,
    entry_get_ok = (\<lambda>_. True), entry_sorter = insertion_sort, index_sorter = insertion_sort,
    digest_compare = lex_compare, files_io = io, block_hash = sample_hash, fast_par = run_in_order,
    fast_stop = (\<lambda>_. False), full_par = run_in_order, full_answers = answers, digest_api = sample_api,
    slots_registered = True, full_stop = (\<lambda>_. False), full_pools = (\<lambda>_. granting_pool), double_ops = bool_doubles,
    double_sorter = insertion_sort, bench_answers = sample_bench, cache_answers = sample_cache,
    stale_constants = bool_constants, clock_started = Some (0, 0), clock_ended = Some (1, 0),
    output_opens = (\<lambda>_. True), stdout_is_tty = True, output_writer_created = True, output_answers = (\<lambda>_. True),
    output_flushed = True, numbers = sample_format, release_worker_path = (\<lambda>m. m)\<rparr>"

text \<open>The run of the first witnesses: both files hold the same two bytes and nothing fails.\<close>

abbreviation sample_app :: "(u8 list, u8 list, bool) app_env" where
  "sample_app \<equiv> pair_app 2 (sample_io [5, 7]) sample_env"

definition pair_start :: app_state where
  "pair_start = initial_app pair_options granting_pool Map.empty\<lparr>app_entries := Some [], app_errors := Some []\<rparr>"

lemma pair_start_init: "application_init sample_app (initial_app pair_options granting_pool Map.empty) = (True, pair_start)"
  by (simp add: application_init_def initial_app_def pair_app_def pair_options_def pair_start_def)

lemma pair_start_fields: "app_options pair_start = pair_options" "report pair_start = None" "app_filter pair_start = None"
    "app_pool pair_start = granting_pool"
  by (simp_all add: initial_app_def pair_start_def)

definition pair_entries :: "u64 \<Rightarrow> file_entry list" where
  "pair_entries n = [new_entry ''/x'' n 1 7, new_entry ''/y'' n 1 8]"

lemma pair_walk: "walk_env_of (pair_app n io answers) pair_start = two_files n\<lparr>env_filter := None,
    env_options := \<lparr>walk_hidden = False, walk_follow = False, walk_one_fs = False, walk_minimum = 1\<rparr>\<rparr>"
  by (simp add: walk_env_of_def pair_start_fields discovery_options_of_def pair_options_def) (simp add: pair_app_def)

lemma pair_discovery:
  assumes "n \<noteq> 0"
  shows "\<exists>w. discovery_expand 2 (walk_env_of (pair_app n io answers) pair_start) True granting_pool [''/x'', ''/y''] = Some (True, w) \<and>
    found w = pair_entries n \<and> walk_errors w = [] \<and> grants (walk_memory w) = (\<lambda>_. True)"
  using assms unfolding pair_walk by (simp add: two_files_def pair_entries_def walk_eval Let_def)

lemma pair_run_discovery:
  assumes "n \<noteq> 0"
  shows "\<exists>st1. run_discovery (pair_app n io answers) pair_start = Some (True, st1) \<and> app_entries st1 = Some (pair_entries n) \<and>
    app_errors st1 = Some [] \<and> grants (app_pool st1) = (\<lambda>_. True)"
proof -
  have env: "\<not> effective_workers (pair_app n io answers) \<ge> 2" "walk_fuel (pair_app n io answers) = 2"
    "inode_set_created (pair_app n io answers)" "positional_argument_values pair_options = [''/x'', ''/y'']"
    by (simp_all add: pair_app_def pair_options_def word_le_nat_alt)
  show ?thesis
    using pair_discovery [OF assms, of io answers] by (auto simp: run_discovery_def env pair_start_fields)
qed

lemma sample_run_discovery:
  "\<exists>st1. run_discovery sample_app pair_start = Some (True, st1) \<and> app_entries st1 = Some (pair_entries 2) \<and>
    app_errors st1 = Some [] \<and> grants (app_pool st1) = (\<lambda>_. True)"
  by (rule pair_run_discovery) simp

lemma sample_pipeline: "pipeline_setting sample_app sample_digests (\<lambda>_. Inr [5, 7])"
  using sample_full_setting [OF par_contract_examples(1)] par_contract_examples(1)
  by (simp add: pipeline_setting_def pair_app_def sort_contract_insertion_sort lex_compare_contract run_in_order_ok)

lemma sample_quiet:
  assumes "app_entries st1 = Some (pair_entries 2)" and "grants (app_pool st1) = (\<lambda>_. True)"
  shows "quiet_run sample_app sample_digests (\<lambda>_. Inr [5, 7]) st1"
proof -
  have "entry_get_ok sample_app = (\<lambda>_. True)" "files_io sample_app = sample_io [5, 7]" by (simp_all add: pair_app_def)
  then show ?thesis
    using assms sample_pipeline sample_io_serves [of "[5, 7]"]
    by (auto simp: quiet_run_def keeps_still_def pair_entries_def new_entry_def)
qed

lemma pair_kept: "n \<noteq> 0 \<Longrightarrow> kept_files (pair_app n io answers) pair_options (pair_entries n) = mset (pair_entries n)"
  by (simp add: kept_files_def kept_entries_def Let_def pair_app_def pair_options_def pair_entries_def new_entry_def
      size_dev_ino_less_than_def same_identity_def same_size_def same_inode_def)

lemma pair_class:
  assumes "\<And>x y. x \<in> set (pair_entries n) \<Longrightarrow> y \<in> set (pair_entries n) \<Longrightarrow> s x y"
  shows "dup_classes s (mset (pair_entries n)) = {mset (pair_entries n)}"
proof -
  have "dup_classes s (mset (pair_entries n)) = dup_classes (\<lambda>x y. True) (mset (pair_entries n))"
    by (rule dup_classes_cong) (simp add: assms)
  also have "\<dots> = {mset (pair_entries n)}" by (auto simp: dup_classes_def pair_entries_def)
  finally show ?thesis .
qed

lemma pair_same_size: "dup_classes same_size (mset (pair_entries n)) = {mset (pair_entries n)}"
  by (rule pair_class) (auto simp: pair_entries_def new_entry_def same_size_def)

lemma pair_output_works: "output_works (pair_app n io answers) pair_options"
  by (simp add: output_works_def choose_output_def pair_app_def pair_options_def)

lemma pair_calm: "run_discovery (pair_app n io answers) pair_start = Some (True, st1) \<Longrightarrow> calm_run (pair_app n io answers) pair_start st1"
  using pair_output_works [of n io answers] by (simp add: calm_run_def pair_start_fields) (simp add: pair_app_def)

theorem undisturbed_run_succeeds_witness:
  "\<exists>st'. application_run sample_app pair_start = Some (True, st') \<and> exit_code st' = 0 \<and> report st' \<noteq> None"
proof -
  obtain st1 where st1: "run_discovery sample_app pair_start = Some (True, st1)" "app_entries st1 = Some (pair_entries 2)"
      "app_errors st1 = Some []" "grants (app_pool st1) = (\<lambda>_. True)"
    using sample_run_discovery by blast
  show ?thesis
    using undisturbed_run_succeeds [OF pair_calm [OF st1(1)] sample_quiet [OF st1(2,4)]]
    by (simp add: st1(2,3) pair_start_fields pair_kept pair_same_size)
qed

lemma sample_run_succeeds:
  "\<exists>st' t. application_run sample_app pair_start = Some (True, st') \<and>
    report st' = Some (Standard_output, t) \<and> exit_code st' = 0"
proof -
  obtain st1 where st1: "run_discovery sample_app pair_start = Some (True, st1)" "app_entries st1 = Some (pair_entries 2)"
      "app_errors st1 = Some []" "grants (app_pool st1) = (\<lambda>_. True)"
    using sample_run_discovery by blast
  show ?thesis
  proof (cases rule: quiet_run_outcome [OF pair_calm [OF st1(1)] sample_quiet [OF st1(2,4)]])
    case (1 st')
    then show ?thesis by (simp add: st1(2) pair_start_fields pair_kept pair_same_size)
  next
    case (2 h)
    then show ?thesis by (auto simp: run_succeeds_with_def choose_output_def pair_start_fields pair_options_def)
  qed
qed

theorem reported_groups_are_duplicate_classes_witness:
  "\<exists>st' h text. application_run sample_app pair_start = Some (True, st') \<and>
    report st' = Some (Standard_output, text) \<and> reported_paths h = {{#''/x'', ''/y''#}} \<and>
    text = simple_report (final_entries h) (final_groups h)"
proof -
  obtain st1 where st1: "run_discovery sample_app pair_start = Some (True, st1)" "app_entries st1 = Some (pair_entries 2)"
      "app_errors st1 = Some []" "grants (app_pool st1) = (\<lambda>_. True)"
    using sample_run_discovery by blast
  note quiet = sample_quiet [OF st1(2,4)]
  have ne: "the (app_entries st1) \<noteq> []" using st1(2) by (simp add: pair_entries_def)
  have opts: "app_options st1 = pair_options" using run_discovery_keeps(1) [OF st1(1)] by (simp add: pair_start_fields)
  have kept: "kept_files sample_app (app_options st1) (the (app_entries st1)) = mset (pair_entries 2)"
    using st1(2) by (simp add: opts pair_kept)
  have chosen: "choose_output sample_app pair_options = Some (Standard_output, OUTPUT_FORMAT_SIMPLE)"
    by (simp add: choose_output_def pair_options_def)
  obtain st' t where st': "application_run sample_app pair_start = Some (True, st')"
      "report st' = Some (Standard_output, t)" "exit_code st' = 0" using sample_run_succeeds by blast
  from reported_groups_are_duplicate_classes [OF st'(1) st1(1) quiet pair_start_fields(2) st'(2)]
  obtain h stats format where h: "choose_output sample_app pair_options = Some (Standard_output, format)"
    "t = report_text (numbers sample_app) pair_options format h stats"
    "reported_paths h = image_mset absolute_path ` dup_classes (same_size_and_hashes sample_app sample_digests (\<lambda>_. Inr [5, 7]) ALGORITHM_XXH3)
      (mset (pair_entries 2))"
    using st'(3) kept by (auto simp: pair_start_fields opts) (auto simp: pair_options_def)
  have "dup_classes (same_size_and_hashes sample_app sample_digests (\<lambda>_. Inr [5, 7]) ALGORITHM_XXH3) (mset (pair_entries 2)) = {mset (pair_entries 2)}"
    by (rule pair_class) (auto simp: same_size_and_hashes_def same_hashes_def pair_entries_def new_entry_def same_size_def)
  then have "reported_paths h = {{#''/x'', ''/y''#}}"
    unfolding h(3) by (simp add: pair_entries_def new_entry_def)
  moreover have "t = simple_report (final_entries h) (final_groups h)"
    using h(1,2) chosen by (simp add: report_text_def) (simp add: pair_options_def)
  ultimately show ?thesis using st' by blast
qed

text \<open>Two files of 4097 bytes that differ in the last one, and a stop flag that is set before the full pass.\<close>

definition zero_block :: "u8 list" where
  "zero_block = replicate FAST_HASH_BLOCK_SIZE 0"

definition two_contents :: "string \<Rightarrow> u8 list" where
  "two_contents path = zero_block @ [if path = ''/x'' then 0 else 1]"

definition two_io :: file_io where
  "two_io = (let bytes = (\<lambda>fd. two_contents (if fd = 3 then ''/x'' else ''/y'')) in
    \<lparr>io_open = (\<lambda>path noatime. Inr (if path = ''/x'' then 3 else 4)),
     io_pread = (\<lambda>fd n off. Inr (take n (drop off (bytes fd)))),
     io_read = (\<lambda>fd k n. Inr (take n (drop (k * n) (bytes fd))))\<rparr>)"

abbreviation stopped_app :: "(u8 list, u8 list, bool) app_env" where
  "stopped_app \<equiv> pair_app 4097 two_io (sample_env\<lparr>stop_asked := \<lambda>_. True\<rparr>)"

lemma length_zero_block: "length zero_block = 4096"
  by (simp add: zero_block_def FAST_HASH_BLOCK_SIZE_def)

lemma two_io_serves: "serves two_io path (two_contents path)"
proof -
  have "two_contents (if path = ''/x'' then ''/x'' else ''/y'') = two_contents path" by (simp add: two_contents_def)
  then show ?thesis by (auto simp: serves_def two_io_def open_read_only_def)
qed

lemma two_contents_digest: "fast_digest xxh (two_contents path) = xxh zero_block"
  by (simp add: fast_digest_def two_contents_def length_zero_block FAST_HASH_BLOCK_SIZE_def)

lemma stopped_skips:
  assumes "app_entries st1 = Some (pair_entries 4097)" and "grants (app_pool st1) = (\<lambda>_. True)"
  shows "skipped_run stopped_app (\<lambda>p. Inr (two_contents p)) st1"
  using assms par_contract_examples(1) two_io_serves
  by (auto simp: skipped_run_def fast_setting_def pair_app_def sort_contract_insertion_sort lex_compare_contract run_in_order_ok
      batch_skipped_def keeps_still_def pair_entries_def new_entry_def two_contents_def length_zero_block)

text \<open>The report of a run on the two files that cannot tell them apart.\<close>

lemma pair_reported:
  assumes "run_succeeds_with (pair_app n io answers) pair_start h"
  obtains st' where "application_run (pair_app n io answers) pair_start = Some (True, st')" "exit_code st' = 0"
    "report st' = Some (Standard_output, simple_report (final_entries h) (final_groups h))"
proof -
  obtain st' stats target format where run: "application_run (pair_app n io answers) pair_start = Some (True, st')" "exit_code st' = 0"
    "choose_output (pair_app n io answers) (app_options pair_start) = Some (target, format)"
    "report st' = Some (target, report_text (numbers (pair_app n io answers)) (app_options pair_start) format h stats)"
    using assms unfolding run_succeeds_with_def by (elim exE conjE)
  have "target = Standard_output" "format = OUTPUT_FORMAT_SIMPLE"
    using run(3) by (simp_all add: choose_output_def pair_start_fields pair_options_def)
  then show thesis using that run(1,2,4) by (simp add: report_text_def pair_start_fields pair_options_def)
qed

theorem skipped_full_pass_reports_by_block_hash_witness:
  "\<exists>st' h. application_run stopped_app pair_start = Some (True, st') \<and> exit_code st' = 0 \<and>
    report st' = Some (Standard_output, simple_report (final_entries h) (final_groups h)) \<and>
    reported_paths h = {{#''/x'', ''/y''#}} \<and> two_contents ''/x'' \<noteq> two_contents ''/y''"
proof -
  obtain st1 where st1: "run_discovery stopped_app pair_start = Some (True, st1)" "app_entries st1 = Some (pair_entries 4097)"
      "grants (app_pool st1) = (\<lambda>_. True)"
    using pair_run_discovery [of 4097 two_io "sample_env\<lparr>stop_asked := \<lambda>_. True\<rparr>"] by auto
  let ?same = "\<lambda>x y. same_size x y \<and> same_block_hash stopped_app (\<lambda>p. Inr (two_contents p)) x y"
  have kept: "kept_files stopped_app (app_options pair_start) (the (app_entries st1)) = mset (pair_entries 4097)"
    by (simp add: st1(2) pair_start_fields pair_kept)
  have ne: "dup_classes same_size (kept_files stopped_app (app_options pair_start) (the (app_entries st1))) \<noteq> {}"
    unfolding kept pair_same_size by simp
  obtain h where h: "run_succeeds_with stopped_app pair_start h"
      "reported_paths h = image_mset absolute_path ` dup_classes ?same (mset (pair_entries 4097))"
    using skipped_full_pass_reports_by_block_hash [OF pair_calm [OF st1(1)] stopped_skips [OF st1(2,3)] ne, unfolded kept] by blast
  obtain st' where run: "application_run stopped_app pair_start = Some (True, st')" "exit_code st' = 0"
    "report st' = Some (Standard_output, simple_report (final_entries h) (final_groups h))"
    by (rule pair_reported [OF h(1)])
  have "dup_classes ?same (mset (pair_entries 4097)) = {mset (pair_entries 4097)}"
    by (rule pair_class) (auto simp: same_block_hash_def two_contents_digest pair_entries_def new_entry_def same_size_def)
  then have "reported_paths h = {{#''/x'', ''/y''#}}"
    unfolding h(2) by (simp add: pair_entries_def new_entry_def)
  then show ?thesis using run by (intro exI [of _ st'] exI [of _ h]) (simp add: two_contents_def)
qed

text \<open>Two files that cannot be opened.\<close>

definition locked_io :: file_io where
  "locked_io = \<lparr>io_open = (\<lambda>_ _. Inl 13), io_pread = (\<lambda>_ _ _. Inl 9), io_read = (\<lambda>_ _ _. Inl 9)\<rparr>"

abbreviation locked_app :: "(u8 list, u8 list, bool) app_env" where
  "locked_app \<equiv> pair_app 2 locked_io (sample_env\<lparr>ring_answers := \<lambda>_ _. in_order_kernel (\<lambda>_. Inl 13)\<rparr>)"

lemma locked_quiet:
  assumes "app_entries st1 = Some (pair_entries 2)" and "grants (app_pool st1) = (\<lambda>_. True)"
  shows "quiet_run locked_app sample_digests (\<lambda>_. Inl 13) st1"
proof -
  have "open_read_only locked_io path = Inl 13" for path by (simp add: open_read_only_def locked_io_def EPERM_def)
  then have "keeps_still locked_io (\<lambda>_. Inl 13) e" for e by (simp add: keeps_still_def)
  then show ?thesis
    using assms par_contract_examples(1) sample_api_contract in_order_kernel_honest [of "\<lambda>_. Inl 13"]
    by (auto simp: quiet_run_def pipeline_setting_def full_setting_def full_env_ok_def pair_app_def sample_env_def
        sort_contract_insertion_sort lex_compare_contract run_in_order_ok granting_pool_grants)
qed

theorem unreadable_files_are_reported_together_witness:
  "\<exists>st' h G. application_run locked_app pair_start = Some (True, st') \<and> exit_code st' = 0 \<and>
    report st' = Some (Standard_output, simple_report (final_entries h) (final_groups h)) \<and>
    G \<in> reported_paths h \<and> {#''/x'', ''/y''#} \<subseteq># G"
proof -
  obtain st1 where st1: "run_discovery locked_app pair_start = Some (True, st1)" "app_entries st1 = Some (pair_entries 2)"
      "grants (app_pool st1) = (\<lambda>_. True)"
    using pair_run_discovery [of 2 locked_io "sample_env\<lparr>ring_answers := \<lambda>_ _. in_order_kernel (\<lambda>_. Inl 13)\<rparr>"] by auto
  have kept: "{#new_entry ''/x'' 2 1 7, new_entry ''/y'' 2 1 8#} \<subseteq>#
      kept_files locked_app (app_options pair_start) (the (app_entries st1))"
    by (simp add: st1(2) pair_start_fields pair_kept) (simp add: pair_entries_def)
  obtain h where h: "run_succeeds_with locked_app pair_start h"
      "\<exists>G \<in> reported_paths h. {#''/x'', ''/y''#} \<subseteq># G"
    using unreadable_files_are_reported_together [OF pair_calm [OF st1(1)] locked_quiet [OF st1(2,3)] kept]
    by (auto simp: same_size_def new_entry_def)
  obtain st' where "application_run locked_app pair_start = Some (True, st')" "exit_code st' = 0"
    "report st' = Some (Standard_output, simple_report (final_entries h) (final_groups h))"
    by (rule pair_reported [OF h(1)])
  then show ?thesis using h(2) by blast
qed

end
