(* ===== verification/Run_Totals.thy ===== *)
theory Run_Totals
  imports Pipeline
begin

text \<open>
  The statistics of a report: the totals \<open>run_statistics\<close> sums over the groups in 64-bit words
  are those of the duplicate classes.
\<close>

section \<open>Totals over the groups\<close>

text \<open>The bytes that are freed when one file of a class remains.\<close>

definition redundant_bytes :: "file_entry multiset \<Rightarrow> nat" where
  "redundant_bytes C = (\<Sum>e \<in># C. unat (file_size e)) - Max ((\<lambda>e. unat (file_size e)) ` set_mset C)"

lemma redundant_bytes_same_size:
  assumes "C \<noteq> {#}" and "\<And>e. e \<in># C \<Longrightarrow> file_size e = n"
  shows "redundant_bytes C = (size C - 1) * unat n"
proof -
  have "image_mset (\<lambda>e. unat (file_size e)) C = replicate_mset (size C) (unat n)"
    using assms(2) image_mset_cong [of C "\<lambda>e. unat (file_size e)" "\<lambda>_. unat n"] by (simp add: image_mset_const_eq)
  moreover have "(\<lambda>e. unat (file_size e)) ` set_mset C = {unat n}" using assms by auto
  ultimately show ?thesis by (simp add: redundant_bytes_def diff_mult_distrib)
qed

lemma duplicate_totals_from:
  assumes "\<forall>g \<in> set gs. 1 \<le> entry_count g"
  shows "fold (\<lambda>g (file_count, wasted).
      (let extra = of_nat (entry_count g) - 1 in (file_count + extra, wasted + extra * group_file_size g))) gs (a, b) =
    (a + of_nat (\<Sum>g \<leftarrow> gs. entry_count g - 1), b + of_nat (\<Sum>g \<leftarrow> gs. (entry_count g - 1) * unat (group_file_size g)))"
  using assms by (induction gs arbitrary: a b) (simp_all add: Let_def of_nat_diff ac_simps)

lemma duplicate_totals_sized:
  assumes "groups_sized es gs"
  shows "duplicate_totals gs = (of_nat (\<Sum>g \<leftarrow> gs. size (mset (members es g)) - 1), of_nat (\<Sum>g \<leftarrow> gs. redundant_bytes (mset (members es g))))"
proof -
  have member: "size (mset (members es g)) = entry_count g" "redundant_bytes (mset (members es g)) = (entry_count g - 1) * unat (group_file_size g)"
    and two: "1 \<le> entry_count g" if "g \<in> set gs" for g
  proof -
    have g: "2 \<le> entry_count g" "\<And>e. e \<in> set (members es g) \<Longrightarrow> file_size e = group_file_size g" "groups_laid_out (length es) gs"
      using assms that by (simp_all add: groups_sized_def)
    show len: "size (mset (members es g)) = entry_count g" using length_members [OF g(3) that] by simp
    then have "mset (members es g) \<noteq> {#}" using g(1) by auto
    then show "redundant_bytes (mset (members es g)) = (entry_count g - 1) * unat (group_file_size g)"
      using redundant_bytes_same_size [of "mset (members es g)" "group_file_size g"] g(2) len by simp
    show "1 \<le> entry_count g" using g(1) by simp
  qed
  have "(\<Sum>g \<leftarrow> gs. size (mset (members es g)) - 1) = (\<Sum>g \<leftarrow> gs. entry_count g - 1)"
    and "(\<Sum>g \<leftarrow> gs. redundant_bytes (mset (members es g))) = (\<Sum>g \<leftarrow> gs. (entry_count g - 1) * unat (group_file_size g))"
    using member by (simp_all cong: map_cong)
  then show ?thesis using duplicate_totals_from [of gs 0 0] two unfolding duplicate_totals_def by simp
qed

section \<open>Totals over the classes\<close>

text \<open>A list of groups without repetition sums to what the set of their multisets does.\<close>

lemma sum_groups:
  assumes "distinct (map (\<lambda>g. mset (members es g)) gs)" and "mset ` set (map (members es) gs) = image_mset f ` A"
    and "inj_on (image_mset f) A"
  shows "(\<Sum>g \<leftarrow> gs. F (mset (members es g))) = (\<Sum>C \<in> A. F (image_mset f C))" and "length gs = card A"
proof -
  let ?ms = "map (\<lambda>g. mset (members es g)) gs"
  have set: "set ?ms = image_mset f ` A" using assms(2) by (simp add: image_image)
  have "(\<Sum>g \<leftarrow> gs. F (mset (members es g))) = sum_list (map F ?ms)" by (simp add: comp_def)
  also have "\<dots> = sum F (image_mset f ` A)" using sum_list_distinct_conv_sum_set [OF assms(1)] set by metis
  also have "\<dots> = (\<Sum>C \<in> A. F (image_mset f C))" using assms(3) by (simp add: sum.reindex)
  finally show "(\<Sum>g \<leftarrow> gs. F (mset (members es g))) = (\<Sum>C \<in> A. F (image_mset f C))" .
  show "length gs = card A" using distinct_card [OF assms(1)] set card_image [OF assms(3)] by simp
qed

lemma dup_classes_inj:
  assumes "equivp s" and "\<And>x y. x \<in># M \<Longrightarrow> y \<in># M \<Longrightarrow> f x = f y \<Longrightarrow> s x y"
  shows "inj_on (image_mset f) (dup_classes s M)"
proof (rule inj_onI)
  fix C D assume C: "C \<in> dup_classes s M" and D: "D \<in> dup_classes s M" and eq: "image_mset f C = image_mset f D"
  obtain x where x: "x \<in># M" "C = filter_mset (s x) M" using C by (auto simp: dup_classes_def)
  obtain y where y: "y \<in># M" "D = filter_mset (s y) M" using D by (auto simp: dup_classes_def)
  have "x \<in># C" using x equivp_reflp [OF assms(1)] by simp
  then have "f x \<in># image_mset f D" unfolding eq [symmetric] by simp
  then obtain z where z: "z \<in># D" "f x = f z" by auto
  have "z \<in># M" "s y z" using z(1) unfolding y(2) by simp_all
  have "s x z" using assms(2) [OF x(1) \<open>z \<in># M\<close> z(2)] .
  then have "s z x" by (rule equivp_symp [OF assms(1)])
  with \<open>s y z\<close> have "s y x" by (rule equivp_transp [OF assms(1)])
  then have "s x = s y" using assms(1) by (metis equivp_def)
  then show "C = D" using x(2) y(2) by simp
qed

section \<open>Properties\<close>

text \<open>Statistics that are the totals of the classes of an equality among the kept files.\<close>

definition statistics_right ::
  "('x, 'c, 'd) app_env \<Rightarrow> cli_options \<Rightarrow> file_entry list \<Rightarrow> (file_entry \<Rightarrow> file_entry \<Rightarrow> bool) \<Rightarrow> statistics \<Rightarrow> bool" where
  "statistics_right env opts es same stats \<longleftrightarrow>
    (let kept = kept_files env opts es; classes = dup_classes same kept in
     files_scanned stats = of_nat (length es) \<and>
     hardlinks_collapsed stats = of_nat (length es - size kept) \<and>
     size_candidate_count stats = of_nat (size {#x \<in># kept. 2 \<le> size {#y \<in># kept. same_size x y#}#}) \<and>
     files_hashed_fast stats = size_candidate_count stats \<and>
     duplicate_group_count stats = of_nat (card classes) \<and>
     duplicate_file_count stats = of_nat (\<Sum>C \<in> classes. size C - 1) \<and>
     wasted_bytes stats = of_nat (\<Sum>C \<in> classes. redundant_bytes C))"

text \<open>What the size pass counts.\<close>

lemma size_pass_counts:
  assumes "sort_contract srt" and "grouping_by_size srt m es mh = (Some sizes, m')"
  shows "out_hardlinks_collapsed sizes = length es - length (kept_entries srt es mh)"
    and "out_candidate_count sizes = total_candidates (out_groups sizes)"
    and "out_candidate_count sizes =
      size {#x \<in># mset (kept_entries srt es mh). 2 \<le> size {#y \<in># mset (kept_entries srt es mh). same_size x y#}#}"
proof -
  note spec = grouping_by_size_spec [OF assms]
  show "out_hardlinks_collapsed sizes = length es - length (kept_entries srt es mh)" by (rule spec(5))
  show "out_candidate_count sizes = total_candidates (out_groups sizes)" using spec(4) by (simp add: total_candidates_def)
  have "map entry_count (out_groups sizes) = map length (map (members (out_entries sizes)) (out_groups sizes))"
    using length_members [OF grouping_by_size_laid_out [OF assms]] by simp
  then have "out_candidate_count sizes = sum_list (map length (dup_runs same_size (kept_entries srt es mh)))"
    unfolding spec(4) grouping_by_size_members [OF assms] by simp
  then show "out_candidate_count sizes =
      size {#x \<in># mset (kept_entries srt es mh). 2 \<le> size {#y \<in># mset (kept_entries srt es mh). same_size x y#}#}"
    using size_runs.length_dup_runs [OF kept_entries_ordered [OF assms(1)]] by simp
qed

lemma statistics_of_classes:
  assumes "sort_contract (entry_sorter env)" and "statistics_computed env st h stats" and "groups_listed h"
    and "mset ` set (map (members (final_entries h)) (final_groups h)) =
      image_mset f ` dup_classes same (kept_files env (app_options st) (the (app_entries st)))"
    and "equivp same" and "\<And>e. file_size (f e) = file_size e"
    and "\<And>x y. x \<in># kept_files env (app_options st) (the (app_entries st)) \<Longrightarrow>
      y \<in># kept_files env (app_options st) (the (app_entries st)) \<Longrightarrow> f x = f y \<Longrightarrow> same x y"
  shows "statistics_right env (app_options st) (the (app_entries st)) same stats"
proof -
  let ?kept = "kept_files env (app_options st) (the (app_entries st))"
  let ?classes = "dup_classes same ?kept"
  obtain sizes m m' wall where group: "grouping_by_size (entry_sorter env) m (the (app_entries st)) (match_hardlinks (app_options st)) = (Some sizes, m')"
    and stats: "stats = run_statistics (length (the (app_entries st))) sizes h wall"
    and fast: "fast_hashed h = total_candidates (out_groups sizes)"
    using assms(2) unfolding statistics_computed_def by (elim exE conjE)
  have sized: "groups_sized (final_entries h) (final_groups h)"
    and distinct: "distinct (map (\<lambda>g. mset (members (final_entries h) g)) (final_groups h))"
    using assms(3) by (simp_all add: groups_listed_def)
  have inj: "inj_on (image_mset f) ?classes" by (rule dup_classes_inj [OF assms(5,7)])
  note sum = sum_groups [OF distinct assms(4) inj]
  have "redundant_bytes (image_mset f C) = redundant_bytes C" for C
    by (simp add: redundant_bytes_def assms(6) multiset.map_comp comp_def image_image)
  then have totals: "duplicate_totals (final_groups h) = (of_nat (\<Sum>C \<in> ?classes. size C - 1), of_nat (\<Sum>C \<in> ?classes. redundant_bytes C))"
    unfolding duplicate_totals_sized [OF sized] sum(1) [of "\<lambda>C. size C - 1"] sum(1) [of redundant_bytes] by simp
  have "size ?kept = length (kept_entries (entry_sorter env) (the (app_entries st)) (match_hardlinks (app_options st)))"
    by (simp add: kept_files_def)
  then show ?thesis
    using size_pass_counts [OF assms(1) group] fast sum(2)
    by (simp add: statistics_right_def stats run_statistics_def totals kept_files_def)
qed

text \<open>Files whose hashed entries are equal are the same for the passes.\<close>

lemma hashed_entry_same:
  assumes "ready_entry env disk x" and "ready_entry env disk y" and "hashed_entry env ds disk alg x = hashed_entry env ds disk alg y"
  shows "same_size_and_hashes env ds disk alg x y"
proof -
  have "file_size (hashed_entry env ds disk alg e) = file_size e"
    "fast_hash (hashed_entry env ds disk alg e) = fast_hash (fast_hash_entry (files_io env) (block_hash env) e)" for e
    by (simp_all add: hashed_entry_def fast_hash_entry_identity)
  then have "file_size x = file_size y"
    "fast_hash (fast_hash_entry (files_io env) (block_hash env) x) = fast_hash (fast_hash_entry (files_io env) (block_hash env) y)"
    using assms(3) by metis+
  then show ?thesis
    using assms(3) by (simp add: same_size_and_hashes_def same_hashes_entry [OF assms(1,2)] same_size_def same_fast_hash_def same_digest_def)
qed

lemma same_size_and_hashes_equivp: "equivp (same_size_and_hashes env ds disk alg)"
  by (rule equivpI) (auto simp: same_size_and_hashes_def same_hashes_def same_size_def intro!: reflpI sympI transpI)



end
