(* ===== verification/Report_Safety.thy ===== *)
theory Report_Safety
  imports Run_Totals
begin

text \<open>
  What a report never does, whatever fails, changes or is interrupted on the way: the passes
  only ever write hashes into the entries, so files of different sizes are never grouped and no
  file is reported twice.
\<close>

section \<open>What the passes keep\<close>

text \<open>An entry without what the passes compute: its path, size, device and inode.\<close>

definition unhashed :: "file_entry \<Rightarrow> file_entry" where
  "unhashed e = new_entry (absolute_path e) (file_size e) (device_id e) (inode_number e)"

lemma unhashed_simps [simp]:
  "absolute_path (unhashed e) = absolute_path e" "file_size (unhashed e) = file_size e" "unhashed (unhashed e) = unhashed e"
  by (simp_all add: unhashed_def new_entry_def)

lemma unhashed_fresh: "fresh_entry e \<Longrightarrow> unhashed e = e"
  by (simp add: fresh_entry_def unhashed_def)

lemma unhashed_fast_hash_entry: "unhashed (fast_hash_entry io xxh e) = unhashed e"
  by (simp add: unhashed_def fast_hash_entry_def Let_def split: sum.splits)

lemma store_result_keeps:
  "unhashed (store_result api item e) = unhashed e" "fast_hash (store_result api item e) = fast_hash e"
  by (simp_all add: unhashed_def store_result_def Let_def split: prod.splits)

text \<open>Writing to a cell a value of the same key keeps the keys, within the array and beyond.\<close>

lemma map_update_same: "f x = f (xs ! j) \<Longrightarrow> map f (xs[j := x]) = map f xs"
  by (cases "j < length xs") (simp_all add: map_update list_update_same_conv list_update_beyond)

lemma fast_iteration_keeps: "map unhashed (fast_iteration io xxh stop ixs i es) = map unhashed es"
  by (simp add: fast_iteration_def Let_def map_update_same unhashed_fast_hash_entry)

lemma worker_fast_pass_keeps:
  assumes "worker_fast_pass srt par io xxh stop m es gs = (ok, es', k, m')"
  shows "map unhashed es' = map unhashed es"
proof -
  have "map unhashed (fold (fast_iteration io xxh stop ixs) ord es) = map unhashed es" for ixs ord
    by (induction ord arbitrary: es) (simp_all add: fast_iteration_keeps)
  then show ?thesis
    using assms by (auto simp: worker_fast_pass_def Let_def split: if_splits option.splits prod.splits)
qed

text \<open>The full pass keeps the fast hashes too.\<close>

definition undigested :: "file_entry \<Rightarrow> file_entry \<times> u64" where
  "undigested e = (unhashed e, fast_hash e)"

lemma store_results_keep: "map undigested (store_results api js items es) = map undigested es"
  by (induction api js items es rule: store_results.induct) (simp_all add: undigested_def store_result_keeps map_update_same)

lemma process_batch_keeps:
  "process_batch io urings api alg stale batch r es = Some (r', es') \<Longrightarrow> map undigested es' = map undigested es"
  by (auto simp: process_batch_def Let_def store_results_keep split: option.splits prod.splits)

lemma full_iter_keeps: "map undigested (state_entries (full_iter io env api alg ixs i st)) = map undigested (state_entries st)"
  by (auto simp: full_iter_def Let_def split: prod.splits option.splits dest: process_batch_keeps)

lemma worker_full_pass_keeps:
  assumes "worker_full_pass srt par io env api reg stop pools m alg es gs single = Some (ok, es', k, m')"
  shows "map undigested es' = map undigested es"
proof -
  have "map undigested (state_entries (fold (full_iter io env api alg ixs) ord st)) = map undigested (state_entries st)" for ixs ord st
    by (induction ord arbitrary: st) (simp_all add: full_iter_keeps)
  then show ?thesis
    using assms by (auto simp: worker_full_pass_def Let_def split: if_splits option.splits prod.splits)
qed

section \<open>What the groupings keep\<close>

text \<open>Groups depend on their entries through a key that the passes keep.\<close>

lemma map_members: "map f (members es g) = members (map f es) g"
  by (simp add: members_def segment_def take_map drop_map)

lemma groups_apart_key:
  assumes "groups_apart (\<lambda>x y. R (key x) (key y)) es gs" and "map key es' = map key es"
    and "\<And>e. file_size e = sz (key e)"
  shows "groups_apart (\<lambda>x y. R (key x) (key y)) es' gs"
proof -
  have len: "length es' = length es" using assms(2) by (metis length_map)
  have mem: "map key (members es' g) = map key (members es g)" for g by (simp only: map_members assms(2))
  have sizes: "(\<forall>e \<in> set (members xs g). file_size e = n) \<longleftrightarrow> (\<forall>z \<in> set (map key (members xs g)). sz z = n)" for xs g n
    by (simp add: assms(3))
  have "apart (\<lambda>x y. R (key x) (key y)) ms \<longleftrightarrow> apart R (map (map key) ms)" for ms
    by (simp add: apart_def sorted_wrt_map)
  then show ?thesis
    using assms(1) unfolding groups_apart_def groups_sized_def sizes len by (simp add: mem comp_def)
qed

text \<open>The files the groups name, each as often as it stands in one.\<close>

definition grouped_files :: "file_entry list \<Rightarrow> group list \<Rightarrow> file_entry multiset" where
  "grouped_files es gs = mset (map unhashed (concat (map (members es) gs)))"

lemma grouped_files_keep:
  assumes "map unhashed es' = map unhashed es"
  shows "grouped_files es' gs = grouped_files es gs"
  unfolding grouped_files_def map_concat by (simp add: map_members assms comp_def)

lemma dup_runs_subset: "mset (concat (dup_runs same xs)) \<subseteq># mset xs"
proof -
  have "mset (concat (filter P rs)) \<subseteq># mset (concat rs)" for P and rs :: "'a list list"
    by (induction rs) (auto intro: subset_mset.add_mono subset_mset.add_increasing)
  then show ?thesis unfolding dup_runs_def by (metis concat_runs)
qed

lemma regrouped_subset:
  assumes "sort_contract srt" and "comparator lt"
  shows "mset (concat (regrouped srt lt same ms)) \<subseteq># mset (concat ms)"
proof (induction ms)
  case (Cons xs ms)
  have "mset (concat (dup_runs same (srt lt xs))) \<subseteq># mset xs"
    using dup_runs_subset [of same "srt lt xs"] sort_contract_mset [OF assms] by simp
  then show ?case using Cons by (simp add: regrouped_def subset_mset.add_mono)
qed (simp add: regrouped_def)

lemma grouped_files_regrouped:
  assumes "map (members es') gs' = regrouped srt lt same (map (members es) gs)" and "sort_contract srt" and "comparator lt"
  shows "grouped_files es' gs' \<subseteq># grouped_files es gs"
  using image_mset_subseteq_mono [OF regrouped_subset [OF assms(2,3), of same "map (members es) gs"], of unhashed]
  by (simp add: grouped_files_def assms(1))

text \<open>
  The hashing and grouping passes together, whatever happens in them: groups come apart and
  lose files, and nothing else.
\<close>

lemma run_hashing_keeps:
  assumes "run_hashing env opts m fs es gs = Some (Some h, m', fs')"
    and sorts: "sort_contract (entry_sorter env)" "compare_contract (digest_compare env)"
    and spans: "groups_apart same_size es gs"
  shows "groups_listed h \<and> grouped_files (final_entries h) (final_groups h) \<subseteq># grouped_files es gs"
proof -
  let ?n = "worker_digest_size (opt_algorithm opts)"
  obtain es1 k m1 where fast: "worker_fast_pass (index_sorter env) (fast_par env) (files_io env) (block_hash env) (fast_stop env) m es gs =
      (True, es1, k, m1)"
    using assms(1) by (auto simp: run_hashing_def split: prod.splits if_splits)
  obtain r m2 where group: "grouping_by_fast_hash (entry_sorter env) m1 es1 gs = (Some r, m2)"
    using assms(1) fast by (auto simp: run_hashing_def split: prod.splits option.splits)
  note kept1 = worker_fast_pass_keeps [OF fast]
  have spans1: "groups_apart same_size es1 gs"
    using groups_apart_key [where key = unhashed and sz = file_size and R = same_size and es' = es1] spans kept1
    by (simp add: same_size_def [abs_def])
  note stage1 = grouping_by_fast_hash_Some [OF group sorts(1) groups_sized_laid_out [OF groups_apart_sized [OF spans1]]]
  have spans2: "groups_apart same_candidate (out_entries r) (out_groups r)"
    unfolding same_candidate_def [abs_def]
    by (rule groups_apart_stage [OF stage1(2,1) sorts(1) fast_order.grouping_order_axioms spans1])
  have files2: "grouped_files (out_entries r) (out_groups r) \<subseteq># grouped_files es gs"
    using grouped_files_regrouped [OF stage1(1) sorts(1) fast_order.comparator_axioms] grouped_files_keep [OF kept1] by metis
  show ?thesis
  proof (cases "out_groups r = []")
    case True
    then have "final_groups h = []" using assms(1) fast group by (auto simp: run_hashing_def)
    then show ?thesis by (simp add: groups_listed_def grouped_files_def)
  next
    case False
    obtain single fs'' es2 k2 m3 r2 m4 where
      full: "worker_full_pass (index_sorter env) (full_par env) (files_io env) (full_answers env) (digest_api env)
        (slots_registered env) (full_stop env) (full_pools env) m2 (opt_algorithm opts) (out_entries r) (out_groups r) single
        = Some (True, es2, k2, m3)"
      and regroup: "grouping_by_full_hash (entry_sorter env) (digest_compare env) m3 es2 (out_groups r) ?n = (Some r2, m4)"
      and h: "final_entries h = out_entries r2" "final_groups h = out_groups r2"
      using assms(1) fast group False by (auto simp: run_hashing_def split: prod.splits option.splits if_splits)
    note kept2 = worker_full_pass_keeps [OF full]
    have spans3: "groups_apart same_candidate es2 (out_groups r)"
      using groups_apart_key [where key = undigested and sz = "\<lambda>z. file_size (fst z)" and es' = es2
          and R = "\<lambda>x y. file_size (fst x) = file_size (fst y) \<and> snd x = snd y"] spans2 kept2
      by (simp add: undigested_def same_candidate_def [abs_def] same_size_def same_fast_hash_def)
    note stage2 = grouping_by_full_hash_Some [OF regroup sorts groups_sized_laid_out [OF groups_apart_sized [OF spans3]]]
    note order = digest_order [OF sorts(2), of ?n]
    have "groups_apart (\<lambda>x y. same_candidate x y \<and> same_digest ?n x y) (final_entries h) (final_groups h)"
      unfolding h by (rule groups_apart_stage [OF stage2(2,1) sorts(1) order spans3])
    then have listed: "groups_listed h" by (rule groups_listed_apart)
    have "map unhashed es2 = map unhashed (out_entries r)"
      using arg_cong [OF kept2, of "map fst"] by (simp add: undigested_def comp_def)
    then have "grouped_files es2 (out_groups r) = grouped_files (out_entries r) (out_groups r)" by (rule grouped_files_keep)
    moreover have "comparator (full_hash_less_than (digest_compare env) ?n)" using order by (simp add: grouping_order_def)
    then have "grouped_files (final_entries h) (final_groups h) \<subseteq># grouped_files es2 (out_groups r)"
      unfolding h by (rule grouped_files_regrouped [OF stage2(1) sorts(1)])
    ultimately show ?thesis using listed files2 by (metis subset_mset.order_trans)
  qed
qed

lemma run_grouping_reports:
  assumes "run_grouping env st = Some (ok, st')" and "report st = None" and "report st' = Some (target, text)"
  obtains m1 sizes m2 h m3 fs stats st0 where
    "grouping_by_size (entry_sorter env) m1 (the (app_entries st)) (match_hardlinks (app_options st)) = (Some sizes, m2)"
    and "run_hashing env (app_options st) m2 (cache_files st) (out_entries sizes) (out_groups sizes) = Some (Some h, m3, fs)"
    and "statistics_computed env st h stats" and "report st0 = None"
    and "groups_listed h \<Longrightarrow> groups_written env st h stats st0"
proof -
  obtain b m1 where alloc: "pool_allocate (app_pool st) = (Some b, m1)"
    and get: "\<not> list_ex (\<lambda>index. \<not> entry_get_ok env index) [0 ..< length (the (app_entries st))]"
    using assms by (auto simp: run_grouping_def Let_def split: option.splits prod.splits if_splits)
  obtain sizes m2 where group: "grouping_by_size (entry_sorter env) m1 (the (app_entries st)) (match_hardlinks (app_options st)) = (Some sizes, m2)"
    and ne: "out_groups sizes \<noteq> []"
    using assms alloc get by (auto simp: run_grouping_def Let_def split: option.splits prod.splits if_splits)
  obtain h m3 fs where hash: "run_hashing env (app_options st) m2 (cache_files st) (out_entries sizes) (out_groups sizes) = Some (Some h, m3, fs)"
    using assms alloc get group ne by (auto simp: run_grouping_def Let_def split: option.splits prod.splits)
  let ?stats = "run_statistics (length (the (app_entries st))) sizes h (main_monotonic_ms (clock_ended env) - main_monotonic_ms (clock_started env))"
  let ?st0 = "st\<lparr>app_pool := pool_free b (free_if_set (out_block sizes)
    (free_if_set (fast_block h) (free_if_set (final_block h) m3))), cache_files := fs\<rparr>"
  have computed: "statistics_computed env st h ?stats"
    using group run_hashing_fast_count [OF hash] unfolding statistics_computed_def by blast
  have "groups_written env st h ?stats ?st0" if "groups_listed h"
    using that computed alloc get group ne hash
    by (simp add: groups_written_def run_grouping_def Let_def split: option.splits prod.splits)
  moreover have "report ?st0 = None" using assms(2) by simp
  ultimately show thesis using that [OF group hash computed] by blast
qed

section \<open>Properties\<close>

text \<open>C3
  Whatever fails, changes or is interrupted during a run, as long as sort and comparison keep
  their contracts: every group it reports has two files or more, all of one size; no group
  stands twice, and each kept file stands at most once in all groups together; and the duplicate
  files and wasted bytes of the statistics are the totals of the groups reported.
\<close>

theorem every_report_groups_equal_sizes_once:
  assumes "sort_contract (entry_sorter env)" and "compare_contract (digest_compare env)"
    and "application_run env st = Some (ok, st')" and "run_discovery env st = Some (True, st1)"
    and "report st = None" and "report st' = Some (target, text)"
  shows "\<exists>h stats format. choose_output env (app_options st) = Some (target, format) \<and>
    prefix text (report_text (numbers env) (app_options st) format h stats) \<and>
    (exit_code st' = 0 \<longrightarrow> text = report_text (numbers env) (app_options st) format h stats) \<and>
    groups_listed h \<and>
    grouped_files (final_entries h) (final_groups h) \<subseteq># kept_files env (app_options st) (the (app_entries st1)) \<and>
    duplicate_group_count stats = of_nat (length (final_groups h)) \<and>
    duplicate_file_count stats = of_nat (\<Sum>g \<leftarrow> final_groups h. size (mset (members (final_entries h) g)) - 1) \<and>
    wasted_bytes stats = of_nat (\<Sum>g \<leftarrow> final_groups h. redundant_bytes (mset (members (final_entries h) g)))"
proof -
  let ?es = "the (app_entries st1)"
  have keep: "app_options st1 = app_options st" "report st1 = None"
    using run_discovery_keeps [OF assms(4)] assms(5) by simp_all
  have run: "run_grouping env st1 = Some (ok, st')" using application_run_reports [OF assms(3,4,5)] assms(6) by auto
  from run_grouping_reports [OF run keep(2) assms(6)]
  obtain m1 sizes m2 h m3 fs stats st0 where
    group: "grouping_by_size (entry_sorter env) m1 ?es (match_hardlinks (app_options st1)) = (Some sizes, m2)"
    and hash: "run_hashing env (app_options st1) m2 (cache_files st1) (out_entries sizes) (out_groups sizes) = Some (Some h, m3, fs)"
    and stats: "statistics_computed env st1 h stats" and st0: "report st0 = None"
    and writing: "groups_listed h \<Longrightarrow> groups_written env st1 h stats st0" by metis
  note hashed = run_hashing_keeps [OF hash assms(1,2) grouping_by_size_apart [OF assms(1) group]]
  then have listed: "groups_listed h" by simp
  obtain format where out: "choose_output env (app_options st) = Some (target, format)"
    "prefix text (report_text (numbers env) (app_options st) format h stats)"
    "exit_code st' = 0 \<longrightarrow> text = report_text (numbers env) (app_options st) format h stats"
    using written_report [OF writing [OF listed] run st0 assms(6)] unfolding keep(1) by blast
  let ?kept = "kept_entries (entry_sorter env) ?es (match_hardlinks (app_options st1))"
  have "unhashed e = e" if "e \<in> set ?kept" for e
    using that kept_files_subset [OF assms(1), of "app_options st1" ?es] run_discovery_fresh [OF assms(4)] unhashed_fresh
    by (auto simp: kept_files_def)
  then have fresh: "map unhashed ?kept = ?kept" by (simp add: map_idI)
  have "grouped_files (out_entries sizes) (out_groups sizes) = image_mset unhashed (mset (concat (dup_runs same_size ?kept)))"
    by (simp add: grouped_files_def grouping_by_size_members [OF assms(1) group])
  also have "\<dots> \<subseteq># image_mset unhashed (mset ?kept)" by (rule image_mset_subseteq_mono [OF dup_runs_subset])
  also have "image_mset unhashed (mset ?kept) = kept_files env (app_options st) ?es"
    using fresh by (metis kept_files_def keep(1) mset_map)
  finally have within: "grouped_files (final_entries h) (final_groups h) \<subseteq># kept_files env (app_options st) ?es"
    using hashed by (metis subset_mset.order_trans)
  have sized: "groups_sized (final_entries h) (final_groups h)" using listed by (simp add: groups_listed_def)
  have "duplicate_group_count stats = of_nat (length (final_groups h)) \<and>
    (duplicate_file_count stats, wasted_bytes stats) = duplicate_totals (final_groups h)"
    using stats by (cases "duplicate_totals (final_groups h)") (auto simp: statistics_computed_def run_statistics_def)
  then show ?thesis using out listed within duplicate_totals_sized [OF sized]
    by (intro exI [of _ h] exI [of _ stats] exI [of _ format]) simp
qed

theorem every_report_groups_equal_sizes_once_witness:
  "\<exists>st' h. application_run sample_app pair_start = Some (True, st') \<and>
    report st' = Some (Standard_output, simple_report (final_entries h) (final_groups h)) \<and>
    groups_listed h \<and> grouped_files (final_entries h) (final_groups h) \<subseteq># mset (pair_entries 2)"
proof -
  obtain st1 where st1: "run_discovery sample_app pair_start = Some (True, st1)" "app_entries st1 = Some (pair_entries 2)"
    using sample_run_discovery by blast
  obtain st' t where st': "application_run sample_app pair_start = Some (True, st')"
      "report st' = Some (Standard_output, t)" "exit_code st' = 0" using sample_run_succeeds by blast
  have contracts: "sort_contract (entry_sorter sample_app)" "compare_contract (digest_compare sample_app)"
    using sample_pipeline by (simp_all add: pipeline_setting_def)
  have chosen: "choose_output sample_app pair_options = Some (Standard_output, OUTPUT_FORMAT_SIMPLE)"
    by (simp add: choose_output_def pair_options_def)
  obtain h stats format where h: "choose_output sample_app pair_options = Some (Standard_output, format)"
    "t = report_text (numbers sample_app) pair_options format h stats" "groups_listed h"
    "grouped_files (final_entries h) (final_groups h) \<subseteq># mset (pair_entries 2)"
    using every_report_groups_equal_sizes_once [OF contracts st'(1) st1(1) pair_start_fields(2) st'(2)] st'(3)
    by (auto simp: pair_start_fields st1(2) pair_kept)
  have "t = simple_report (final_entries h) (final_groups h)"
    using h(1,2) chosen by (simp add: report_text_def) (simp add: pair_options_def)
  then show ?thesis using st' h(3,4) by blast
qed

end
