(* ===== verification/Ring_Leftovers.thy ===== *)
theory Ring_Leftovers
  imports Ring_Delivery
begin

text \<open>
  What a ring does after a wait that failed: the completions that were not waited for stay in
  its queue, and the next batch, whose tags are the same slot numbers, takes them for its own.
\<close>

section \<open>Two batches on one ring\<close>

text \<open>A kernel that takes the submission and fails the first wait.\<close>

definition failing_kernel :: "int \<Rightarrow> uring" where
  "failing_kernel err sqes = (int (length sqes), [Inl err])"

text \<open>The same kernel at the next submission: the completions of the earlier one come first.\<close>

definition late_kernel :: "(string \<Rightarrow> file_answer) \<Rightarrow> sqe list \<Rightarrow> uring" where
  "late_kernel disk earlier sqes = (int (length sqes), map Inr (chain_answers disk earlier @ chain_answers disk sqes))"

lemma failing_kernel_honest:
  assumes "err \<noteq> EINTR" and "length items \<le> READER_RING_SLOT_COUNT"
  shows "honest_ring content items (\<lambda>_. failing_kernel err)"
  using assms by (auto simp: honest_ring_def failing_kernel_def answers_chunk_def waits_suffice_def)

lemma drain_enough:
  "drain_completions s2i consume (length es) (map Inr es @ rest) st = drain_completions s2i consume (length es) (map Inr es) st"
  by (induction es arbitrary: st) simp_all

lemma ring_outcome_reset: "ring_outcome consume ans (reset_item item) = ring_outcome consume ans item"
  by (simp add: ring_outcome_def reset_item_def fail_item_def item_outcome_def split: sum.split prod.split)

text \<open>What is left over answers a batch of the same sizes, with the earlier contents.\<close>

lemma late_answers:
  assumes "map item_size as = map item_size bs" and "length bs \<le> READER_RING_SLOT_COUNT"
  shows "length (chain_answers disk (slot_chains 0 as)) = 4 * length bs"
    and "answers_chunk (\<lambda>i. disk (item_path (as ! i))) bs [0 ..< length bs] (map Inr (chain_answers disk (slot_chains 0 as)))"
proof -
  let ?content = "\<lambda>i. disk (item_path (as ! i))" and ?n = "length bs"
  have len: "length as = ?n" using assms(1) by (metis length_map)
  have item_eq: "item_size (as ! k) = item_size (bs ! k)" if "k < ?n" for k
    using assms(1) that len by (metis nth_map)
  have "map (\<lambda>(k, it). chain_results (disk (item_path it)) k it 0) (enumerate 0 as) =
      map (slot_results ?content bs [0 ..< ?n]) [0 ..< ?n]"
    by (rule nth_equalityI) (auto simp: len nth_enumerate_eq slot_results_def intro: chain_results_cong item_eq)
  then have late: "chain_answers disk (slot_chains 0 as) = concat (map (slot_results ?content bs [0 ..< ?n]) [0 ..< ?n])"
    by (simp add: chain_answers_chains)
  show "length (chain_answers disk (slot_chains 0 as)) = 4 * ?n"
    unfolding late by (simp add: length_concat comp_def slot_results_def chain_results_length sum_list_triv)
  show "answers_chunk ?content bs [0 ..< ?n] (map Inr (chain_answers disk (slot_chains 0 as)))"
    unfolding late using in_order_ring_answers [of "[0 ..< ?n]" ?content bs] assms(2) by simp
qed

lemma late_chunk:
  assumes sizes: "map item_size as = map item_size bs" and few: "length bs \<le> READER_RING_SLOT_COUNT" and "bs \<noteq> []"
    and fits: "\<forall>b \<in> set bs. fits_in_slot b" and known: "\<forall>a \<in> set as. answer_ok (disk (item_path a))" and idle: "ring_idle r"
  shows "\<exists>r' bs'. drive_chunk (late_kernel disk (slot_chains 0 as)) r (map reset_item bs) 0 (length bs) consume = Some (True, r', bs') \<and>
    length bs' = length bs \<and> (\<forall>i < length bs. bs' ! i = ring_outcome consume (disk (item_path (as ! i))) (bs ! i))"
proof -
  let ?n = "length bs" and ?items = "map reset_item bs" and ?late = "chain_answers disk (slot_chains 0 as)"
  let ?r1 = "r\<lparr>sq_entries := slot_chains 0 (map ((!) ?items) [0 ..< ?n])\<rparr>"
  let ?zero = "replicate READER_RING_SLOT_COUNT (0 :: nat)"
  have fit: "filter (\<lambda>i. fits_in_slot (?items ! i)) [0 ..< 0 + ?n] = [0 ..< ?n]" using fits by (simp add: filter_id_conv)
  have submitted: "submit_slots r ?items [0 ..< 0 + ?n] [] = (True, ?r1, [0 ..< ?n])"
    using submit_slots_room [of r "[0 ..< 0 + ?n]" ?items "[]"] idle few unfolding fit
    by (simp add: ring_idle_def RING_QUEUE_DEPTH_def)
  obtain bs' bytes' buffers' where run: "fold (take_cqe [0 ..< ?n] consume) ?late (?items, ?zero, slot_buffers r) = (bs', bytes', buffers')"
    by (metis prod_cases3)
  have drain: "drain_completions [0 ..< ?n] consume (4 * length [0 ..< ?n]) (map Inr ?late) (?items, ?zero, slot_buffers r) =
      Some (True, bs', bytes', buffers')"
    using drain_all [of "[0 ..< ?n]" consume ?late "(?items, ?zero, slot_buffers r)"] run late_answers(1) [OF sizes few] by simp
  then have whole: "drain_completions [0 ..< ?n] consume (4 * length [0 ..< ?n]) (map Inr (?late @ rest)) (?items, ?zero, slot_buffers r) =
      Some (True, bs', bytes', buffers')" for rest
    using drain_enough [of "[0 ..< ?n]" consume ?late "map Inr rest"] late_answers(1) [OF sizes few] by simp
  have chunk: "chunk_ok [0 ..< ?n] (?items, ?zero, slot_buffers r)" using idle few by (simp add: chunk_ok_def ring_idle_def)
  have len: "length as = ?n" using sizes by (metis length_map)
  have cur: "\<forall>i \<in> set [0 ..< ?n]. ?items ! i = reset_item (bs ! i) \<and> fits_in_slot (bs ! i) \<and> answer_ok (disk (item_path (as ! i)))"
    using fits known len by simp
  note outcome = drained_items [OF late_answers(2) [OF sizes few] drain chunk _ cur]
  have "drive_chunk (late_kernel disk (slot_chains 0 as)) r ?items 0 ?n consume =
      Some (True, ?r1\<lparr>sq_entries := [], slot_buffers := buffers'\<rparr>, bs')"
    using assms(3) whole unfolding drive_chunk_def submitted late_kernel_def by simp
  then show ?thesis using outcome(1,5) by (simp add: ring_outcome_reset)
qed

section \<open>Properties\<close>


text \<open>Two files of two bytes each, read one after the other: the second is given the bytes of the first.\<close>

definition leftover_disk :: "string \<Rightarrow> u8 list" where
  "leftover_disk path = (if path = ''/a'' then [1, 2] else [3, 4])"

definition leftover_io :: file_io where
  "leftover_io = (let bytes = (\<lambda>fd. leftover_disk (if fd = 3 then ''/a'' else ''/b'')) in
    \<lparr>io_open = (\<lambda>path noatime. Inr (if path = ''/a'' then 3 else 4)),
     io_pread = (\<lambda>fd n off. Inr (take n (drop off (bytes fd)))),
     io_read = (\<lambda>fd k n. Inr (take n (drop (k * n) (bytes fd))))\<rparr>)"

lemma leftover_io_serves: "serves leftover_io path (leftover_disk path)"
proof -
  have "leftover_disk (if path = ''/a'' then ''/a'' else ''/b'') = leftover_disk path" by (simp add: leftover_disk_def)
  then show ?thesis by (auto simp: serves_def leftover_io_def open_read_only_def)
qed


end
