(* ===== verification/Lifecycle.thy ===== *)
theory Lifecycle
  imports Pipeline
begin

text \<open>
  The life of the application: initialisation, run and clean-up. What each of them owns of the
  main pool, on every path, and the exit codes.
\<close>

section \<open>What the application owns\<close>

definition filter_blocks :: "path_filter option \<Rightarrow> nat multiset" where
  "filter_blocks filt = (case filt of None \<Rightarrow> {#}
     | Some f \<Rightarrow> add_mset (filter_block f) (list_blocks (include_patterns f) + list_blocks (exclude_patterns f)))"

definition owned_paths :: "nat option list \<Rightarrow> nat multiset" where
  "owned_paths blocks = sum_list (map option_blocks blocks)"

definition owned :: "app_state \<Rightarrow> nat multiset" where
  "owned st = filter_blocks (app_filter st) + owned_paths (entry_paths st)"

text \<open>The invariant: beyond what was held at \<open>m\<close>, the pool holds what the state owns.\<close>

definition accounted :: "pool \<Rightarrow> app_state \<Rightarrow> bool" where
  "accounted m st \<longleftrightarrow> holds m (owned st) (app_pool st) \<and> (app_entries st = None \<longrightarrow> entry_paths st = [])"

definition hashed_blocks :: "hashed option \<Rightarrow> nat multiset" where
  "hashed_blocks res = (case res of None \<Rightarrow> {#} | Some h \<Rightarrow> option_blocks (final_block h) + option_blocks (fast_block h))"

definition releases :: "('x, 'c, 'd) app_env \<Rightarrow> bool" where
  "releases env \<longleftrightarrow> (\<forall>m bs m'. holds m bs m' \<longrightarrow> holds m bs (release_worker_path env m'))"

lemma owned_paths_simps [simp]:
  "owned_paths [] = {#}" "owned_paths (b # bs) = option_blocks b + owned_paths bs"
  "owned_paths (bs @ cs) = owned_paths bs + owned_paths cs"
  by (simp_all add: owned_paths_def)

lemma owned_paths_Some: "owned_paths (map Some bs) = mset bs"
  by (induction bs) (simp_all add: option_blocks_def)

lemma owned_paths_None: "owned_paths (replicate n None) = {#}"
  by (induction n) (simp_all add: option_blocks_def)

lemma block_of_Some: "block_of (Some r) = option_blocks (out_block r)"
  by (simp add: block_of_def option_blocks_def)

lemma block_of_None: "block_of None = {#}"
  by (simp add: block_of_def)

section \<open>Each step\<close>

lemma application_init_accounted:
  assumes "application_init env (initial_app opts m fs) = (ok, st)"
  shows "accounted m st"
  using assms filter_create_holds [of m "include_list opts" "exclude_list opts"]
  by (auto simp: application_init_def initial_app_def accounted_def owned_def filter_blocks_def Let_def
      split: if_splits prod.splits option.splits)

lemma run_discovery_accounted:
  assumes "run_discovery env st = Some (ok, st1)" and "accounted m st" and "entry_paths st = []"
  shows "accounted m st1"
proof -
  obtain base :: walk_state where st1: "st1 = st\<lparr>app_pool := walk_memory base, app_entries := Some (found base),
      entry_paths := map Some (path_blocks base) @ replicate (length (found base) - length (path_blocks base)) None,
      app_errors := Some (walk_errors base)\<rparr>"
    and base: "holds (app_pool st) (mset (path_blocks base)) (walk_memory base)"
  proof (cases "effective_workers env \<ge> 2")
    case True
    obtain ok' par where run: "discovery_expand_parallel ((parallel_env env)\<lparr>par_walk := walk_env_of env st\<rparr>)
        (discovery_registered env) (app_pool st) (discovery_pools env) (positional_argument_values (app_options st)) = (ok', par)"
      by (metis prod.exhaust)
    have "root_blocks (app_pool st) (par_base par)"
      using discovery_expand_parallel_blocks [of "app_pool st" "(parallel_env env)\<lparr>par_walk := walk_env_of env st\<rparr>"
          "discovery_registered env" "discovery_pools env" "positional_argument_values (app_options st)"]
      unfolding run by simp
    then show thesis
      using assms(1) True run by (intro that [of "par_base par"]) (simp_all add: run_discovery_def root_blocks_def)
  next
    case False
    then obtain base where walk: "discovery_expand (walk_fuel env) (walk_env_of env st) (inode_set_created env) (app_pool st)
        (positional_argument_values (app_options st)) = Some (ok, base)"
      and state: "st1 = st\<lparr>app_pool := walk_memory base, app_entries := Some (found base),
      entry_paths := map Some (path_blocks base) @ replicate (length (found base) - length (path_blocks base)) None,
      app_errors := Some (walk_errors base)\<rparr>"
      using assms(1) by (auto simp: run_discovery_def Let_def)
    have "holds (app_pool st) (mset (path_blocks base)) (walk_memory base)"
      using discovery_expand_balanced [OF walk] by (simp add: balanced_walk_def)
    with state show thesis by (rule that)
  qed
  have "holds m (filter_blocks (app_filter st)) (app_pool st)" using assms(2,3) by (simp add: accounted_def owned_def)
  from holds_trans [OF this base] show ?thesis
    by (simp add: st1 accounted_def owned_def owned_paths_Some owned_paths_None)
qed

lemma run_hashing_holds:
  assumes "run_hashing env opts m fs es gs = Some (res, m', fs')"
  shows "holds m (hashed_blocks res) m'"
proof -
  obtain ok es1 k m1 where fast: "worker_fast_pass (index_sorter env) (fast_par env) (files_io env) (block_hash env)
      (fast_stop env) m es gs = (ok, es1, k, m1)" by (metis prod.exhaust)
  have m1: "holds m {#} m1" by (rule worker_fast_pass_holds [OF fast])
  show ?thesis
  proof (cases ok)
    case False
    then show ?thesis using assms fast m1 by (simp add: run_hashing_def hashed_blocks_def)
  next
    case True
    obtain answer m2 where group: "grouping_by_fast_hash (entry_sorter env) m1 es1 gs = (answer, m2)" by (metis prod.exhaust)
    have m2: "holds m (block_of answer) m2" using holds_trans [OF m1 grouping_by_fast_hash_holds [OF group]] by simp
    show ?thesis
    proof (cases answer)
      case None
      then show ?thesis using assms fast True group m2 by (simp add: run_hashing_def hashed_blocks_def block_of_None)
    next
      case fast_groups: (Some r)
      have m2: "holds m (option_blocks (out_block r)) m2" using m2 fast_groups by (simp add: block_of_Some)
      show ?thesis
      proof (cases "out_groups r = []")
        case True
        then show ?thesis using assms fast \<open>ok\<close> group fast_groups m2
          by (auto simp: run_hashing_def hashed_blocks_def option_blocks_def)
      next
        case ne: False
        obtain single fs2 where single: "force_single_thread env opts fs (out_groups r) = (single, fs2)" by (metis prod.exhaust)
        obtain ok2 es2 k2 m3 where full: "worker_full_pass (index_sorter env) (full_par env) (files_io env) (full_answers env)
            (digest_api env) (slots_registered env) (full_stop env) (full_pools env) m2 (opt_algorithm opts)
            (out_entries r) (out_groups r) single = Some (ok2, es2, k2, m3)"
          using assms fast \<open>ok\<close> group fast_groups ne single by (auto simp: run_hashing_def split: option.splits prod.splits)
        have m3: "holds m (option_blocks (out_block r)) m3" using holds_trans [OF m2 worker_full_pass_holds [OF full]] by simp
        then have freed: "holds m {#} (free_if_set (out_block r) m3)" by (intro holds_free_if_set) simp
        obtain answer2 m4 where regroup: "grouping_by_full_hash (entry_sorter env) (digest_compare env) m3 es2 (out_groups r)
            (worker_digest_size (opt_algorithm opts)) = (answer2, m4)" by (metis prod.exhaust)
        have m4: "holds m (option_blocks (out_block r) + block_of answer2) m4"
          by (rule holds_trans [OF m3 grouping_by_full_hash_holds [OF regroup]])
        then have freed2: "answer2 = None \<Longrightarrow> holds m {#} (free_if_set (out_block r) m4)"
          by (intro holds_free_if_set) (simp add: block_of_None)
        show ?thesis
          using assms fast \<open>ok\<close> group fast_groups ne single full regroup freed freed2 m4
          by (cases ok2; cases answer2) (auto simp: run_hashing_def hashed_blocks_def block_of_Some ac_simps)
      qed
    qed
  qed
qed


lemma run_grouping_holds:
  assumes "run_grouping env st = Some (ok, st')"
  shows "holds (app_pool st) {#} (app_pool st')" and "app_filter st' = app_filter st" and "app_entries st' = app_entries st"
    and "entry_paths st' = entry_paths st"
proof -
  let ?m = "app_pool st" and ?es = "the (app_entries st)"
  obtain answer m1 where alloc: "pool_allocate ?m = (answer, m1)" by (metis prod.exhaust)
  have same: "app_filter st' = app_filter st \<and> app_entries st' = app_entries st \<and> entry_paths st' = entry_paths st"
    using assms by (auto simp: run_grouping_def Let_def split: option.splits prod.splits if_splits)
  have "holds ?m {#} (app_pool st')"
  proof (cases answer)
    case None
    then show ?thesis using assms alloc by (auto simp: run_grouping_def dest: pool_allocate_holds(2))
  next
    case (Some b)
    then have m1: "holds ?m {#b#} m1" using alloc by (simp add: pool_allocate_holds(1))
    show ?thesis
    proof (cases "list_ex (\<lambda>index. \<not> entry_get_ok env index) [0 ..< length ?es]")
      case True
      then show ?thesis using assms alloc Some pool_free_holds [OF m1] by (auto simp: run_grouping_def)
    next
      case get: False
      obtain sizes m2 where group: "grouping_by_size (entry_sorter env) m1 ?es (match_hardlinks (app_options st)) = (sizes, m2)"
        by (metis prod.exhaust)
      have m2: "holds ?m (add_mset b (block_of sizes)) m2"
        using holds_trans [OF m1 grouping_by_size_block [OF group]] by simp
      show ?thesis
      proof (cases sizes)
        case None
        then show ?thesis using assms alloc Some get group m2 pool_free_holds [of ?m b "{#}" m2]
          by (auto simp: run_grouping_def block_of_None)
      next
        case found: (Some r)
        have free: "holds ?m {#} (pool_free b (free_if_set (out_block r) m'))"
          if "holds ?m (add_mset b (option_blocks (out_block r))) m'" for m'
          using that by (intro pool_free_holds holds_free_if_set) simp
        show ?thesis
        proof (cases "out_groups r = []")
          case True
          then show ?thesis
            using assms alloc Some get group found free m2 by (auto simp: run_grouping_def block_of_Some)
        next
          case False
          have "run_hashing env (app_options st) m2 (cache_files st) (out_entries r) (out_groups r) \<noteq> None"
          proof
            assume "run_hashing env (app_options st) m2 (cache_files st) (out_entries r) (out_groups r) = None"
            then show False using assms alloc Some get group found False by (auto simp: run_grouping_def)
          qed
          then obtain res m3 fs where run: "run_hashing env (app_options st) m2 (cache_files st) (out_entries r) (out_groups r) = Some (res, m3, fs)"
            by auto
          have m3: "holds ?m (add_mset b (option_blocks (out_block r)) + hashed_blocks res) m3"
            using holds_trans [OF m2 run_hashing_holds [OF run]] found by (simp add: block_of_Some)
          show ?thesis
          proof (cases res)
            case None
            then show ?thesis
              using assms alloc Some get group found False run free m3 by (auto simp: run_grouping_def hashed_blocks_def)
          next
            case (Some h)
            have "holds ?m {#} (pool_free b (free_if_set (out_block r) (free_if_set (fast_block h) (free_if_set (final_block h) m3))))"
              using m3 Some by (intro free holds_free_if_set) (simp add: hashed_blocks_def ac_simps)
            then show ?thesis
              using assms alloc \<open>answer = Some b\<close> get group found False run Some
              by (auto simp: run_grouping_def Let_def split: option.splits prod.splits)
          qed
        qed
      qed
    qed
  qed
  then show "holds ?m {#} (app_pool st')" and "app_filter st' = app_filter st" and "app_entries st' = app_entries st"
    and "entry_paths st' = entry_paths st"
    using same by simp_all
qed

lemma run_grouping_accounted:
  assumes "run_grouping env st = Some (ok, st')" and "accounted m st"
  shows "accounted m st'"
  using run_grouping_holds [OF assms(1)] assms(2) holds_trans [of m "owned st" "app_pool st" "{#}" "app_pool st'"]
  by (simp add: accounted_def owned_def)

lemma accounted_exit [simp]: "accounted m (st\<lparr>exit_code := c\<rparr>) = accounted m st"
  by (simp add: accounted_def owned_def)

lemma application_run_accounted:
  assumes "application_run env st = Some (ok, st')" and "accounted m st" and "entry_paths st = []"
  shows "accounted m st'"
proof -
  have "accounted m st1" if "run_discovery env st = Some (r, st1)" for r st1
    by (rule run_discovery_accounted [OF that assms(2,3)])
  then show ?thesis
    using assms(1,2)
    by (auto simp: application_run_def split: if_splits option.splits prod.splits dest: run_grouping_accounted)
qed

lemma free_paths_holds:
  assumes "\<And>i. entry_get_ok env i" and "releases env" and "holds m (bs + owned_paths blocks) m'"
  shows "holds m bs (free_paths env blocks k m')"
  using assms(3)
proof (induction blocks arbitrary: k m')
  case (Cons b blocks)
  have "holds m (bs + owned_paths blocks) (case b of Some b \<Rightarrow> pool_free b m' | None \<Rightarrow> release_worker_path env m')"
    using Cons.prems assms(2) by (cases b) (auto simp: option_blocks_def releases_def intro: pool_free_holds)
  then show ?case using Cons.IH assms(1) by simp
qed simp

lemma application_cleanup_holds:
  assumes "memory_ok env" and "\<And>i. entry_get_ok env i" and "releases env" and "accounted m st"
  shows "holds m {#} (app_pool (application_cleanup env st))"
proof -
  obtain st1 where st1: "st1 = (case app_filter st of None \<Rightarrow> st
      | Some f \<Rightarrow> st\<lparr>app_pool := filter_destroy f (app_pool st), app_filter := None\<rparr>)" by simp
  have "holds m (owned_paths (entry_paths st)) (app_pool st1)"
    using assms(4) filter_destroy_holds [of m "owned_paths (entry_paths st)" _ "app_pool st"]
    by (auto simp: st1 accounted_def owned_def filter_blocks_def ac_simps split: option.splits)
  moreover have "entry_paths st1 = entry_paths st" "app_entries st1 = app_entries st"
    by (auto simp: st1 split: option.splits)
  ultimately have "holds m {#} (free_paths env (entry_paths st1) 0 (app_pool st1))"
    using free_paths_holds [where bs = "{#}", OF assms(2,3)] by simp
  then show ?thesis
    using assms(1,4) \<open>holds m (owned_paths (entry_paths st)) (app_pool st1)\<close> \<open>app_entries st1 = app_entries st\<close>
    by (auto simp: application_cleanup_def st1 [symmetric] Let_def accounted_def split: option.splits)
qed


section \<open>Exit codes\<close>

lemma run_grouping_exit:
  assumes "run_grouping env st = Some (ok, st')"
  shows "exit_code st' = 0 \<or> exit_code st' = 1" and "\<not> ok \<Longrightarrow> exit_code st' = 1 \<and> report st' = report st"
  using assms by (auto simp: run_grouping_def Let_def split: option.splits prod.splits if_splits)

text \<open>The text of a report whose write succeeded is what the writer wrote.\<close>

lemma run_grouping_written:
  assumes "run_grouping env st = Some (ok, st')" and "exit_code st' = 0" and "report st = None" and "report st' = Some (target, text)"
  shows "\<exists>format h stats. choose_output env (app_options st) = Some (target, format) \<and>
    write_report env (report_writer env (app_options st) format h stats) = (True, text)"
  using assms by (auto simp: run_grouping_def Let_def split: option.splits prod.splits if_splits) blast

section \<open>Properties\<close>


text \<open>C15
  The exit code of a run: 130 exactly when a signal arrived during a successful discovery, and
  zero or one otherwise. A run that fails never exits with zero and leaves no report; a run
  that exits with zero has, when it made a report, written all of it.
\<close>

theorem run_exit_codes:
  assumes "application_run env st = Some (ok, st')" and "report st = None"
  shows "exit_code st' \<in> {0, 1, 130} \<and>
    (exit_code st' = 130 \<longleftrightarrow> memory_ok env \<and> parallel_ok env \<and> interrupted env \<and> (\<exists>st1. run_discovery env st = Some (True, st1))) \<and>
    (\<not> ok \<longrightarrow> exit_code st' \<noteq> 0 \<and> report st' = None) \<and>
    (\<forall>target text. exit_code st' = 0 \<longrightarrow> report st' = Some (target, text) \<longrightarrow>
      (\<exists>format h stats. choose_output env (app_options st) = Some (target, format) \<and>
        write_report env (report_writer env (app_options st) format h stats) = (True, text)))"
proof (cases "memory_ok env \<and> parallel_ok env")
  case False
  then have "ok = False" "st' = st\<lparr>exit_code := 1\<rparr>"
    using assms(1) by (auto simp: application_run_def split: if_splits)
  then show ?thesis using False assms(2) by auto
next
  case True
  then obtain r st1 where disc: "run_discovery env st = Some (r, st1)"
    using assms(1) by (auto simp: application_run_def split: option.splits)
  note kept = run_discovery_keeps [OF disc]
  show ?thesis
  proof (cases "r \<and> \<not> interrupted env \<and> the (app_entries st1) \<noteq> []")
    case grouping: True
    then have run: "run_grouping env st1 = Some (ok, st')"
      using assms(1) True disc by (simp add: application_run_def)
    have written: "\<exists>format h stats. choose_output env (app_options st) = Some (target, format) \<and>
        write_report env (report_writer env (app_options st) format h stats) = (True, t)"
      if "exit_code st' = 0" "report st' = Some (target, t)" for target t
      using run_grouping_written [OF run that(1) _ that(2)] kept assms(2) by simp
    have "exit_code st' \<noteq> 130" using run_grouping_exit(1) [OF run] by auto
    then show ?thesis
      using grouping run_grouping_exit [OF run] kept assms(2) written by auto
  next
    case False
    then consider "\<not> r" "ok = False" "st' = st1\<lparr>exit_code := 1\<rparr>"
      | "r" "interrupted env" "ok = False" "st' = st1\<lparr>exit_code := 130\<rparr>"
      | "r" "\<not> interrupted env" "ok = True" "st' = st1\<lparr>exit_code := (if the (app_errors st1) = [] then 0 else 1)\<rparr>"
      using assms(1) True disc by (auto simp: application_run_def split: if_splits)
    then show ?thesis using True disc kept assms(2) by cases simp_all
  qed
qed

section \<open>Witnesses\<close>


theorem run_exit_codes_witness:
  "\<exists>st'. application_run (sample_app\<lparr>interrupted := True\<rparr>) pair_start = Some (False, st') \<and> exit_code st' = 130"
proof -
  obtain st1 where "run_discovery sample_app pair_start = Some (True, st1)" using sample_run_discovery by blast
  moreover have "run_discovery (sample_app\<lparr>interrupted := True\<rparr>) pair_start = run_discovery sample_app pair_start"
    by (simp add: run_discovery_def walk_env_of_def cong: if_cong)
  ultimately have disc: "run_discovery (sample_app\<lparr>interrupted := True\<rparr>) pair_start = Some (True, st1)" by simp
  have ok: "memory_ok (sample_app\<lparr>interrupted := True\<rparr>)" "parallel_ok (sample_app\<lparr>interrupted := True\<rparr>)"
    by (simp_all add: pair_app_def)
  then have run: "\<exists>st'. application_run (sample_app\<lparr>interrupted := True\<rparr>) pair_start = Some (False, st')"
    using disc by (simp add: application_run_def)
  then show ?thesis
    using run_exit_codes [OF _ pair_start_fields(2)] ok disc by fastforce
qed

end
