(* ===== verification/Cli_Options.thy ===== *)
theory Cli_Options
  imports Dup_Text "HOL-Library.Monad_Syntax"
begin

text \<open>
  \<^verbatim>\<open>src/cli/bc_duplicate_cli_spec.c\<close>: the table of options and the binding of their values. The
  parser of the command line and its store of values belong to the base library: the store is a
  parameter that answers by key. Messages to standard error are left out.
\<close>

section \<open>The table of options\<close>

datatype option_type = OPTION_STRING | OPTION_ENUM | OPTION_LIST | OPTION_FLAG

text \<open>The texts of the help are left out of the records.\<close>

record option_spec =
  long_name :: string
  spec_type :: option_type
  allowed_values :: "string list"
  default_value :: "string option"

record command_spec =
  command_name :: string
  command_options :: "option_spec list"
  positional_min :: nat
  positional_max :: nat

record program_spec =
  program_name :: string
  global_options :: "option_spec list"
  commands :: "command_spec list"

definition string_option :: "string \<Rightarrow> string \<Rightarrow> option_spec" where
  "string_option name text =
    \<lparr>long_name = name, spec_type = OPTION_STRING, allowed_values = [], default_value = Some text\<rparr>"

definition list_option :: "string \<Rightarrow> option_spec" where
  "list_option name = \<lparr>long_name = name, spec_type = OPTION_LIST, allowed_values = [], default_value = None\<rparr>"

definition flag_option :: "string \<Rightarrow> option_spec" where
  "flag_option name = \<lparr>long_name = name, spec_type = OPTION_FLAG, allowed_values = [], default_value = None\<rparr>"

definition algorithm_values :: "string list" where
  "algorithm_values = [''xxh3'', ''xxh128'', ''sha256'']"

definition algorithm_option :: option_spec where
  "algorithm_option = \<lparr>long_name = ''algorithm'', spec_type = OPTION_ENUM, allowed_values = algorithm_values,
    default_value = Some ''xxh3''\<rparr>"

definition global_option_table :: "option_spec list" where
  "global_option_table = [string_option ''threads'' ''auto'']"

definition scan_options :: "option_spec list" where
  "scan_options = [algorithm_option, string_option ''minimum-size'' ''1'', list_option ''include'', list_option ''exclude'',
    flag_option ''hidden'', flag_option ''follow-symlinks'', flag_option ''match-hardlinks'', flag_option ''one-file-system'',
    string_option ''output'' ''auto'']"

definition summary_options :: "option_spec list" where
  "summary_options = [algorithm_option, string_option ''minimum-size'' ''1'', list_option ''include'', list_option ''exclude'',
    flag_option ''hidden'', flag_option ''follow-symlinks'', flag_option ''match-hardlinks'', flag_option ''one-file-system'']"

definition command_table :: "command_spec list" where
  "command_table =
    [\<lparr>command_name = ''scan'', command_options = scan_options, positional_min = 1, positional_max = 0\<rparr>,
     \<lparr>command_name = ''summary'', command_options = summary_options, positional_min = 1, positional_max = 0\<rparr>]"

definition cli_program_spec :: program_spec where
  "cli_program_spec = \<lparr>program_name = ''bc-duplicate'', global_options = global_option_table, commands = command_table\<rparr>"

section \<open>The store and the parsed command line\<close>

record config_store =
  store_string :: "string \<Rightarrow> string option"
  store_boolean :: "string \<Rightarrow> bool option"

record cli_parsed =
  parsed_command :: "string option"
  positional_values :: "string list"

record cli_env =
  cli_buffer :: buffer_api
  parse_u64 :: u64_parser

definition KEY_BUFFER_SIZE :: nat where "KEY_BUFFER_SIZE = 128"

definition format_command_key :: "buffer_api \<Rightarrow> nat \<Rightarrow> string \<Rightarrow> string \<Rightarrow> string option" where
  "format_command_key api capacity name suffix =
    (if \<not> buffer_init api (capacity - 1) then None
     else do {
       contents \<leftarrow> buffer_write api (capacity - 1) [] name;
       contents' \<leftarrow> buffer_write api (capacity - 1) contents suffix;
       if \<not> buffer_data api (capacity - 1) contents' then None else Some contents'
     })"

section \<open>Binding values\<close>

definition bind_algorithm :: "string \<Rightarrow> algorithm option" where
  "bind_algorithm value =
    (if value = ''xxh3'' then Some ALGORITHM_XXH3
     else if value = ''xxh128'' then Some ALGORITHM_XXH128
     else if value = ''sha256'' then Some ALGORITHM_SHA256
     else None)"

definition bind_threads :: "u64_parser \<Rightarrow> string \<Rightarrow> (threads_mode \<times> u64) option" where
  "bind_threads parse value =
    (if value = ''mono'' then Some (THREADS_MODE_MONO, 0)
     else if value = ''auto'' then Some (THREADS_MODE_AUTO, 0)
     else if value = ''io'' then Some (THREADS_MODE_IO, 0)
     else if value = '''' then None
     else
       (case parse value of
          None \<Rightarrow> None
        | Some (parsed_value, consumed) \<Rightarrow>
            if consumed \<noteq> length value then None
            else if parsed_value = 0 then Some (THREADS_MODE_MONO, 0)
            else Some (THREADS_MODE_EXPLICIT, parsed_value)))"

definition bind_output :: "string \<Rightarrow> (output_destination_mode \<times> string option) option" where
  "bind_output value =
    (if value = ''auto'' then Some (OUTPUT_DESTINATION_AUTO, None)
     else if value = ''-'' then Some (OUTPUT_DESTINATION_STDOUT, None)
     else if value = '''' then None
     else Some (OUTPUT_DESTINATION_FILE, Some value))"

definition bind_minimum_size :: "u64_parser \<Rightarrow> string \<Rightarrow> u64 option" where
  "bind_minimum_size parse value =
    (if value = '''' then None
     else
       (case parse value of
          None \<Rightarrow> None
        | Some (parsed_value, consumed) \<Rightarrow> if consumed \<noteq> length value then None else Some parsed_value))"

definition bind_global_threads :: "cli_env \<Rightarrow> config_store \<Rightarrow> (threads_mode \<times> u64) option" where
  "bind_global_threads env store = do {
    threads_value \<leftarrow> store_string store ''global.threads'';
    bind_threads (parse_u64 env) threads_value
  }"

text \<open>A flag that is not stored is unset.\<close>

definition stored_flag :: "config_store \<Rightarrow> string \<Rightarrow> bool" where
  "stored_flag store key = (case store_boolean store key of None \<Rightarrow> False | Some value \<Rightarrow> value)"

definition bind_command_options :: "cli_env \<Rightarrow> config_store \<Rightarrow> string \<Rightarrow> cli_options \<Rightarrow> cli_options option" where
  "bind_command_options env store name opts = do {
    key \<leftarrow> format_command_key (cli_buffer env) KEY_BUFFER_SIZE name ''.algorithm'';
    algorithm_value \<leftarrow> store_string store key;
    alg \<leftarrow> bind_algorithm algorithm_value;
    key \<leftarrow> format_command_key (cli_buffer env) KEY_BUFFER_SIZE name ''.minimum-size'';
    minimum_size_value \<leftarrow> store_string store key;
    minimum \<leftarrow> bind_minimum_size (parse_u64 env) minimum_size_value;
    include_key \<leftarrow> format_command_key (cli_buffer env) KEY_BUFFER_SIZE name ''.include'';
    exclude_key \<leftarrow> format_command_key (cli_buffer env) KEY_BUFFER_SIZE name ''.exclude'';
    hidden_key \<leftarrow> format_command_key (cli_buffer env) KEY_BUFFER_SIZE name ''.hidden'';
    follow_key \<leftarrow> format_command_key (cli_buffer env) KEY_BUFFER_SIZE name ''.follow-symlinks'';
    match_key \<leftarrow> format_command_key (cli_buffer env) KEY_BUFFER_SIZE name ''.match-hardlinks'';
    one_fs_key \<leftarrow> format_command_key (cli_buffer env) KEY_BUFFER_SIZE name ''.one-file-system'';
    Some (opts\<lparr>opt_algorithm := alg,
      minimum_file_size := minimum,
      include_list := (case store_string store include_key of Some v \<Rightarrow> Some v | None \<Rightarrow> include_list opts),
      exclude_list := (case store_string store exclude_key of Some v \<Rightarrow> Some v | None \<Rightarrow> exclude_list opts),
      include_hidden := stored_flag store hidden_key,
      follow_symlinks := stored_flag store follow_key,
      match_hardlinks := stored_flag store match_key,
      one_file_system := stored_flag store one_fs_key\<rparr>)
  }"

text \<open>All members zero.\<close>

definition zero_options :: cli_options where
  "zero_options = \<lparr>opt_command = COMMAND_SCAN, opt_algorithm = ALGORITHM_XXH3, opt_threads_mode = THREADS_MODE_AUTO,
    explicit_worker_count = 0, minimum_file_size = 0, opt_output_destination_mode = OUTPUT_DESTINATION_AUTO,
    output_destination_path = None, include_list = None, exclude_list = None, include_hidden = False,
    follow_symlinks = False, match_hardlinks = False, one_file_system = False, positional_argument_values = []\<rparr>"

definition command_of_name :: "string \<Rightarrow> command option" where
  "command_of_name name =
    (if name = ''scan'' then Some COMMAND_SCAN else if name = ''summary'' then Some COMMAND_SUMMARY else None)"

definition bind_options :: "cli_env \<Rightarrow> config_store \<Rightarrow> cli_parsed \<Rightarrow> cli_options option" where
  "bind_options env store parsed = do {
    (mode, workers) \<leftarrow> bind_global_threads env store;
    name \<leftarrow> parsed_command parsed;
    cmd \<leftarrow> command_of_name name;
    opts \<leftarrow> bind_command_options env store name
      (zero_options\<lparr>opt_threads_mode := mode, explicit_worker_count := workers, opt_command := cmd\<rparr>);
    (destination, path) \<leftarrow>
      (if opt_command opts = COMMAND_SCAN then
         do { output_value \<leftarrow> store_string store ''scan.output''; bind_output output_value }
       else Some (OUTPUT_DESTINATION_STDOUT, None));
    Some (opts\<lparr>opt_output_destination_mode := destination, output_destination_path := path,
      positional_argument_values := positional_values parsed\<rparr>)
  }"

section \<open>What binding accepts\<close>

definition cli_contract :: "cli_env \<Rightarrow> bool" where
  "cli_contract env \<longleftrightarrow> buffer_contract (cli_buffer env) \<and> parser_contract (parse_u64 env)"

lemma bind_threads_eq:
  assumes "parser_contract parse"
  shows "bind_threads parse value =
    (if value = ''mono'' then Some (THREADS_MODE_MONO, 0)
     else if value = ''auto'' then Some (THREADS_MODE_AUTO, 0)
     else if value = ''io'' then Some (THREADS_MODE_IO, 0)
     else if \<not> whole_number value then None
     else if decimal_value value = 0 then Some (THREADS_MODE_MONO, 0)
     else Some (THREADS_MODE_EXPLICIT, of_nat (decimal_value value)))"
proof (cases "whole_number value")
  case True
  then have "value \<noteq> []" and "decimal_value value < 2 ^ 64" by (auto simp: whole_number_def)
  with True show ?thesis
    using parser_contract_read(1) [OF assms True] by (simp add: bind_threads_def of_nat_u64_eq_0)
next
  case False
  then show ?thesis
    using parser_contract_read(2) [OF assms False] by (auto simp: bind_threads_def split: option.splits)
qed

lemma bind_minimum_size_eq:
  assumes "parser_contract parse"
  shows "bind_minimum_size parse value =
    (if whole_number value then Some (of_nat (decimal_value value)) else None)"
proof (cases "whole_number value")
  case True
  then have "value \<noteq> []" by auto
  with True show ?thesis
    using parser_contract_read(1) [OF assms True] by (simp add: bind_minimum_size_def)
next
  case False
  then show ?thesis
    using parser_contract_read(2) [OF assms False] by (auto simp: bind_minimum_size_def split: option.splits)
qed

lemma format_command_key_eq:
  assumes "buffer_contract api" and "length name + length suffix < KEY_BUFFER_SIZE"
  shows "format_command_key api KEY_BUFFER_SIZE name suffix = Some (name @ suffix)"
  using assms by (auto simp: format_command_key_def buffer_contract_def buffer_write_def KEY_BUFFER_SIZE_def)

text \<open>
  What the parser of the command line stores: every option of text or enumeration type has a
  value, which for an enumeration is an allowed one; lists and flags may be missing.
\<close>

definition stored :: "config_store \<Rightarrow> string \<Rightarrow> option_spec \<Rightarrow> bool" where
  "stored store section_name opt =
    (let value = store_string store (section_name @ ''.'' @ long_name opt) in
     case spec_type opt of
       OPTION_STRING \<Rightarrow> value \<noteq> None
     | OPTION_ENUM \<Rightarrow> (case value of None \<Rightarrow> False | Some v \<Rightarrow> v \<in> set (allowed_values opt))
     | _ \<Rightarrow> True)"

definition parser_stores :: "config_store \<Rightarrow> command_spec \<Rightarrow> bool" where
  "parser_stores store spec \<longleftrightarrow>
    (\<forall>opt \<in> set (global_options cli_program_spec). stored store ''global'' opt) \<and>
    (\<forall>opt \<in> set (command_options spec). stored store (command_name spec) opt)"

definition stored_value :: "config_store \<Rightarrow> string \<Rightarrow> string" where
  "stored_value store key = the (store_string store key)"

definition valid_threads :: "string \<Rightarrow> bool" where
  "valid_threads value \<longleftrightarrow> value \<in> {''mono'', ''auto'', ''io''} \<or> whole_number value"

text \<open>The options a binding can give.\<close>

definition options_well_formed :: "cli_options \<Rightarrow> bool" where
  "options_well_formed opts \<longleftrightarrow>
    (opt_threads_mode opts = THREADS_MODE_EXPLICIT \<longleftrightarrow> explicit_worker_count opts \<noteq> 0) \<and>
    (case output_destination_path opts of
       None \<Rightarrow> opt_output_destination_mode opts \<noteq> OUTPUT_DESTINATION_FILE
     | Some path \<Rightarrow> opt_output_destination_mode opts = OUTPUT_DESTINATION_FILE \<and> path \<notin> {'''', ''-'', ''auto''}) \<and>
    (opt_command opts = COMMAND_SUMMARY \<longrightarrow> opt_output_destination_mode opts = OUTPUT_DESTINATION_STDOUT)"

text \<open>The text of every option, as a command line could give it.\<close>

definition algorithm_text :: "algorithm \<Rightarrow> string" where
  "algorithm_text alg =
    (case alg of ALGORITHM_XXH3 \<Rightarrow> ''xxh3'' | ALGORITHM_XXH128 \<Rightarrow> ''xxh128'' | ALGORITHM_SHA256 \<Rightarrow> ''sha256'')"

definition threads_text :: "cli_options \<Rightarrow> string" where
  "threads_text opts =
    (case opt_threads_mode opts of THREADS_MODE_AUTO \<Rightarrow> ''auto'' | THREADS_MODE_MONO \<Rightarrow> ''mono''
     | THREADS_MODE_IO \<Rightarrow> ''io'' | THREADS_MODE_EXPLICIT \<Rightarrow> decimal_text (unat (explicit_worker_count opts)))"

definition output_text :: "cli_options \<Rightarrow> string" where
  "output_text opts =
    (case opt_output_destination_mode opts of OUTPUT_DESTINATION_AUTO \<Rightarrow> ''auto''
     | OUTPUT_DESTINATION_STDOUT \<Rightarrow> ''-'' | OUTPUT_DESTINATION_FILE \<Rightarrow> the (output_destination_path opts))"

definition command_text :: "command \<Rightarrow> string" where
  "command_text cmd = (case cmd of COMMAND_SCAN \<Rightarrow> ''scan'' | COMMAND_SUMMARY \<Rightarrow> ''summary'')"

definition store_of :: "cli_options \<Rightarrow> config_store" where
  "store_of opts =
    (let name = command_text (opt_command opts) in
     \<lparr>store_string =
        [''global.threads'' \<mapsto> threads_text opts,
         name @ ''.algorithm'' \<mapsto> algorithm_text (opt_algorithm opts),
         name @ ''.minimum-size'' \<mapsto> decimal_text (unat (minimum_file_size opts)),
         ''scan.output'' \<mapsto> output_text opts]
        ((name @ ''.include'') := include_list opts, (name @ ''.exclude'') := exclude_list opts),
      store_boolean =
        [name @ ''.hidden'' \<mapsto> include_hidden opts, name @ ''.follow-symlinks'' \<mapsto> follow_symlinks opts,
         name @ ''.match-hardlinks'' \<mapsto> match_hardlinks opts, name @ ''.one-file-system'' \<mapsto> one_file_system opts]\<rparr>)"

definition parsed_of :: "cli_options \<Rightarrow> cli_parsed" where
  "parsed_of opts = \<lparr>parsed_command = Some (command_text (opt_command opts)),
    positional_values = positional_argument_values opts\<rparr>"

section \<open>Properties\<close>

text \<open>C35
  Whatever is stored, options that are bound are well formed: a worker count is set exactly
  when the mode is explicit, a path exactly when the output goes to a file, and then it is not
  one of the reserved words; a summary goes to standard output.
\<close>

theorem bound_options_well_formed:
  assumes "bind_options env store parsed = Some opts"
  shows "options_well_formed opts \<and> positional_argument_values opts = positional_values parsed \<and>
    parsed_command parsed = Some (command_text (opt_command opts))"
proof -
  obtain mode workers name cmd opts1 destination path where
    threads: "bind_global_threads env store = Some (mode, workers)" and
    name: "parsed_command parsed = Some name" "command_of_name name = Some cmd" and
    cmd_opts: "bind_command_options env store name
      (zero_options\<lparr>opt_threads_mode := mode, explicit_worker_count := workers, opt_command := cmd\<rparr>) = Some opts1" and
    out: "(if opt_command opts1 = COMMAND_SCAN then Option.bind (store_string store ''scan.output'') bind_output
       else Some (OUTPUT_DESTINATION_STDOUT, None)) = Some (destination, path)" and
    opts: "opts = opts1\<lparr>opt_output_destination_mode := destination, output_destination_path := path,
      positional_argument_values := positional_values parsed\<rparr>"
    using assms by (auto simp: bind_options_def bind_eq_Some_conv)
  have kept: "opt_threads_mode opts1 = mode \<and> explicit_worker_count opts1 = workers \<and> opt_command opts1 = cmd"
    using cmd_opts by (auto simp: bind_command_options_def bind_eq_Some_conv)
  have "mode = THREADS_MODE_EXPLICIT \<longleftrightarrow> workers \<noteq> 0"
    using threads by (auto simp: bind_global_threads_def bind_threads_def bind_eq_Some_conv split: if_splits option.splits)
  moreover have "case path of None \<Rightarrow> destination \<noteq> OUTPUT_DESTINATION_FILE
     | Some p \<Rightarrow> destination = OUTPUT_DESTINATION_FILE \<and> p \<notin> {'''', ''-'', ''auto''}"
    using out by (auto simp: bind_output_def bind_eq_Some_conv split: if_splits)
  moreover have "cmd = COMMAND_SUMMARY \<longrightarrow> destination = OUTPUT_DESTINATION_STDOUT"
    using out kept by auto
  moreover have "name = command_text cmd"
    using name(2) by (auto simp: command_of_name_def command_text_def split: if_splits)
  ultimately show ?thesis using kept name(1) by (cases path) (simp_all add: opts options_well_formed_def)
qed

text \<open>What a parsed command line has stored for each of the two commands.\<close>

lemma command_specs:
  assumes "spec \<in> set (commands cli_program_spec)"
  shows "command_name spec = ''scan'' \<and> command_options spec = scan_options \<or>
    command_name spec = ''summary'' \<and> command_options spec = summary_options"
  using assms by (auto simp: cli_program_spec_def command_table_def)

lemma parser_stores_values:
  assumes "spec \<in> set (commands cli_program_spec)" and "parser_stores store spec"
  obtains threads a alg minimum where "store_string store ''global.threads'' = Some threads"
    "store_string store (command_name spec @ ''.algorithm'') = Some a" "bind_algorithm a = Some alg"
    "store_string store (command_name spec @ ''.minimum-size'') = Some minimum"
    "command_name spec = ''scan'' \<Longrightarrow> \<exists>out. store_string store ''scan.output'' = Some out"
proof -
  have tables: "stored store ''global'' (string_option ''threads'' ''auto'')" "stored store (command_name spec) algorithm_option"
    "stored store (command_name spec) (string_option ''minimum-size'' ''1'')"
    "command_name spec = ''scan'' \<Longrightarrow> stored store ''scan'' (string_option ''output'' ''auto'')"
    using assms(2) command_specs [OF assms(1)]
    by (auto simp: parser_stores_def cli_program_spec_def global_option_table_def scan_options_def summary_options_def)
  obtain threads where threads: "store_string store ''global.threads'' = Some threads"
    using tables(1) by (auto simp: stored_def string_option_def)
  obtain a where a: "store_string store (command_name spec @ ''.algorithm'') = Some a" "a \<in> set algorithm_values"
    using tables(2) by (auto simp: stored_def algorithm_option_def split: option.splits)
  obtain minimum where minimum: "store_string store (command_name spec @ ''.minimum-size'') = Some minimum"
    using tables(3) by (auto simp: stored_def string_option_def)
  have given: "\<exists>out. store_string store ''scan.output'' = Some out" if "command_name spec = ''scan''"
    using tables(4) [OF that] by (auto simp: stored_def string_option_def)
  obtain alg where "bind_algorithm a = Some alg" using a(2) by (auto simp: algorithm_values_def bind_algorithm_def)
  then show thesis using that threads a(1) minimum given by blast
qed

text \<open>With its keys in the store, binding the options of a command only depends on the minimum size.\<close>

lemma bind_command_options_stored:
  assumes "cli_contract env" and "length name < 20"
    and "store_string store (name @ ''.algorithm'') = Some a" and "bind_algorithm a = Some alg"
    and "store_string store (name @ ''.minimum-size'') = Some minimum"
  shows "\<exists>opts'. bind_command_options env store name opts = (if whole_number minimum then Some opts' else None) \<and>
    opt_command opts' = opt_command opts"
proof -
  have api: "buffer_contract (cli_buffer env)" and parse: "parser_contract (parse_u64 env)"
    using assms(1) by (simp_all add: cli_contract_def)
  have keys: "format_command_key (cli_buffer env) KEY_BUFFER_SIZE name suffix = Some (name @ suffix)" if "length suffix < 100" for suffix
    by (rule format_command_key_eq [OF api]) (use that assms(2) in \<open>simp add: KEY_BUFFER_SIZE_def\<close>)
  show ?thesis
    by (cases "whole_number minimum")
      (simp_all add: bind_command_options_def keys assms(3-5) bind_minimum_size_eq [OF parse] exI [of _ opts])
qed

text \<open>C32
  When the store holds what the table of options promises, binding never fails for an internal
  reason: it fails exactly when the value of \<^verbatim>\<open>--threads\<close> is none of the three modes and no
  64-bit decimal number, that of \<^verbatim>\<open>--minimum-size\<close> no such number, or that of \<^verbatim>\<open>--output\<close> empty.
\<close>

theorem binding_fails_only_on_values:
  assumes "cli_contract env" and "spec \<in> set (commands cli_program_spec)" and "parser_stores store spec"
    and "parsed_command parsed = Some (command_name spec)"
  shows "bind_options env store parsed = None \<longleftrightarrow>
    \<not> valid_threads (stored_value store ''global.threads'') \<or>
    \<not> whole_number (stored_value store (command_name spec @ ''.minimum-size'')) \<or>
    (command_name spec = ''scan'' \<and> stored_value store ''scan.output'' = [])"
proof -
  have parse: "parser_contract (parse_u64 env)" using assms(1) by (simp add: cli_contract_def)
  note name = command_specs [OF assms(2)]
  obtain threads a alg minimum where threads: "store_string store ''global.threads'' = Some threads"
    and named: "store_string store (command_name spec @ ''.algorithm'') = Some a" "bind_algorithm a = Some alg"
      "store_string store (command_name spec @ ''.minimum-size'') = Some minimum"
    and given: "command_name spec = ''scan'' \<Longrightarrow> \<exists>out. store_string store ''scan.output'' = Some out"
    using parser_stores_values [OF assms(2,3)] by metis
  have t: "bind_threads (parse_u64 env) threads = None \<longleftrightarrow> \<not> valid_threads threads"
    by (auto simp: bind_threads_eq [OF parse] valid_threads_def)
  have c: "command_of_name (command_name spec) = Some (if command_name spec = ''scan'' then COMMAND_SCAN else COMMAND_SUMMARY)"
    using name by (auto simp: command_of_name_def)
  have o: "bind_output out = None \<longleftrightarrow> out = []" for out by (auto simp: bind_output_def)
  have short: "length (command_name spec) < 20" using name by auto
  show ?thesis
  proof (cases "bind_threads (parse_u64 env) threads")
    case None
    then show ?thesis using t by (simp add: bind_options_def bind_global_threads_def threads stored_value_def)
  next
    case (Some mode)
    let ?opts = "zero_options\<lparr>opt_threads_mode := fst mode, explicit_worker_count := snd mode,
      opt_command := (if command_name spec = ''scan'' then COMMAND_SCAN else COMMAND_SUMMARY)\<rparr>"
    obtain opts' where step: "bind_command_options env store (command_name spec) ?opts = (if whole_number minimum then Some opts' else None)"
      and cmd: "opt_command opts' = (if command_name spec = ''scan'' then COMMAND_SCAN else COMMAND_SUMMARY)"
      using bind_command_options_stored [OF assms(1) short named, of ?opts] by auto
    have valid: "valid_threads (stored_value store ''global.threads'')" using t Some by (simp add: stored_value_def threads)
    have "bind_options env store parsed = None \<longleftrightarrow> \<not> whole_number minimum \<or>
        command_name spec = ''scan'' \<and> Option.bind (store_string store ''scan.output'') bind_output = None"
    proof (cases "whole_number minimum")
      case True
      consider (scan) "command_name spec = ''scan''" | (summary) "command_name spec = ''summary''" using name by blast
      then show ?thesis using True step cmd
        by cases (simp_all add: bind_options_def bind_global_threads_def threads Some assms(4) command_of_name_def
            split_beta bind_eq_None_conv)
    next
      case False
      then show ?thesis using step
        by (simp add: bind_options_def bind_global_threads_def threads Some assms(4) c split_beta)
    qed
    moreover have "Option.bind (store_string store ''scan.output'') bind_output = None \<longleftrightarrow> stored_value store ''scan.output'' = []"
      if "command_name spec = ''scan''"
    proof -
      obtain out where "store_string store ''scan.output'' = Some out" using given \<open>command_name spec = ''scan''\<close> by blast
      then show ?thesis by (simp add: stored_value_def o)
    qed
    moreover have "stored_value store (command_name spec @ ''.minimum-size'') = minimum" by (simp add: stored_value_def named(3))
    ultimately show ?thesis using valid by blast
  qed
qed

lemma bind_threads_text:
  assumes "parser_contract parse" and "opt_threads_mode opts = THREADS_MODE_EXPLICIT \<longleftrightarrow> explicit_worker_count opts \<noteq> 0"
  shows "bind_threads parse (threads_text opts) = Some (opt_threads_mode opts, explicit_worker_count opts)"
proof (cases "opt_threads_mode opts")
  case THREADS_MODE_EXPLICIT
  let ?n = "unat (explicit_worker_count opts)"
  have n: "0 < ?n" using assms(2) THREADS_MODE_EXPLICIT by (simp add: unat_gt_0)
  have whole: "whole_number (decimal_text ?n)"
    by (rule whole_number_text) (rule order_less_le_trans [OF unsigned_less], simp)
  have letters: "\<not> is_decimal (CHR ''m'')" "\<not> is_decimal (CHR ''a'')" "\<not> is_decimal (CHR ''i'')"
    by (simp_all add: is_decimal_def)
  have "decimal_text ?n \<noteq> c # cs" if "\<not> is_decimal c" for c cs
    using decimal_text_digits [of ?n] that by (metis list.set_intros(1))
  then have "decimal_text ?n \<notin> {''mono'', ''auto'', ''io''}"
    using letters by simp
  then show ?thesis
    using whole n THREADS_MODE_EXPLICIT
    by (simp add: bind_threads_eq [OF assms(1)] threads_text_def decimal_value_text)
qed (use assms in \<open>auto simp: bind_threads_eq [OF assms(1)] threads_text_def\<close>)

text \<open>C18
  Every well-formed set of options can be asked for: written as option texts and bound again,
  it comes back unchanged.
\<close>

theorem options_roundtrip:
  assumes "cli_contract env" and "options_well_formed opts"
  shows "bind_options env (store_of opts) (parsed_of opts) = Some opts"
proof -
  have api: "buffer_contract (cli_buffer env)" and parse: "parser_contract (parse_u64 env)"
    using assms(1) by (simp_all add: cli_contract_def)
  let ?name = "command_text (opt_command opts)"
  have keys: "format_command_key (cli_buffer env) KEY_BUFFER_SIZE ?name suffix = Some (?name @ suffix)"
    if "length suffix < 100" for suffix
    by (rule format_command_key_eq [OF api])
      (use that in \<open>auto simp: KEY_BUFFER_SIZE_def command_text_def split: command.splits\<close>)
  have threads: "store_string (store_of opts) ''global.threads'' = Some (threads_text opts)"
    and named: "store_string (store_of opts) (?name @ ''.algorithm'') = Some (algorithm_text (opt_algorithm opts))"
      "store_string (store_of opts) (?name @ ''.minimum-size'') = Some (decimal_text (unat (minimum_file_size opts)))"
      "store_string (store_of opts) (?name @ ''.include'') = include_list opts"
      "store_string (store_of opts) (?name @ ''.exclude'') = exclude_list opts"
      "store_boolean (store_of opts) (?name @ ''.hidden'') = Some (include_hidden opts)"
      "store_boolean (store_of opts) (?name @ ''.follow-symlinks'') = Some (follow_symlinks opts)"
      "store_boolean (store_of opts) (?name @ ''.match-hardlinks'') = Some (match_hardlinks opts)"
      "store_boolean (store_of opts) (?name @ ''.one-file-system'') = Some (one_file_system opts)"
    and given: "store_string (store_of opts) ''scan.output'' = Some (output_text opts)"
    by (cases "opt_command opts"; simp add: store_of_def command_text_def Let_def)+
  have minimum: "bind_minimum_size (parse_u64 env) (decimal_text (unat (minimum_file_size opts))) = Some (minimum_file_size opts)"
    using whole_number_text [of "unat (minimum_file_size opts)"] unsigned_less [of "minimum_file_size opts"]
    by (simp add: bind_minimum_size_eq [OF parse] decimal_value_text)
  have alg: "bind_algorithm (algorithm_text (opt_algorithm opts)) = Some (opt_algorithm opts)"
    by (cases "opt_algorithm opts") (simp_all add: bind_algorithm_def algorithm_text_def)
  have mode: "bind_threads (parse_u64 env) (threads_text opts) = Some (opt_threads_mode opts, explicit_worker_count opts)"
    using assms(2) by (intro bind_threads_text [OF parse]) (simp add: options_well_formed_def)
  have cmd: "command_of_name ?name = Some (opt_command opts)"
    by (cases "opt_command opts") (simp_all add: command_of_name_def command_text_def)
  have destination: "(if opt_command opts = COMMAND_SCAN then bind_output (output_text opts)
      else Some (OUTPUT_DESTINATION_STDOUT, None)) = Some (opt_output_destination_mode opts, output_destination_path opts)"
    using assms(2)
    by (cases "opt_output_destination_mode opts"; cases "opt_command opts")
      (auto simp: options_well_formed_def bind_output_def output_text_def split: option.splits)
  show ?thesis
    using destination
    by (auto simp: bind_options_def bind_global_threads_def bind_command_options_def parsed_of_def threads mode cmd keys
        named alg minimum given stored_flag_def zero_options_def split: option.splits if_splits)
qed

section \<open>Witnesses\<close>

definition sample_cli :: cli_env where
  "sample_cli = \<lparr>cli_buffer = plain_buffer, parse_u64 = plain_parser\<rparr>"

lemma sample_cli_contract: "cli_contract sample_cli"
  by (simp add: cli_contract_def sample_cli_def plain_buffer_contract plain_parser_contract)

definition sample_options :: cli_options where
  "sample_options = zero_options\<lparr>opt_algorithm := ALGORITHM_SHA256, opt_threads_mode := THREADS_MODE_EXPLICIT,
    explicit_worker_count := 4, minimum_file_size := 1, opt_output_destination_mode := OUTPUT_DESTINATION_FILE,
    output_destination_path := Some ''out.json'', include_list := Some ''*.c'', include_hidden := True,
    positional_argument_values := [''/srv'']\<rparr>"

lemma sample_options_well_formed: "options_well_formed sample_options"
  by (simp add: options_well_formed_def sample_options_def zero_options_def)

theorem options_roundtrip_witness:
  "bind_options sample_cli (store_of sample_options) (parsed_of sample_options) = Some sample_options"
  by (rule options_roundtrip [OF sample_cli_contract sample_options_well_formed])

definition default_store :: config_store where
  "default_store = \<lparr>store_string = [''global.threads'' \<mapsto> ''auto'', ''scan.algorithm'' \<mapsto> ''xxh3'',
      ''scan.minimum-size'' \<mapsto> ''12x'', ''scan.output'' \<mapsto> ''auto''],
    store_boolean = Map.empty\<rparr>"

definition scan_parsed :: cli_parsed where
  "scan_parsed = \<lparr>parsed_command = Some ''scan'', positional_values = [''/srv'']\<rparr>"

theorem binding_fails_only_on_values_witness:
  "bind_options sample_cli default_store scan_parsed = None"
proof -
  let ?spec = "hd (commands cli_program_spec)"
  have "?spec \<in> set (commands cli_program_spec)" and "parsed_command scan_parsed = Some (command_name ?spec)"
    by (simp_all add: cli_program_spec_def command_table_def scan_parsed_def)
  moreover have "parser_stores default_store ?spec"
    by (simp add: parser_stores_def cli_program_spec_def command_table_def global_option_table_def scan_options_def
        stored_def string_option_def algorithm_option_def list_option_def flag_option_def algorithm_values_def default_store_def)
  moreover have "\<not> whole_number (stored_value default_store (command_name ?spec @ ''.minimum-size''))"
    by (simp add: cli_program_spec_def command_table_def stored_value_def default_store_def whole_number_def is_decimal_def)
  ultimately show ?thesis
    using binding_fails_only_on_values [OF sample_cli_contract, of ?spec default_store scan_parsed] by blast
qed

theorem bound_options_well_formed_witness:
  "\<exists>opts. bind_options sample_cli (store_of sample_options) (parsed_of sample_options) = Some opts \<and>
    options_well_formed opts \<and> positional_argument_values opts = [''/srv'']"
proof -
  have "bind_options sample_cli (store_of sample_options) (parsed_of sample_options) = Some sample_options"
    by (simp add: bind_options_def bind_global_threads_def bind_command_options_def parsed_of_def store_of_def
        sample_options_def zero_options_def threads_text_def command_text_def command_of_name_def sample_cli_def
        plain_parser_def plain_buffer_def format_command_key_def buffer_write_def KEY_BUFFER_SIZE_def bind_threads_def
        decimal_text.simps decimal_digit_def is_decimal_def decimal_value_def algorithm_text_def bind_algorithm_def
        bind_minimum_size_def stored_flag_def output_text_def bind_output_def Let_def)
  from bound_options_well_formed [OF this] this show ?thesis
    by (auto simp: parsed_of_def sample_options_def)
qed

end
