(* ===== verification/Main_Program.thy ===== *)
theory Main_Program
  imports Lifecycle Cli_Options
begin

text \<open>
  \<^verbatim>\<open>main\<close> of \<^verbatim>\<open>src/bc_duplicate_main.c\<close>: the parse of the command line, the binding of the options, the
  configuration of the threads and the run of the application by the base library's runtime.
  The parser and the runtime are parameters.
\<close>

section \<open>Definitions\<close>

datatype parse_status = PARSE_OK | PARSE_HELP_GLOBAL | PARSE_HELP_COMMAND | PARSE_VERSION | PARSE_ERROR

datatype shown = Help_global | Help_command | Version_text

record concurrency_config =
  worker_count :: u64
  worker_count_explicit :: bool
  allow_oversubscribe :: bool

record runtime_callbacks =
  on_init :: "app_state \<Rightarrow> bool \<times> app_state"
  on_run :: "app_state \<Rightarrow> (bool \<times> app_state) option"
  on_cleanup :: "app_state \<Rightarrow> app_state"

text \<open>
  The environment. The runtime's memory starts as \<open>runtime_pool\<close>; the application's environment
  depends on the configuration of the threads the runtime was created with.
\<close>

record ('x, 'c, 'd) main_env =
  cli_context_created :: bool
  cli_store_created :: bool
  cli_parse :: "program_spec \<Rightarrow> string list \<Rightarrow> parse_status \<times> cli_parsed \<times> config_store"
  cli_values :: cli_env
  logical_processor_count :: u64
  physical_core_count :: u64
  application :: "concurrency_config \<Rightarrow> ('x, 'c, 'd) app_env"
  runtime_pool :: pool
  runtime_files :: files
  runtime_create :: "concurrency_config \<Rightarrow> runtime_callbacks \<Rightarrow> app_state \<Rightarrow> bool \<times> app_state"
  runtime_run :: "runtime_callbacks \<Rightarrow> app_state \<Rightarrow> app_state option"
  runtime_destroy :: "runtime_callbacks \<Rightarrow> app_state \<Rightarrow> app_state"

text \<open>What \<^verbatim>\<open>main\<close> holds of the command line's memory: its contexts and its stores of values.\<close>

record cli_resources =
  live_contexts :: int
  live_stores :: int

definition cli_release :: "cli_resources \<Rightarrow> cli_resources" where
  "cli_release r = r\<lparr>live_stores := live_stores r - 1, live_contexts := live_contexts r - 1\<rparr>"

definition zero_config :: concurrency_config where
  "zero_config = \<lparr>worker_count = 0, worker_count_explicit = False, allow_oversubscribe = False\<rparr>"

definition parallel_config :: "u64 \<Rightarrow> u64 \<Rightarrow> cli_options \<Rightarrow> concurrency_config option" where
  "parallel_config logical physical opts =
    (case opt_threads_mode opts of
       THREADS_MODE_MONO \<Rightarrow> Some (zero_config\<lparr>worker_count_explicit := True, worker_count := 0\<rparr>)
     | THREADS_MODE_EXPLICIT \<Rightarrow>
         (let cfg = zero_config\<lparr>worker_count_explicit := True,
                worker_count := (if explicit_worker_count opts \<ge> 1 then explicit_worker_count opts - 1 else 0)\<rparr> in
          if explicit_worker_count opts > logical then None
          else if explicit_worker_count opts > physical then Some (cfg\<lparr>allow_oversubscribe := True\<rparr>)
          else Some cfg)
     | THREADS_MODE_IO \<Rightarrow>
         Some (zero_config\<lparr>allow_oversubscribe := True, worker_count_explicit := True,
           worker_count := (if logical \<ge> 2 then logical - 1 else 0)\<rparr>)
     | THREADS_MODE_AUTO \<Rightarrow> Some zero_config)"

definition callbacks_of :: "('x, 'c, 'd) app_env \<Rightarrow> runtime_callbacks" where
  "callbacks_of env = \<lparr>on_init = application_init env, on_run = application_run env, on_cleanup = application_cleanup env\<rparr>"

text \<open>The result: the exit code, what was shown, what is left of the command line's memory and the final state.\<close>

record main_result =
  main_exit :: int
  main_shown :: "shown option"
  main_left :: cli_resources
  main_state :: "app_state option"

definition leave :: "int \<Rightarrow> shown option \<Rightarrow> cli_resources \<Rightarrow> main_result" where
  "leave code what r = \<lparr>main_exit = code, main_shown = what, main_left = r, main_state = None\<rparr>"

definition run_application ::
  "('x, 'c, 'd) main_env \<Rightarrow> cli_options \<Rightarrow> concurrency_config \<Rightarrow> cli_resources \<Rightarrow> main_result option" where
  "run_application env opts cfg r =
    (let callbacks = callbacks_of (application env cfg) in
     case runtime_create env cfg callbacks (initial_app opts (runtime_pool env) (runtime_files env)) of
       (created, st) \<Rightarrow>
         if \<not> created then Some (leave 1 None (cli_release r))
         else
           (case runtime_run env callbacks st of
              None \<Rightarrow> None
            | Some st1 \<Rightarrow>
                (let st2 = runtime_destroy env callbacks st1 in
                 Some \<lparr>main_exit = exit_code st2, main_shown = None, main_left = cli_release r, main_state = Some st2\<rparr>)))"

definition main :: "('x, 'c, 'd) main_env \<Rightarrow> string list \<Rightarrow> main_result option" where
  "main env arguments =
    (let r0 = \<lparr>live_contexts = 0, live_stores = 0\<rparr> in
     if \<not> cli_context_created env then Some (leave 1 None r0)
     else
       (let r1 = r0\<lparr>live_contexts := 1\<rparr> in
        if \<not> cli_store_created env then Some (leave 1 None (r1\<lparr>live_contexts := live_contexts r1 - 1\<rparr>))
        else
          (let r2 = r1\<lparr>live_stores := 1\<rparr> in
           case cli_parse env cli_program_spec arguments of
             (PARSE_HELP_GLOBAL, _, _) \<Rightarrow> Some (leave 0 (Some Help_global) (cli_release r2))
           | (PARSE_HELP_COMMAND, _, _) \<Rightarrow> Some (leave 0 (Some Help_command) (cli_release r2))
           | (PARSE_VERSION, _, _) \<Rightarrow> Some (leave 0 (Some Version_text) (cli_release r2))
           | (PARSE_ERROR, _, _) \<Rightarrow> Some (leave 2 None (cli_release r2))
           | (PARSE_OK, parsed, store) \<Rightarrow>
               (case bind_options (cli_values env) store parsed of
                  None \<Rightarrow> Some (leave 2 None (cli_release r2))
                | Some opts \<Rightarrow>
                    (case parallel_config (logical_processor_count env) (physical_core_count env) opts of
                       None \<Rightarrow> Some (leave 2 None (cli_release r2))
                     | Some cfg \<Rightarrow> run_application env opts cfg r2)))))"

section \<open>The runtime\<close>

text \<open>
  What is relied on of the runtime: once created, running and destroying it initialises the
  application, runs it when that succeeded and cleans it up; an application that did not
  initialise may be cleaned up or not.
\<close>

definition runtime_drives :: "('x, 'c, 'd) main_env \<Rightarrow> bool" where
  "runtime_drives env \<longleftrightarrow>
    (\<forall>cfg cb st st0. runtime_create env cfg cb st = (True, st0) \<longrightarrow>
      (case on_init cb st of
         (False, st1) \<Rightarrow> map_option (runtime_destroy env cb) (runtime_run env cb st0) \<in> {Some st1, Some (on_cleanup cb st1)}
       | (True, st1) \<Rightarrow> map_option (runtime_destroy env cb) (runtime_run env cb st0) =
           map_option (\<lambda>(ok, st2). on_cleanup cb st2) (on_run cb st1)))"

lemma cleanup_keeps: "exit_code (application_cleanup env st) = exit_code st" "report (application_cleanup env st) = report st"
  by (simp_all add: application_cleanup_def Let_def split: option.split)

lemma init_exit_code:
  assumes "application_init env (initial_app opts m fs) = (ok, st)"
  shows "exit_code st = (if ok then 0 else 1)" and "report st = None"
  using assms by (auto simp: application_init_def initial_app_def Let_def split: if_splits prod.splits option.splits)

lemma run_exit_code:
  assumes "application_run env st = Some (ok, st')"
  shows "exit_code st' \<in> {0, 1, 130}"
  using assms run_grouping_exit(1) [of env]
  by (auto simp: application_run_def split: if_splits option.splits prod.splits)

text \<open>The background workers of an explicit number of threads: one fewer, and never more threads than processors.\<close>

lemma parallel_config_explicit:
  assumes "parallel_config logical physical opts = Some cfg" and "opt_threads_mode opts = THREADS_MODE_EXPLICIT"
    and "explicit_worker_count opts \<noteq> 0"
  shows "worker_count cfg + 1 = explicit_worker_count opts \<and> explicit_worker_count opts \<le> logical \<and>
    (allow_oversubscribe cfg \<longleftrightarrow> explicit_worker_count opts > physical)"
proof -
  have "1 \<le> explicit_worker_count opts" using assms(3) by (simp add: word_le_nat_alt unat_gt_0 Suc_leI)
  then show ?thesis using assms(1,2) by (auto simp: parallel_config_def zero_config_def Let_def split: if_splits)
qed


section \<open>Properties\<close>

text \<open>The state an application's life ends in, when it initialises or not.\<close>

definition ends_in :: "('x, 'c, 'd) app_env \<Rightarrow> app_state \<Rightarrow> app_state \<Rightarrow> bool" where
  "ends_in env st0 st \<longleftrightarrow>
    (case application_init env st0 of
       (False, st1) \<Rightarrow> st = st1 \<or> st = application_cleanup env st1
     | (True, st1) \<Rightarrow> \<exists>ok st2. application_run env st1 = Some (ok, st2) \<and> st = application_cleanup env st2)"

lemma run_application_ends:
  assumes "runtime_drives env" and "run_application env opts cfg r = Some res"
  shows "main_left res = cli_release r" and "main_shown res = None"
    and "(main_state res = None \<and> main_exit res = 1) \<or>
      (\<exists>st. main_state res = Some st \<and> main_exit res = exit_code st \<and>
        ends_in (application env cfg) (initial_app opts (runtime_pool env) (runtime_files env)) st)"
proof -
  let ?app = "application env cfg" and ?st = "initial_app opts (runtime_pool env) (runtime_files env)"
  let ?cb = "callbacks_of (application env cfg)"
  obtain created st0 where create: "runtime_create env cfg ?cb ?st = (created, st0)" by (metis prod.exhaust)
  have "main_left res = cli_release r \<and> main_shown res = None \<and>
    ((main_state res = None \<and> main_exit res = 1) \<or>
      (\<exists>st. main_state res = Some st \<and> main_exit res = exit_code st \<and> ends_in ?app ?st st))"
  proof (cases created)
    case False
    then show ?thesis using assms(2) create by (auto simp: run_application_def leave_def)
  next
    case True
    then obtain st1 where run: "runtime_run env ?cb st0 = Some st1"
      using assms(2) create by (auto simp: run_application_def Let_def split: option.splits)
    then have res: "res = \<lparr>main_exit = exit_code (runtime_destroy env ?cb st1), main_shown = None, main_left = cli_release r,
        main_state = Some (runtime_destroy env ?cb st1)\<rparr>"
      using assms(2) create True by (simp add: run_application_def Let_def)
    obtain ok st2 where init: "application_init ?app ?st = (ok, st2)" by (metis prod.exhaust)
    have drive: "case on_init ?cb ?st of
         (False, s1) \<Rightarrow> map_option (runtime_destroy env ?cb) (runtime_run env ?cb st0) \<in> {Some s1, Some (on_cleanup ?cb s1)}
       | (True, s1) \<Rightarrow> map_option (runtime_destroy env ?cb) (runtime_run env ?cb st0) =
           map_option (\<lambda>(ok, s2). on_cleanup ?cb s2) (on_run ?cb s1)"
      by (rule assms(1) [unfolded runtime_drives_def, THEN spec, THEN spec, THEN spec, THEN spec, THEN mp]) (use create True in simp)
    have "ends_in ?app ?st (runtime_destroy env ?cb st1)"
      using drive init run by (cases ok) (auto simp: ends_in_def callbacks_of_def map_option_case split: option.splits)
    then show ?thesis by (simp add: res)
  qed
  then show "main_left res = cli_release r" and "main_shown res = None"
    and "(main_state res = None \<and> main_exit res = 1) \<or>
      (\<exists>st. main_state res = Some st \<and> main_exit res = exit_code st \<and> ends_in ?app ?st st)" by blast+
qed

lemma ends_in_exit_code: "ends_in env (initial_app opts m fs) st \<Longrightarrow> exit_code st \<in> {0, 1, 130}"
  by (auto simp: ends_in_def cleanup_keeps dest: init_exit_code run_exit_code split: prod.splits bool.splits)


section \<open>Witnesses\<close>

text \<open>A runtime that calls the callbacks in turn, and a command line that asks for one thread.\<close>

definition sample_main :: "(u8 list, u8 list, bool) main_env" where
  "sample_main = \<lparr>cli_context_created = True, cli_store_created = True,
    cli_parse = (\<lambda>spec arguments. (PARSE_OK, parsed_of pair_options, store_of pair_options)),
    cli_values = sample_cli, logical_processor_count = 4, physical_core_count = 2,
    application = (\<lambda>cfg. sample_app), runtime_pool = granting_pool, runtime_files = Map.empty,
    runtime_create = (\<lambda>cfg cb st. on_init cb st), runtime_run = (\<lambda>cb st. map_option snd (on_run cb st)),
    runtime_destroy = on_cleanup\<rparr>"

lemma sample_main_drives: "runtime_drives sample_main"
  by (auto simp: runtime_drives_def sample_main_def option.map_comp comp_def case_prod_unfold)

lemma pair_options_bind: "bind_options sample_cli (store_of pair_options) (parsed_of pair_options) = Some pair_options"
  by (simp add: bind_options_def bind_global_threads_def bind_command_options_def parsed_of_def store_of_def
      pair_options_def zero_options_def threads_text_def command_text_def command_of_name_def sample_cli_def
      plain_parser_def plain_buffer_def format_command_key_def buffer_write_def KEY_BUFFER_SIZE_def bind_threads_def
      decimal_text.simps decimal_digit_def is_decimal_def decimal_value_def algorithm_text_def bind_algorithm_def
      bind_minimum_size_def stored_flag_def output_text_def bind_output_def Let_def)


end
