(* ===== verification/Fuzz_Harness.thy ===== *)
theory Fuzz_Harness
  imports Main_Program
begin

text \<open>
  \<^verbatim>\<open>src/fuzzing/fuzz_bc_duplicate_cli_parse.c\<close> and \<^verbatim>\<open>src/fuzzing/fuzz_bc_duplicate_filter.c\<close>: the
  drivers that hand arbitrary bytes to the command line and to the filter. Their arrays have a
  fixed size; a read or a store outside an array is \<open>None\<close>.
\<close>

section \<open>Arrays\<close>

definition char_of_byte :: "u8 \<Rightarrow> char" where
  "char_of_byte b = char_of (unat b)"

definition put :: "'a list \<Rightarrow> nat \<Rightarrow> 'a \<Rightarrow> 'a list option" where
  "put xs i x = (if i < length xs then Some (xs[i := x]) else None)"

definition copy_bytes :: "string \<Rightarrow> u8 list \<Rightarrow> nat \<Rightarrow> nat \<Rightarrow> string option" where
  "copy_bytes destination data position n =
    (if position + n \<le> length data \<and> n \<le> length destination
     then Some (map char_of_byte (take n (drop position data)) @ drop n destination) else None)"

section \<open>The command line's driver\<close>

definition FUZZ_CLI_MAX_ARGS :: nat where "FUZZ_CLI_MAX_ARGS = 16"
definition FUZZ_CLI_MAX_ARG_LENGTH :: nat where "FUZZ_CLI_MAX_ARG_LENGTH = 64"
definition FUZZ_CLI_BUFFER_SIZE :: nat where "FUZZ_CLI_BUFFER_SIZE = FUZZ_CLI_MAX_ARGS * FUZZ_CLI_MAX_ARG_LENGTH"

function copy_argument :: "u8 list \<Rightarrow> nat \<Rightarrow> nat \<Rightarrow> nat \<Rightarrow> string \<Rightarrow> (string \<times> nat \<times> nat) option" where
  "copy_argument data argument_start buffer_position data_position buffer =
    (if data_position < length data \<and> buffer_position < FUZZ_CLI_BUFFER_SIZE - 1 then
       (let byte = data ! data_position in
        if byte = 0 then Some (buffer, buffer_position, Suc data_position)
        else
          (case put buffer buffer_position (char_of_byte byte) of
             None \<Rightarrow> None
           | Some buffer' \<Rightarrow>
               if Suc buffer_position - argument_start \<ge> FUZZ_CLI_MAX_ARG_LENGTH - 1
               then Some (buffer', Suc buffer_position, Suc data_position)
               else copy_argument data argument_start (Suc buffer_position) (Suc data_position) buffer'))
     else Some (buffer, buffer_position, data_position))"
  by pat_completeness auto
termination
  by (relation "measure (\<lambda>(data, argument_start, buffer_position, data_position, buffer). length data - data_position)") auto

text \<open>The arguments after the program's name, as offsets into the buffer.\<close>

function build_arguments :: "u8 list \<Rightarrow> nat \<Rightarrow> nat \<Rightarrow> nat \<Rightarrow> string \<Rightarrow> nat list \<Rightarrow> (string \<times> nat list) option" where
  "build_arguments data argv_capacity buffer_position data_position buffer offsets =
    (if data_position < length data \<and> Suc (length offsets) < argv_capacity \<and> buffer_position < FUZZ_CLI_BUFFER_SIZE - 1 then
       (case copy_argument data buffer_position buffer_position data_position buffer of
          None \<Rightarrow> None
        | Some (buffer1, buffer_position1, data_position1) \<Rightarrow>
            (case put buffer1 buffer_position1 NUL of
               None \<Rightarrow> None
             | Some buffer2 \<Rightarrow>
                 build_arguments data argv_capacity (Suc buffer_position1) data_position1 buffer2 (offsets @ [buffer_position])))
     else Some (buffer, offsets))"
  by pat_completeness auto
termination
  by (relation "measure (\<lambda>(data, argv_capacity, buffer_position, data_position, buffer, offsets). argv_capacity - length offsets)") auto

declare copy_argument.simps [simp del] build_arguments.simps [simp del]

definition build_argv_from_fuzz_buffer :: "u8 list \<Rightarrow> string \<Rightarrow> nat \<Rightarrow> string list option" where
  "build_argv_from_fuzz_buffer data buffer argv_capacity =
    (case build_arguments data argv_capacity 0 0 buffer [] of
       None \<Rightarrow> None
     | Some (buffer', offsets) \<Rightarrow> Some (''bc-duplicate'' # map (cstring_at buffer') offsets))"

text \<open>
  One input: what is returned, what is left of the contexts, the stores and the streams, and the
  options that were bound. The environment is that of \<^verbatim>\<open>main\<close>.
\<close>

record cli_fuzz_result =
  fuzz_return :: int
  fuzz_left :: cli_resources
  fuzz_streams :: int
  fuzz_bound :: "cli_options option"

definition cli_fuzz_one_input ::
  "('x, 'c, 'd) main_env \<Rightarrow> bool \<Rightarrow> string \<Rightarrow> u8 list \<Rightarrow> cli_fuzz_result option" where
  "cli_fuzz_one_input env stream_opened buffer data =
    (case build_argv_from_fuzz_buffer data buffer FUZZ_CLI_MAX_ARGS of
       None \<Rightarrow> None
     | Some arguments \<Rightarrow>
         (let r0 = \<lparr>live_contexts = 0, live_stores = 0\<rparr> in
          if \<not> cli_context_created env then Some \<lparr>fuzz_return = 0, fuzz_left = r0, fuzz_streams = 0, fuzz_bound = None\<rparr>
          else
            (let r1 = r0\<lparr>live_contexts := 1\<rparr> in
             if \<not> cli_store_created env
             then Some \<lparr>fuzz_return = 0, fuzz_left = r1\<lparr>live_contexts := live_contexts r1 - 1\<rparr>, fuzz_streams = 0, fuzz_bound = None\<rparr>
             else
               (let r2 = r1\<lparr>live_stores := 1\<rparr>;
                    streams = (if stream_opened then 1 else 0) in
                case cli_parse env cli_program_spec arguments of
                  (status, parsed, store) \<Rightarrow>
                    (let bound = (if status = PARSE_OK then bind_options (cli_values env) store parsed else None);
                         streams' = (if stream_opened then streams - 1 else streams) in
                     Some \<lparr>fuzz_return = 0, fuzz_left = cli_release r2, fuzz_streams = streams', fuzz_bound = bound\<rparr>)))))"

section \<open>The filter's driver\<close>

text \<open>
  The memory context is a pool. The result holds what is returned, the verdicts of the filter
  on the name as a file and as a directory, and the pool when the context is destroyed.
\<close>

record filter_fuzz_result =
  filter_return :: int
  filter_verdicts :: "(bool \<times> bool) option"
  filter_pool :: "pool option"

definition stopped :: filter_fuzz_result where
  "stopped = \<lparr>filter_return = 0, filter_verdicts = None, filter_pool = None\<rparr>"

definition fuzz_pattern_text :: "string \<Rightarrow> u8 list \<Rightarrow> nat \<Rightarrow> nat \<Rightarrow> string option" where
  "fuzz_pattern_text buffer data position n =
    (case copy_bytes buffer data position n of None \<Rightarrow> None | Some buffer1 \<Rightarrow> put buffer1 n NUL)"

definition filter_fuzz_verdict ::
  "(string \<Rightarrow> string \<Rightarrow> bool) \<Rightarrow> path_filter \<Rightarrow> string \<Rightarrow> u8 list \<Rightarrow> nat \<Rightarrow> pool \<Rightarrow> filter_fuzz_result option" where
  "filter_fuzz_verdict fnm f basename_stale data position m1 =
    (let basename_available = length data - position;
         basename_actual = min basename_available (length basename_stale - 1) in
     case fuzz_pattern_text basename_stale data position basename_actual of
       None \<Rightarrow> None
     | Some basename_buffer \<Rightarrow>
         (let name = cstring_at basename_buffer 0 in
          Some \<lparr>filter_return = 0,
            filter_verdicts = Some (filter_accepts_file fnm (Some f) name, filter_accepts_directory fnm (Some f) name),
            filter_pool = Some (filter_destroy f m1)\<rparr>))"

definition filter_fuzz_one_input ::
  "(string \<Rightarrow> string \<Rightarrow> bool) \<Rightarrow> pool option \<Rightarrow> string \<Rightarrow> string \<Rightarrow> string \<Rightarrow> u8 list \<Rightarrow> filter_fuzz_result option" where
  "filter_fuzz_one_input fnm context_created include_stale exclude_stale basename_stale data =
    (if length data < 3 then Some stopped
     else
       (let include_length = unat (data ! 0); exclude_length = unat (data ! 1); position = 2 in
        if position + include_length + exclude_length > length data then Some stopped
        else
          (case fuzz_pattern_text include_stale data position include_length of
             None \<Rightarrow> None
           | Some include_buffer \<Rightarrow>
               (let position = position + include_length in
                case fuzz_pattern_text exclude_stale data position exclude_length of
                  None \<Rightarrow> None
                | Some exclude_buffer \<Rightarrow>
                    (let position = position + exclude_length in
                     case context_created of
                       None \<Rightarrow> Some stopped
                     | Some m \<Rightarrow>
                         (let include_ptr = (if include_length = 0 then None else Some (cstring_at include_buffer 0));
                              exclude_ptr = (if exclude_length = 0 then None else Some (cstring_at exclude_buffer 0)) in
                          case filter_create m include_ptr exclude_ptr of
                            (None, m1) \<Rightarrow> Some (stopped\<lparr>filter_pool := Some m1\<rparr>)
                          | (Some f, m1) \<Rightarrow> filter_fuzz_verdict fnm f basename_stale data position m1))))))"

section \<open>The main of both drivers\<close>

text \<open>\<open>rnd seed k\<close> is the \<open>k\<close>-th answer of \<^verbatim>\<open>rand\<close> after \<^verbatim>\<open>srand(seed)\<close>, which is not negative.\<close>

fun fill_buffer :: "(nat \<Rightarrow> nat) \<Rightarrow> nat \<Rightarrow> nat list \<Rightarrow> u8 list \<Rightarrow> (nat \<times> u8 list) option" where
  "fill_buffer rnd k [] buffer = Some (k, buffer)"
| "fill_buffer rnd k (j # js) buffer =
    (case put buffer j (of_nat (rnd k mod 256)) of None \<Rightarrow> None | Some buffer' \<Rightarrow> fill_buffer rnd (Suc k) js buffer')"

fun fuzz_iterations :: "(u8 list \<Rightarrow> int option) \<Rightarrow> (nat \<Rightarrow> nat) \<Rightarrow> nat \<Rightarrow> nat \<Rightarrow> u8 list \<Rightarrow> (nat \<times> u8 list) option" where
  "fuzz_iterations test rnd 0 k buffer = Some (k, buffer)"
| "fuzz_iterations test rnd (Suc n) k buffer =
    (let input_length = rnd k mod length buffer in
     case fill_buffer rnd (Suc k) [0 ..< input_length] buffer of
       None \<Rightarrow> None
     | Some (k', buffer') \<Rightarrow>
         (case test (take input_length buffer') of
            None \<Rightarrow> None
          | Some _ \<Rightarrow> fuzz_iterations test rnd n k' buffer'))"

definition parse_whole :: "u64_parser \<Rightarrow> string \<Rightarrow> u64 option" where
  "parse_whole parse value =
    (case parse value of
       None \<Rightarrow> None
     | Some (parsed_value, consumed) \<Rightarrow> if consumed \<noteq> length value then None else Some parsed_value)"

definition fuzz_main ::
  "u64_parser \<Rightarrow> (u8 list \<Rightarrow> int option) \<Rightarrow> (32 word \<Rightarrow> nat \<Rightarrow> nat) \<Rightarrow> u8 list \<Rightarrow> string list \<Rightarrow> int option" where
  "fuzz_main parse test rnd buffer arguments =
    (if length arguments < 2 then Some 2
     else
       (case parse_whole parse (arguments ! 1) of
          None \<Rightarrow> Some 2
        | Some iterations \<Rightarrow>
            (case (if length arguments \<ge> 3 then parse_whole parse (arguments ! 2) else Some 0) of
               None \<Rightarrow> Some 2
             | Some seed \<Rightarrow> map_option (\<lambda>_. 0) (fuzz_iterations test (rnd (ucast seed)) (unat iterations) 0 buffer))))"

section \<open>The arguments of an input\<close>

text \<open>An argument is at most 63 bytes up to the next zero byte.\<close>

definition FUZZ_PIECE :: nat where "FUZZ_PIECE = FUZZ_CLI_MAX_ARG_LENGTH - 1"

definition next_piece :: "nat \<Rightarrow> u8 list \<Rightarrow> u8 list" where
  "next_piece limit data = takeWhile (\<lambda>b. b \<noteq> 0) (take limit data)"

definition piece_end :: "nat \<Rightarrow> u8 list \<Rightarrow> nat" where
  "piece_end limit data = (let n = length (next_piece limit data) in if n < limit then min (Suc n) (length data) else n)"

fun pieces :: "nat \<Rightarrow> u8 list \<Rightarrow> u8 list list" where
  "pieces 0 data = []"
| "pieces (Suc n) data =
    (if data = [] then [] else next_piece FUZZ_PIECE data # pieces n (drop (piece_end FUZZ_PIECE data) data))"

lemma char_of_byte_NUL: "char_of_byte b = NUL \<longleftrightarrow> b = 0"
proof
  assume "char_of_byte b = NUL"
  then have "(of_char (char_of_byte b) :: nat) = of_char NUL" by simp
  then have "unat b mod 256 = 0" by (simp add: char_of_byte_def NUL_def)
  moreover have "unat b < 256" by (rule order_less_le_trans [OF unsigned_less]) simp
  ultimately show "b = 0" by (simp add: unat_eq_0)
qed (simp add: char_of_byte_def NUL_def char_of_def)

lemma next_piece_Suc:
  "next_piece (Suc n) (b # data) = (if b = 0 then [] else b # next_piece n data)"
  by (simp add: next_piece_def)

lemma copy_argument_piece:
  assumes "argument_start \<le> length w" and "length w + limit = argument_start + FUZZ_PIECE" and "0 < limit"
    and "argument_start + FUZZ_CLI_MAX_ARG_LENGTH < FUZZ_CLI_BUFFER_SIZE" and "length w + length r = FUZZ_CLI_BUFFER_SIZE"
    and "drop d data = rest" and "d \<le> length data"
  shows "copy_argument data argument_start (length w) d (w @ r) =
    Some (w @ map char_of_byte (next_piece limit rest) @ drop (length (next_piece limit rest)) r,
      length w + length (next_piece limit rest), d + piece_end limit rest)"
  using assms
proof (induction limit arbitrary: w r d rest)
  case (Suc limit)
  have room: "length w < FUZZ_CLI_BUFFER_SIZE - 1" using Suc.prems(2,4) by (simp add: FUZZ_PIECE_def FUZZ_CLI_MAX_ARG_LENGTH_def)
  show ?case
  proof (cases rest)
    case Nil
    then show ?thesis using Suc.prems by (subst copy_argument.simps) (simp add: next_piece_def piece_end_def)
  next
    case (Cons b rest')
    then have "d < length data" using Suc.prems(6) by (metis drop_eq_Nil linorder_not_le list.distinct(1))
    then have d: "d < length data" "data ! d = b" "drop (Suc d) data = rest'"
      using Suc.prems(6) Cons Cons_nth_drop_Suc [of d data] by simp_all
    obtain c r' where r: "r = c # r'" using room Suc.prems(5) by (cases r) auto
    show ?thesis
    proof (cases "b = 0")
      case True
      then show ?thesis using d room Cons
        by (subst copy_argument.simps) (simp add: next_piece_Suc piece_end_def)
    next
      case False
      have stop: "FUZZ_CLI_MAX_ARG_LENGTH - Suc 0 \<le> Suc (length w) - argument_start \<longleftrightarrow> limit = 0"
        using Suc.prems(1,2) by (auto simp: FUZZ_PIECE_def)
      have step: "copy_argument data argument_start (length w) d (w @ r) =
          (if limit = 0 then Some (w @ char_of_byte b # r', Suc (length w), Suc d)
           else copy_argument data argument_start (length (w @ [char_of_byte b])) (Suc d) ((w @ [char_of_byte b]) @ r'))"
        using d room False by (subst copy_argument.simps) (simp add: put_def r stop)
      show ?thesis
      proof (cases "limit = 0")
        case True
        then show ?thesis unfolding step by (simp add: Cons False r next_piece_def piece_end_def)
      next
        case more: False
        have "copy_argument data argument_start (length (w @ [char_of_byte b])) (Suc d) ((w @ [char_of_byte b]) @ r') =
          Some ((w @ [char_of_byte b]) @ map char_of_byte (next_piece limit rest') @ drop (length (next_piece limit rest')) r',
            length (w @ [char_of_byte b]) + length (next_piece limit rest'), Suc d + piece_end limit rest')"
          using Suc.prems more d by (intro Suc.IH) (simp_all add: r)
        then show ?thesis using more False
          unfolding step by (simp add: Cons r next_piece_Suc piece_end_def Let_def)
      qed
    qed
  qed
qed simp

lemma next_piece_length: "length (next_piece limit data) \<le> limit" "length (next_piece limit data) \<le> length data"
  unfolding next_piece_def using length_takeWhile_le [of "\<lambda>b. b \<noteq> 0" "take limit data"] by simp_all

lemma next_piece_nonzero: "0 \<notin> set (next_piece limit data)"
  by (auto simp: next_piece_def dest: set_takeWhileD)

lemma piece_end_bound: "piece_end limit data \<le> length data"
  using next_piece_length by (simp add: piece_end_def Let_def)

lemma cstring_at_piece:
  assumes "0 \<notin> set bs"
  shows "cstring_at (w @ map char_of_byte bs @ NUL # r) (length w) = map char_of_byte bs"
proof -
  have "takeWhile (\<lambda>c. c \<noteq> NUL) (map char_of_byte bs @ NUL # r) = map char_of_byte bs"
    using assms by (subst takeWhile_append2) (auto simp: char_of_byte_NUL)
  then show ?thesis by (simp add: cstring_at_def)
qed

text \<open>
  The fifteen arguments there is room for take at most 64 characters each, so the end of the
  buffer is never what cuts an argument short.
\<close>

lemma build_arguments_pieces:
  assumes "n + Suc (length offsets) = FUZZ_CLI_MAX_ARGS" and "length w \<le> length offsets * FUZZ_CLI_MAX_ARG_LENGTH"
    and "length w + length r = FUZZ_CLI_BUFFER_SIZE" and "d \<le> length data"
  shows "\<exists>w' r' offsets'. build_arguments data FUZZ_CLI_MAX_ARGS (length w) d (w @ r) offsets = Some (w @ w' @ r', offsets @ offsets') \<and>
    map (cstring_at (w @ w' @ r')) offsets' = map (map char_of_byte) (pieces n (drop d data))"
  using assms
proof (induction n arbitrary: offsets w r d)
  case 0
  then show ?case by (subst build_arguments.simps) (auto intro: exI [of _ "[]"])
next
  case (Suc n)
  show ?case
  proof (cases "d < length data")
    case False
    then show ?thesis by (subst build_arguments.simps) (auto intro: exI [of _ "[]"])
  next
    case True
    let ?rest = "drop d data"
    let ?piece = "next_piece FUZZ_PIECE ?rest"
    let ?w = "w @ map char_of_byte ?piece @ [NUL]"
    have few: "length offsets < 15" using Suc.prems(1) by (simp add: FUZZ_CLI_MAX_ARGS_def)
    have start: "length w + FUZZ_CLI_MAX_ARG_LENGTH < FUZZ_CLI_BUFFER_SIZE" and room: "length w < FUZZ_CLI_BUFFER_SIZE - 1"
      using Suc.prems(2) few by (simp_all add: FUZZ_CLI_MAX_ARG_LENGTH_def FUZZ_CLI_BUFFER_SIZE_def FUZZ_CLI_MAX_ARGS_def)
    have len: "length ?piece \<le> FUZZ_PIECE" by (rule next_piece_length)
    obtain c r' where r: "drop (length ?piece) r = c # r'"
      using start len Suc.prems(3) by (cases "drop (length ?piece) r") (auto simp: FUZZ_PIECE_def)
    have copied: "copy_argument data (length w) (length w) d (w @ r) =
        Some (w @ map char_of_byte ?piece @ c # r', length w + length ?piece, d + piece_end FUZZ_PIECE ?rest)"
      using copy_argument_piece [of "length w" w FUZZ_PIECE r d data ?rest] start Suc.prems(3,4)
      unfolding r by (simp add: FUZZ_PIECE_def FUZZ_CLI_MAX_ARG_LENGTH_def)
    have put: "put (w @ map char_of_byte ?piece @ c # r') (length w + length ?piece) NUL = Some (?w @ r')"
      by (simp add: put_def list_update_append)
    have step: "build_arguments data FUZZ_CLI_MAX_ARGS (length w) d (w @ r) offsets =
        build_arguments data FUZZ_CLI_MAX_ARGS (length ?w) (d + piece_end FUZZ_PIECE ?rest) (?w @ r') (offsets @ [length w])"
      using True room few by (subst build_arguments.simps) (simp add: copied put FUZZ_CLI_MAX_ARGS_def)
    have "\<exists>w' r'' offsets'. build_arguments data FUZZ_CLI_MAX_ARGS (length ?w) (d + piece_end FUZZ_PIECE ?rest) (?w @ r')
          (offsets @ [length w]) = Some (?w @ w' @ r'', (offsets @ [length w]) @ offsets') \<and>
        map (cstring_at (?w @ w' @ r'')) offsets' = map (map char_of_byte) (pieces n (drop (d + piece_end FUZZ_PIECE ?rest) data))"
    proof (rule Suc.IH)
      show "length ?w \<le> length (offsets @ [length w]) * FUZZ_CLI_MAX_ARG_LENGTH"
        using Suc.prems(2) len by (simp add: FUZZ_PIECE_def FUZZ_CLI_MAX_ARG_LENGTH_def)
      show "length ?w + length r' = FUZZ_CLI_BUFFER_SIZE" using Suc.prems(3) arg_cong [OF r, of length] by simp
      show "d + piece_end FUZZ_PIECE ?rest \<le> length data" using piece_end_bound [of FUZZ_PIECE ?rest] Suc.prems(4) by simp
    qed (use Suc.prems(1) in simp)
    then obtain w' r'' offsets' where build: "build_arguments data FUZZ_CLI_MAX_ARGS (length w) d (w @ r) offsets =
          Some (?w @ w' @ r'', offsets @ length w # offsets')"
      and later: "map (cstring_at (?w @ w' @ r'')) offsets' = map (map char_of_byte) (pieces n (drop (d + piece_end FUZZ_PIECE ?rest) data))"
      unfolding step by auto
    have "cstring_at (?w @ w' @ r'') (length w) = map char_of_byte ?piece"
      using cstring_at_piece [OF next_piece_nonzero, of w FUZZ_PIECE ?rest "w' @ r''"] by simp
    then show ?thesis using build later True
      by (intro exI [of _ "map char_of_byte ?piece @ [NUL] @ w'"] exI [of _ r''] exI [of _ "length w # offsets'"])
        (simp add: add.commute)
  qed
qed

lemma build_argv_pieces:
  assumes "length buffer = FUZZ_CLI_BUFFER_SIZE"
  shows "build_argv_from_fuzz_buffer data buffer FUZZ_CLI_MAX_ARGS =
    Some (''bc-duplicate'' # map (map char_of_byte) (pieces 15 data))"
  using build_arguments_pieces [of 15 "[]" "[]" buffer 0 data] assms
  by (auto simp: build_argv_from_fuzz_buffer_def FUZZ_CLI_MAX_ARGS_def)

section \<open>The texts of an input\<close>

definition fuzz_text :: "nat \<Rightarrow> u8 list \<Rightarrow> string" where
  "fuzz_text n data = takeWhile (\<lambda>c. c \<noteq> NUL) (map char_of_byte (take n data))"

lemma fuzz_text_no_NUL [simp]: "NUL \<notin> set (fuzz_text n data)"
  by (auto simp: fuzz_text_def dest: set_takeWhileD)

lemma fuzz_pattern_text_string:
  assumes "position + n \<le> length data" and "n < length buffer"
  shows "\<exists>buffer'. fuzz_pattern_text buffer data position n = Some buffer' \<and> cstring_at buffer' 0 = fuzz_text n (drop position data)"
proof -
  obtain c r where r: "drop n buffer = c # r" using assms(2) by (cases "drop n buffer") auto
  have "length (take n (drop position data)) = n" using assms(1) by simp
  then have "fuzz_pattern_text buffer data position n = Some (map char_of_byte (take n (drop position data)) @ NUL # r)"
    using assms by (simp add: fuzz_pattern_text_def copy_bytes_def put_def r list_update_append)
  moreover have "takeWhile (\<lambda>c. c \<noteq> NUL) (xs @ NUL # r) = takeWhile (\<lambda>c. c \<noteq> NUL) xs" for xs
    by (induction xs) simp_all
  ultimately show ?thesis by (simp add: cstring_at_def fuzz_text_def)
qed

lemma option_patterns_Nil [simp]: "option_patterns (Some []) = []" "option_patterns None = []"
  by (simp_all add: option_patterns_def)

lemma filter_fuzz_verdict_eq:
  assumes "filter_create m (if n1 = 0 then None else Some (fuzz_text n1 d1)) (if n2 = 0 then None else Some (fuzz_text n2 d2)) = (Some f, m1)"
    and "position \<le> length data" and "length basename_stale = 256"
  shows "\<exists>res. filter_fuzz_verdict fnm f basename_stale data position m1 = Some res \<and> filter_return res = 0 \<and>
    filter_verdicts res \<noteq> None \<and> (\<forall>m'. filter_pool res = Some m' \<longrightarrow> holds m {#} m') \<and>
    (\<forall>as_file as_directory. filter_verdicts res = Some (as_file, as_directory) \<longrightarrow>
      (let included = option_patterns (Some (fuzz_text n1 d1)); excluded = option_patterns (Some (fuzz_text n2 d2));
           name = fuzz_text 255 (drop position data) in
       as_directory = (\<forall>p \<in> set excluded. \<not> fnm p name) \<and>
       as_file = (as_directory \<and> (included = [] \<or> (\<exists>p \<in> set included. fnm p name)))))"
proof -
  let ?inc = "if n1 = 0 then None else Some (fuzz_text n1 d1)" and ?exc = "if n2 = 0 then None else Some (fuzz_text n2 d2)"
  let ?n = "min (length data - position) 255"
  have listed: "option_patterns ?inc = option_patterns (Some (fuzz_text n1 d1))" "option_patterns ?exc = option_patterns (Some (fuzz_text n2 d2))"
    by (simp_all add: fuzz_text_def)
  have name: "fuzz_text ?n (drop position data) = fuzz_text 255 (drop position data)"
    by (simp add: fuzz_text_def min_def)
  have "\<exists>buffer. fuzz_pattern_text basename_stale data position ?n = Some buffer \<and>
      cstring_at buffer 0 = fuzz_text 255 (drop position data)"
    by (rule fuzz_pattern_text_string [of position ?n data basename_stale, unfolded name]) (use assms(2,3) in auto)
  then obtain buffer where buffer: "fuzz_pattern_text basename_stale data position ?n = Some buffer"
      "cstring_at buffer 0 = fuzz_text 255 (drop position data)" by blast
  have "holds m {#} (filter_destroy f m1)"
    using filter_create_holds(2) [OF assms(1) refl] by (intro filter_destroy_holds) simp
  moreover note filter_accepts_lines [OF assms(1), of fnm "fuzz_text 255 (drop position data)", unfolded listed]
  ultimately show ?thesis using buffer assms(3) by (simp add: filter_fuzz_verdict_def Let_def split: if_splits)
qed

section \<open>The runs of a driver\<close>

lemma fill_buffer_returns:
  assumes "\<forall>j \<in> set js. j < length buffer"
  shows "\<exists>k' buffer'. fill_buffer rnd k js buffer = Some (k', buffer') \<and> length buffer' = length buffer"
  using assms
proof (induction js arbitrary: k buffer)
  case (Cons j js)
  let ?buffer = "buffer[j := of_nat (rnd k mod 256)]"
  have "\<exists>k' buffer'. fill_buffer rnd (Suc k) js ?buffer = Some (k', buffer') \<and> length buffer' = length ?buffer"
    using Cons.prems by (intro Cons.IH) simp
  then show ?case using Cons.prems by (simp add: put_def)
qed simp

lemma fuzz_iterations_return:
  assumes "\<And>data. test data \<noteq> None" and "0 < length buffer"
  shows "fuzz_iterations test rnd n k buffer \<noteq> None"
  using assms(2)
proof (induction n arbitrary: k buffer)
  case (Suc n)
  let ?n = "rnd k mod length buffer"
  obtain k' buffer' where fill: "fill_buffer rnd (Suc k) [0 ..< ?n] buffer = Some (k', buffer')" "length buffer' = length buffer"
    using fill_buffer_returns [of "[0 ..< ?n]" buffer rnd "Suc k"] mod_less_divisor [OF Suc.prems, of "rnd k"] by fastforce
  obtain answer where "test (take ?n buffer') = Some answer" using assms(1) by blast
  then show ?case using Suc.IH [of buffer' k'] Suc.prems fill by simp
qed simp

text \<open>A driver exits with 2 for a missing or malformed number and otherwise runs all its inputs and exits with 0.\<close>

lemma fuzz_main_exits:
  assumes "\<And>data. test data \<noteq> None" and "buffer \<noteq> []" and "parser_contract parse"
  shows "fuzz_main parse test rnd buffer arguments =
    Some (if 2 \<le> length arguments \<and> whole_number (arguments ! 1) \<and> (3 \<le> length arguments \<longrightarrow> whole_number (arguments ! 2))
      then 0 else 2)"
proof -
  have whole: "parse_whole parse s = (if whole_number s then Some (of_nat (decimal_value s)) else None)" for s
    using parser_contract_read [OF assms(3), of s] by (auto simp: parse_whole_def split: option.splits)
  have runs: "map_option (\<lambda>_. 0) (fuzz_iterations test rnd' n 0 buffer) = Some (0 :: int)" for rnd' n
    using fuzz_iterations_return [of test, OF assms(1), of buffer rnd' n 0] assms(2) by auto
  show ?thesis by (simp add: fuzz_main_def whole runs)
qed

section \<open>Properties\<close>

text \<open>C39
  The driver of the command line never leaves its arrays, whatever the input: the arguments are
  the program's name and the first fifteen pieces of the input, cut at zero bytes and after 63
  bytes. It binds options exactly when these arguments parse, returns zero and gives
  back its context, its store and its stream.
\<close>

theorem cli_fuzz_inputs_stay_in_bounds:
  assumes "length buffer = FUZZ_CLI_BUFFER_SIZE"
  shows "\<exists>res. cli_fuzz_one_input env stream_opened buffer data = Some res \<and>
    fuzz_return res = 0 \<and> fuzz_left res = \<lparr>live_contexts = 0, live_stores = 0\<rparr> \<and> fuzz_streams res = 0 \<and>
    fuzz_bound res =
      (if cli_context_created env \<and> cli_store_created env then
         (case cli_parse env cli_program_spec (''bc-duplicate'' # map (map char_of_byte) (pieces 15 data)) of
            (status, parsed, store) \<Rightarrow> if status = PARSE_OK then bind_options (cli_values env) store parsed else None)
       else None)"
  by (auto simp: cli_fuzz_one_input_def build_argv_pieces [OF assms] cli_release_def Let_def split: prod.split)

text \<open>C40
  The driver of the filter never leaves its arrays, whatever the input, returns zero and gives
  back every block to its pool. With memory, and two texts of the announced lengths, it comes to a
  verdict, which is the one by the lines of the
  two texts in the input, up to their first zero byte, on the name of at most 255 bytes behind them.
\<close>

theorem filter_fuzz_inputs_stay_in_bounds:
  assumes "length include_stale = 512" and "length exclude_stale = 512" and "length basename_stale = 256"
  shows "\<exists>res. filter_fuzz_one_input fnm context_created include_stale exclude_stale basename_stale data = Some res \<and>
    filter_return res = 0 \<and>
    (\<forall>m m'. context_created = Some m \<and> filter_pool res = Some m' \<longrightarrow> holds m {#} m') \<and>
    (\<forall>m. context_created = Some m \<and> grants m = (\<lambda>_. True) \<and> 3 \<le> length data \<and>
      2 + unat (data ! 0) + unat (data ! 1) \<le> length data \<longrightarrow> filter_verdicts res \<noteq> None) \<and>
    (\<forall>as_file as_directory. filter_verdicts res = Some (as_file, as_directory) \<longrightarrow>
      (let n1 = unat (data ! 0); n2 = unat (data ! 1);
           included = option_patterns (Some (fuzz_text n1 (drop 2 data)));
           excluded = option_patterns (Some (fuzz_text n2 (drop (2 + n1) data)));
           name = fuzz_text 255 (drop (2 + n1 + n2) data) in
       as_directory = (\<forall>p \<in> set excluded. \<not> fnm p name) \<and>
       as_file = (as_directory \<and> (included = [] \<or> (\<exists>p \<in> set included. fnm p name)))))"
proof -
  define n1 n2 where n: "n1 = unat (data ! 0)" "n2 = unat (data ! 1)"
  let ?run = "filter_fuzz_one_input fnm context_created include_stale exclude_stale basename_stale data"
  note unfolds = filter_fuzz_one_input_def Let_def n [symmetric]
  show ?thesis
  proof (cases "length data < 3 \<or> 2 + n1 + n2 > length data")
    case True
    then have "?run = Some stopped" unfolding unfolds by auto
    then show ?thesis using True unfolding n by (auto simp: stopped_def)
  next
    case False
    then have fits: "2 + n1 \<le> length data" "2 + n1 + n2 \<le> length data" by simp_all
    have bytes: "n1 < 512" "n2 < 512" unfolding n by (rule order_less_le_trans [OF unsigned_less], simp)+
    obtain inc where inc: "fuzz_pattern_text include_stale data 2 n1 = Some inc" "cstring_at inc 0 = fuzz_text n1 (drop 2 data)"
      using fuzz_pattern_text_string [OF fits(1), of include_stale] bytes assms by auto
    obtain exc where exc: "fuzz_pattern_text exclude_stale data (2 + n1) n2 = Some exc"
        "cstring_at exc 0 = fuzz_text n2 (drop (2 + n1) data)"
      using fuzz_pattern_text_string [OF fits(2), of exclude_stale] bytes assms by auto
    let ?list = "\<lambda>n d. if n = 0 then None else Some (fuzz_text n d)"
    have reach: "?run = (case context_created of None \<Rightarrow> Some stopped
       | Some m \<Rightarrow> (case filter_create m (?list n1 (drop 2 data)) (?list n2 (drop (2 + n1) data)) of
            (None, m1) \<Rightarrow> Some (stopped\<lparr>filter_pool := Some m1\<rparr>)
          | (Some f, m1) \<Rightarrow> filter_fuzz_verdict fnm f basename_stale data (2 + n1 + n2) m1))"
      using False unfolding unfolds inc exc option.case by simp
    show ?thesis
    proof (cases context_created)
      case None
      then have "?run = Some stopped" unfolding reach by simp
      then show ?thesis using None by (simp add: stopped_def)
    next
      case (Some m)
      obtain res m1 where create: "filter_create m (?list n1 (drop 2 data)) (?list n2 (drop (2 + n1) data)) = (res, m1)"
        by (metis prod.exhaust)
      show ?thesis
      proof (cases res)
        case None
        then have "?run = Some (stopped\<lparr>filter_pool := Some m1\<rparr>)" using Some create unfolding reach by simp
        moreover have "grants m \<noteq> (\<lambda>_. True)" using filter_create_granted [of m] create None by (metis option.distinct(1) prod.inject)
        ultimately show ?thesis using filter_create_holds(1) [OF create None] Some by (simp add: stopped_def)
      next
        case f: (Some f)
        have "?run = filter_fuzz_verdict fnm f basename_stale data (2 + n1 + n2) m1"
          using Some create f unfolding reach by simp
        moreover note filter_fuzz_verdict_eq [OF create [unfolded f] fits(2) assms(3), of fnm]
        ultimately show ?thesis using Some unfolding n [symmetric] Let_def by (elim exE conjE) simp
      qed
    qed
  qed
qed

section \<open>Witnesses\<close>

text \<open>The command line \<^verbatim>\<open>s /x\<close>, and the texts \<^verbatim>\<open>a\<close> and \<^verbatim>\<open>c\<close> before the name \<^verbatim>\<open>a\<close>.\<close>

definition fuzz_sample :: "(u8 list, u8 list, bool) main_env" where
  "fuzz_sample = sample_main\<lparr>cli_parse := \<lambda>spec arguments.
    (if arguments = [''bc-duplicate'', ''s'', ''/x''] then PARSE_OK else PARSE_ERROR, parsed_of pair_options, store_of pair_options)\<rparr>"

lemma fuzz_sample_pieces: "map (map char_of_byte) (pieces 15 [115, 0, 47, 120]) = [''s'', ''/x'']"
  by code_simp

theorem cli_fuzz_inputs_stay_in_bounds_witness:
  "\<exists>res. cli_fuzz_one_input fuzz_sample True (replicate FUZZ_CLI_BUFFER_SIZE (CHR ''?'')) [115, 0, 47, 120] = Some res \<and>
    fuzz_bound res = Some pair_options \<and> fuzz_streams res = 0"
proof -
  from cli_fuzz_inputs_stay_in_bounds [of "replicate FUZZ_CLI_BUFFER_SIZE (CHR ''?'')" fuzz_sample True "[115, 0, 47, 120]",
      OF length_replicate, unfolded fuzz_sample_pieces]
  show ?thesis using pair_options_bind by (auto simp: fuzz_sample_def sample_main_def)
qed

theorem filter_fuzz_inputs_stay_in_bounds_witness:
  "\<exists>res. filter_fuzz_one_input (=) (Some granting_pool) (replicate 512 NUL) (replicate 512 NUL) (replicate 256 NUL)
      [1, 1, 97, 99, 97] = Some res \<and> filter_verdicts res = Some (True, True)"
proof -
  have texts: "fuzz_text 1 (drop 2 [1, 1, 97, 99, 97]) = ''a''" "fuzz_text 1 (drop (2 + 1) [1, 1, 97, 99, 97]) = ''c''"
    "fuzz_text 255 (drop (2 + 1 + 1) [1, 1, 97, 99, 97]) = ''a''"
    by code_simp+
  obtain res where res: "filter_fuzz_one_input (=) (Some granting_pool) (replicate 512 NUL) (replicate 512 NUL) (replicate 256 NUL)
      [1, 1, 97, 99, 97] = Some res" "filter_verdicts res \<noteq> None"
    and verdict: "\<And>as_file as_directory. filter_verdicts res = Some (as_file, as_directory) \<Longrightarrow>
      as_directory = (\<forall>p \<in> set (option_patterns (Some ''c'')). p \<noteq> ''a'') \<and>
      as_file = (as_directory \<and> (option_patterns (Some ''a'') = [] \<or> (\<exists>p \<in> set (option_patterns (Some ''a'')). p = ''a'')))"
    using filter_fuzz_inputs_stay_in_bounds [of "replicate 512 NUL" "replicate 512 NUL" "replicate 256 NUL" "(=)"
        "Some granting_pool" "[1, 1, 97, 99, 97]"] granting_pool_grants texts
    by (auto simp: Let_def)
  then show ?thesis by (cases "filter_verdicts res") (auto simp: option_patterns_def NEWLINE_def)
qed

end
