(* ===== verification/Spec2Isabelle.thy ===== *)
theory Spec2Isabelle
  imports Report_Safety Ring_Leftovers Fuzz_Harness
begin

text \<open>
  bc-duplicate finds duplicate files. It is written in C; this development models its sources
  under \<^verbatim>\<open>src/\<close> with their names, less the prefix \<^verbatim>\<open>bc_duplicate_\<close>, and proves what they compute.

  \<^bold>\<open>How the program works.\<close> \<^verbatim>\<open>main\<close> parses the command line into a store of values, binds them to
  \<^verbatim>\<open>cli_options\<close> and hands three callbacks to a runtime. The run discovers the files below the
  inputs (sequentially, or in parallel when there are two workers or more), sorts them by size,
  device and inode, collapses hard links and keeps the runs of equal size; hashes the first and
  last block of every candidate and keeps the groups of equal hash; decides by measured (and
  cached) throughput whether to use one thread, hashes the candidates completely, in batches
  through io_uring rings with a synchronous fallback, and keeps the groups of equal digest. It
  ends with a report in JSON, as lines of paths, or as a summary of numbers.

  \<^bold>\<open>Theories, in the order of the program's parts.\<close>
  \<^item> \<open>Dup_Prelude\<close>, \<open>Dup_Types\<close>, \<open>Dup_Text\<close>: list segments and hint collections; the structs and
    enums of \<^verbatim>\<open>bc_duplicate_types_internal.h\<close>; buffers and decimal numbers as text.
  \<^item> \<open>Dup_Pool\<close>: the allocator as the program uses it. A pool answers each request as it likes and
    keeps the multiset of blocks held; \<open>holds m bs m'\<close> says what is held beyond \<open>m\<close>. Also the
    growing buffer of groups, with a fault for a write past its capacity.
  \<^item> \<open>Dup_Order\<close>: comparators, the contract of the base library's sort, and the abstract
    specification of all grouping: \<open>dup_classes same M\<close>, the classes of two or more elements.
  \<^item> \<open>Run_Scan\<close>, \<open>Grouping_Size\<close>, \<open>Grouping_Hash\<close>: \<^verbatim>\<open>grouping/*.c\<close>. The loops over an array in
    place refine \<open>runs\<close> and \<open>squeeze\<close> on lists, and these \<open>dup_classes\<close>.
  \<^item> \<open>Worker_Pass\<close>, \<open>Worker_Fast\<close>: \<^verbatim>\<open>worker_sort.c\<close>, \<^verbatim>\<open>worker_fast.c\<close>. A parallel loop is any order
    of its iterations.
  \<^item> \<open>Reader_Sync\<close>, \<open>Reader_Ring\<close>, \<open>Ring_Delivery\<close>: \<^verbatim>\<open>worker_reader.c\<close>, \<^verbatim>\<open>worker_batch_uring.c\<close>.
    Submission and completion queues, with the kernel's answers in any order; what an honest
    kernel delivers. \<open>Ring_Leftovers\<close>: what a ring does after a wait that failed.
  \<^item> \<open>Worker_Full\<close>: \<^verbatim>\<open>worker_full.c\<close>, over the reader and the streaming hash interfaces.
  \<^item> \<open>Path_Filter\<close>: \<^verbatim>\<open>filter.c\<close> and \<^verbatim>\<open>discovery_glob.c\<close>.
  \<^item> \<open>Discovery_Walk\<close>, \<open>Discovery_Parallel\<close>: \<^verbatim>\<open>discovery_walk.c\<close> over a record of system calls,
    \<^verbatim>\<open>discovery_walk_parallel.c\<close> over the callbacks of the base library's walk.
  \<^item> \<open>Output\<close>: \<^verbatim>\<open>output_json.c\<close> and \<^verbatim>\<open>output_simple.c\<close>; \<open>emits f t\<close> is the contract of a write.
  \<^item> \<open>Cli_Options\<close>: \<^verbatim>\<open>cli_spec.c\<close>, the option table and the binding of values.
  \<^item> \<open>Throughput\<close>, \<open>Throughput_Cache\<close>: \<^verbatim>\<open>bench/*.c\<close>, with the arithmetic on doubles as a record.
  \<^item> \<open>Application\<close>: the callbacks of \<^verbatim>\<open>bc_duplicate_main.c\<close>; \<open>Passes\<close> composes the
    hashing and grouping passes, \<open>Pipeline\<close> the run, \<open>Run_Totals\<close> sums the statistics,
    \<open>Report_Safety\<close> follows what every run keeps;
    \<open>Lifecycle\<close> follows the pool through init, run and clean-up; \<open>Main_Program\<close> is \<^verbatim>\<open>main\<close>.
  \<^item> \<open>Fuzz_Harness\<close>: the drivers for a fuzzer, \<^verbatim>\<open>fuzzing/*.c\<close>, over arrays with bounds.

  \<^bold>\<open>What is proved.\<close> The groups of a report are exactly the classes of equal size, block hash and
  digest of the files kept after collapsing hard links, none listed twice, hence of equal content
  when the digest does not collide, the statistics are their totals, and the text is their
  rendering (\<open>Pipeline\<close>, \<open>Run_Totals\<close>). An undisturbed run succeeds. Whatever fails,
  changes or is interrupted, a report only groups files of one size and names no kept file twice
  (\<open>Report_Safety\<close>). Each pass meets its specification and does not depend on threads, workers, order or
  rings. Discovery returns, reports only discoverable files, misses none in a directory it walks,
  and the parallel walk loses none. Rings never lose an item, as long as no submission or wait
  fails before the last; a file that changed is reported.
  Options, JSON strings, simple reports, ring tags and the cache round-trip. On every path the
  program gives back the memory it took. The exit codes are characterised. What the code does
  against its purpose is stated too: a full pass whose batches are skipped, by a signal or for
  want of a ring, still reports success, and its files are taken for duplicates by size and
  block hash, or by size alone when the signal stopped the fast pass too; files of equal size that
  cannot be opened are reported as duplicates of each other; completions that a failed wait leaves in
  a ring settle the files of the next batch; errors of the parallel walk are not counted.

  \<^bold>\<open>Interfaces.\<close> Six locales state what one part needs of another: \<open>comparator\<close> and
  \<open>grouping_order\<close> (an order and the equality its runs have), \<open>owned_state\<close> and \<open>owned_cells\<close> (iterations
  that write cells of their own, so that their order does not matter), \<open>independent_parts\<close> (ring
  operations that keep each other's invariant) and \<open>walk_invariant\<close> (what every step of a walk
  keeps). They are interpreted on the orders of the three groupings, the iterations of the passes,
  the rings and the walk, and the properties use the facts of those interpretations. The contracts
  of code outside \<^verbatim>\<open>src/\<close> are predicates named
  \<open>\<dots>_contract\<close>: sort, byte comparison, parallel loop, hash functions, buffers, number parser, line
  reader; and \<open>honest_kernel\<close>, \<open>serves\<close>, \<open>runtime_drives\<close>. Each has a witness.

  \<^bold>\<open>Representation.\<close> Sizes, inodes, devices, hashes and counts that are multiplied or divided are
  64-bit words and wrap around; array indices and lengths are naturals. Arrays are lists, written in
  place with the reads and writes of the code. Failures are values; what a path yields is
  an error number or a content (\<open>file_answer\<close>). Loops without a bound of
  their own have fuel or end in \<open>None\<close>: the walk is given fuel, and more than the number of
  directory inodes is enough; a read loop or a ring that never ends is \<open>None\<close>, and the
  theorems that a pass returns show that it is not. File system, host and clock answer by the number
  or the arguments of a call and do not change by themselves.

  \<^bold>\<open>Not modelled.\<close> What is logged to standard error and the texts of the help; hints to the kernel
  (\<^verbatim>\<open>posix_fadvise\<close>) and alignment; the tests; the base library, liburing, xxHash and libc, which are parameters. \<^verbatim>\<open>bc_core_length\<close> and the memory
  primitives are operations on lists. That the pool of the main thread can free a path that
  a discovery worker allocated is a property of the base library: it is the parameter
  \<open>release_worker_path\<close>. Data races below the level of an iteration or a callback are
  outside the model: iterations write disjoint entries.
\<close>

end
